(* ===== verification/Prelude.thy ===== *)
theory Prelude
  imports Main "HOL-Library.Word"
begin

text \<open>
  Shared vocabulary of the development: the fixed-width integers of
  \<^verbatim>\<open>include/hbmsim/common/types.h\<close>, the exceptions the simulator throws as values of
  a sum type, sequencing of fallible steps, and the generic facts on words and lists that
  the component theories use through the collections \<open>result_simps\<close> and \<open>word_nat\<close>.
\<close>

unbundle bit_operations_syntax

section \<open>Integers\<close>

text \<open>Every C++ integer of the simulator is an unsigned integer of a fixed width.\<close>

type_synonym u8 = "8 word"
type_synonym u32 = "32 word"
type_synonym u64 = "64 word"

text \<open>\<^verbatim>\<open>SimTime\<close> (picoseconds), \<^verbatim>\<open>TransactionId\<close>, \<^verbatim>\<open>ClientId\<close> of
  \<^verbatim>\<open>common/types.h\<close>; \<^verbatim>\<open>std::size_t\<close> is 64 bits wide.\<close>

type_synonym sim_time = u64
type_synonym transaction_id = u64
type_synonym client_id = u32
type_synonym size_t = u64

definition kPicosecondsPerNanosecond :: sim_time where
  "kPicosecondsPerNanosecond = 1000"

text \<open>\<^verbatim>\<open>std::numeric_limits<std::uint64_t>::max()\<close>.\<close>

abbreviation u64_max :: u64 where
  "u64_max \<equiv> - 1"

text \<open>\<^verbatim>\<open>size()\<close> of a container.\<close>

definition size_of :: "'a list \<Rightarrow> size_t" where
  "size_of xs = word_of_nat (length xs)"

section \<open>Exceptions as values\<close>

text \<open>
  One constructor per exception class the sources throw, carrying the message, one for the
  places where the C++ has undefined behaviour (a division by zero, \<^verbatim>\<open>front()\<close> of an
  empty vector), and one for a loop that never ends. A theorem that an operation returns \<open>Inr\<close>
  thus also says that it terminates and that no such place is reached.
\<close>

datatype error =
    InvalidArgument string
  | OutOfRange string
  | OverflowError string
  | LogicError string
  | RuntimeError string
  | UndefinedBehaviour string
  | Diverges

type_synonym 'a result = "error + 'a"

named_theorems result_simps \<open>sequencing of fallible steps\<close>

text \<open>Run the next step on the value of the first, or pass its exception on.\<close>

definition ebind :: "'a result \<Rightarrow> ('a \<Rightarrow> 'b result) \<Rightarrow> 'b result" where
  "ebind m f = (case m of Inl e \<Rightarrow> Inl e | Inr a \<Rightarrow> f a)"

definition throw_if :: "bool \<Rightarrow> error \<Rightarrow> unit result" where
  "throw_if b e = (if b then Inl e else Inr ())"

text \<open>\<^verbatim>\<open>std::vector::at\<close>.\<close>

definition list_at :: "'a list \<Rightarrow> nat \<Rightarrow> 'a result" where
  "list_at xs i = (if i < length xs then Inr (xs ! i) else Inl (OutOfRange ''vector::at''))"

text \<open>\<^verbatim>\<open>operator[]\<close> and \<^verbatim>\<open>front()\<close>, which do not check the index.\<close>

definition element :: "'a list \<Rightarrow> nat \<Rightarrow> 'a result" where
  "element xs i = (if i < length xs then Inr (xs ! i) else Inl (UndefinedBehaviour ''index''))"

text \<open>The outcome of a loop defined by \<^theory_text>\<open>partial_function (option)\<close>, where
  \<open>None\<close> means that it does not end.\<close>

definition outcome :: "'a result option \<Rightarrow> 'a result" where
  "outcome m = (case m of None \<Rightarrow> Inl Diverges | Some r \<Rightarrow> r)"

lemma outcome_simps [simp]: "outcome None = Inl Diverges" "outcome (Some r) = r"
  by (simp_all add: outcome_def)

lemma ebind_Inr [simp, result_simps]: "ebind (Inr a) f = f a"
  by (simp add: ebind_def)

lemma ebind_Inl [simp, result_simps]: "ebind (Inl e) f = Inl e"
  by (simp add: ebind_def)

lemma ebind_eq_Inr [result_simps]: "ebind m f = Inr b \<longleftrightarrow> (\<exists>a. m = Inr a \<and> f a = Inr b)"
  by (cases m) auto

lemma ebind_eq_Inl [result_simps]:
  "ebind m f = Inl e \<longleftrightarrow> m = Inl e \<or> (\<exists>a. m = Inr a \<and> f a = Inl e)"
  by (cases m) auto

lemma ebind_assoc: "ebind (ebind m f) g = ebind m (\<lambda>a. ebind (f a) g)"
  by (cases m) auto

lemma ebind_cong [fundef_cong]:
  "m = m' \<Longrightarrow> (\<And>a. m' = Inr a \<Longrightarrow> f a = f' a) \<Longrightarrow> ebind m f = ebind m' f'"
  by (cases m') auto

lemma ebind_cases [consumes 1, case_names bind]:
  assumes "ebind m f = Inr b"
  obtains a where "m = Inr a" "f a = Inr b"
  using assms by (auto simp: ebind_eq_Inr)

lemma throw_if_eq [simp, result_simps]:
  "throw_if b e = Inr u \<longleftrightarrow> \<not> b"
  "throw_if b e = Inl e' \<longleftrightarrow> b \<and> e' = e"
  by (auto simp: throw_if_def)

lemma throw_if_simps [simp]: "throw_if True e = Inl e" "throw_if False e = Inr ()"
  by (simp_all add: throw_if_def)

lemma list_at_eq_Inr [result_simps]: "list_at xs i = Inr x \<longleftrightarrow> i < length xs \<and> x = xs ! i"
  by (auto simp: list_at_def)

lemma list_at_Inr [simp]: "i < length xs \<Longrightarrow> list_at xs i = Inr (xs ! i)"
  by (simp add: list_at_def)

lemma element_eq_Inr [result_simps]: "element xs i = Inr x \<longleftrightarrow> i < length xs \<and> x = xs ! i"
  by (auto simp: element_def)

lemma element_Inr [simp]: "i < length xs \<Longrightarrow> element xs i = Inr (xs ! i)"
  by (simp add: element_def)

lemma result_cases [case_names Inl Inr]:
  assumes "\<And>e. m = Inl e \<Longrightarrow> P" and "\<And>a. m = Inr a \<Longrightarrow> P"
  shows P
  using assms by (cases m) auto

section \<open>What a step delivers\<close>

text \<open>
  \<open>delivers P m\<close>: the step \<open>m\<close> returns a value with \<open>P\<close>, or simulated time
  leaves the 64-bit range and an \<^verbatim>\<open>overflow_error\<close> is thrown. It throws no other
  exception, reaches no undefined behaviour and ends.
\<close>

definition delivers :: "('a \<Rightarrow> bool) \<Rightarrow> 'a result \<Rightarrow> bool" where
  "delivers P m \<longleftrightarrow> (case m of Inl e \<Rightarrow> \<exists>s. e = OverflowError s | Inr a \<Rightarrow> P a)"

lemma delivers_Inr [simp]: "delivers P (Inr a) = P a"
  by (simp add: delivers_def)

lemma delivers_Inl [simp]: "delivers P (Inl e) = (\<exists>s. e = OverflowError s)"
  by (simp add: delivers_def)

lemma delivers_ebind: "delivers P (ebind m f) = delivers (\<lambda>a. delivers P (f a)) m"
  by (cases m) auto

lemma delivers_mono: "delivers P m \<Longrightarrow> (\<And>a. m = Inr a \<Longrightarrow> P a \<Longrightarrow> Q a) \<Longrightarrow> delivers Q m"
  by (cases m) auto

lemma delivers_bindI:
  "delivers P m \<Longrightarrow> (\<And>a. m = Inr a \<Longrightarrow> P a \<Longrightarrow> delivers Q (f a)) \<Longrightarrow> delivers Q (ebind m f)"
  by (cases m) auto

lemma delivers_throw_if: "\<not> b \<Longrightarrow> P () \<Longrightarrow> delivers P (throw_if b e)"
  by simp

lemma delivers_list_at: "i < length xs \<Longrightarrow> P (xs ! i) \<Longrightarrow> delivers P (list_at xs i)"
  by simp

lemma deliversD: "delivers P m \<Longrightarrow> m = Inr a \<Longrightarrow> P a"
  by simp

lemma delivers_conj: "delivers P m \<Longrightarrow> delivers Q m \<Longrightarrow> delivers (\<lambda>a. P a \<and> Q a) m"
  by (cases m) auto

section \<open>Words read as natural numbers\<close>

named_theorems word_nat \<open>comparisons and arithmetic of words, over the naturals\<close>

declare word_le_nat_alt [word_nat] word_less_nat_alt [word_nat]

lemma unat_u64_lt: "unat (x :: u64) < 2 ^ 64"
  using unsigned_less [of x, where ?'a = nat] by simp

lemma unat_u32_lt: "unat (x :: u32) < 2 ^ 32"
  using unsigned_less [of x, where ?'a = nat] by simp

lemma unat_u64_max: "unat u64_max = 2 ^ 64 - 1"
  by (simp add: unsigned_minus_1_eq_mask mask_eq_exp_minus_1)

lemma unat_add_u64 [word_nat]: "unat (x + y :: u64) = (unat x + unat y) mod 2 ^ 64"
  by (simp add: unat_word_ariths)

lemma unat_mult_u64 [word_nat]: "unat (x * y :: u64) = (unat x * unat y) mod 2 ^ 64"
  by (simp add: unat_word_ariths)

lemma unat_add_u32 [word_nat]: "unat (x + y :: u32) = (unat x + unat y) mod 2 ^ 32"
  by (simp add: unat_word_ariths)

lemma unat_mult_u32 [word_nat]: "unat (x * y :: u32) = (unat x * unat y) mod 2 ^ 32"
  by (simp add: unat_word_ariths)

lemma unat_add_u64_small: "unat x + unat y < 2 ^ 64 \<Longrightarrow> unat (x + y :: u64) = unat x + unat y"
  by (simp add: unat_add_u64)

lemma unat_mult_u64_small: "unat x * unat y < 2 ^ 64 \<Longrightarrow> unat (x * y :: u64) = unat x * unat y"
  by (simp add: unat_mult_u64)

lemma unat_add_u32_small: "unat x + unat y < 2 ^ 32 \<Longrightarrow> unat (x + y :: u32) = unat x + unat y"
  by (simp add: unat_add_u32)

lemma unat_mult_u32_small: "unat x * unat y < 2 ^ 32 \<Longrightarrow> unat (x * y :: u32) = unat x * unat y"
  by (simp add: unat_mult_u32)

text \<open>The overflow test of the sources, \<open>x > max - d\<close>, read over the naturals.\<close>

lemma u64_overflow_test: "x > u64_max - (d :: u64) \<longleftrightarrow> 2 ^ 64 \<le> unat x + unat d"
proof -
  have "d \<le> u64_max" by (rule word_order.extremum)
  then have "unat (u64_max - d) = unat u64_max - unat d" by (rule unat_sub)
  then show ?thesis
    using unat_u64_lt [of d] by (auto simp: word_less_nat_alt unat_u64_max)
qed

lemma u64_no_overflow: "\<not> x > u64_max - (d :: u64) \<Longrightarrow> unat (x + d) = unat x + unat d"
  by (simp add: u64_overflow_test unat_add_u64)

lemma unat_size_of [word_nat]: "length xs < 2 ^ 64 \<Longrightarrow> unat (size_of xs) = length xs"
  by (simp add: size_of_def unat_of_nat)

lemma unat_u32_to_u64 [word_nat]: "unat (ucast (x :: u32) :: u64) = unat x"
  using unat_u32_lt [of x] by (simp add: unsigned_ucast_eq take_bit_eq_mod)

lemma unat_u64_to_u32 [word_nat]: "unat (ucast (x :: u64) :: u32) = unat x mod 2 ^ 32"
  by (simp add: unsigned_ucast_eq take_bit_eq_mod)

end
