(* ===== verification/Bandwidth.thy ===== *)
theory Bandwidth
  imports Prelude
begin

text \<open>
  \<^verbatim>\<open>include/hbmsim/resource/bandwidth_rate.h\<close> and
  \<^verbatim>\<open>src/resource/bandwidth_rate.cpp\<close>: the exact rational transport rate of a data
  bus. The lemmas show that \<open>transfer_time\<close> is the rounded-up quotient over the
  naturals, and that it throws exactly when that computation leaves 64 bits.
\<close>

record bandwidth_rate =
  br_bytes :: u64
  br_interval :: sim_time

definition bandwidth_validate :: "bandwidth_rate \<Rightarrow> unit result" where
  "bandwidth_validate r = throw_if (br_bytes r = 0 \<or> br_interval r = 0)
     (InvalidArgument ''bandwidth rate numerator and interval must be non-zero'')"

definition transfer_time :: "bandwidth_rate \<Rightarrow> u64 \<Rightarrow> sim_time result" where
  "transfer_time r transfer_bytes =
     ebind (bandwidth_validate r) (\<lambda>_.
       if transfer_bytes > u64_max div br_interval r
       then Inl (OverflowError ''transfer time overflows SimTime'')
       else let scaled = transfer_bytes * br_interval r in
         if scaled > u64_max - (br_bytes r - 1)
         then Inl (OverflowError ''transfer time overflows SimTime'')
         else Inr ((scaled + br_bytes r - 1) div br_bytes r))"

lemma bandwidth_validate_ok [simp]:
  "bandwidth_validate r = Inr u \<longleftrightarrow> br_bytes r \<noteq> 0 \<and> br_interval r \<noteq> 0"
  by (simp add: bandwidth_validate_def)

text \<open>The first overflow test: the product of bytes and interval fits in 64 bits.\<close>

lemma product_overflow_test:
  assumes "i \<noteq> (0 :: u64)"
  shows "n > u64_max div i \<longleftrightarrow> 2 ^ 64 \<le> unat n * unat i"
proof -
  have i: "0 < unat i" using assms by (simp add: unat_gt_0)
  have "n > u64_max div i \<longleftrightarrow> (2 ^ 64 - 1) div unat i < unat n"
    by (simp add: word_less_nat_alt unat_div unat_u64_max)
  also have "\<dots> \<longleftrightarrow> 2 ^ 64 - 1 < unat n * unat i"
    using i by (simp add: div_less_iff_less_mult)
  also have "\<dots> \<longleftrightarrow> 2 ^ 64 \<le> unat n * unat i" by auto
  finally show ?thesis .
qed

lemma unat_minus_1_nonzero: "b \<noteq> (0 :: u64) \<Longrightarrow> unat (b - 1) = unat b - 1"
  by (simp add: unat_minus_one)

lemma transfer_time_cases:
  assumes "br_bytes r \<noteq> 0" and "br_interval r \<noteq> 0"
  shows "transfer_time r n =
    (if unat n * unat (br_interval r) + (unat (br_bytes r) - 1) < 2 ^ 64
     then Inr (word_of_nat ((unat n * unat (br_interval r) + (unat (br_bytes r) - 1))
                div unat (br_bytes r)))
     else Inl (OverflowError ''transfer time overflows SimTime''))"
proof -
  let ?b = "br_bytes r" and ?i = "br_interval r"
  let ?s = "unat n * unat ?i"
  note v = assms bandwidth_validate_def
  show ?thesis
  proof (cases "2 ^ 64 \<le> ?s")
    case True
    then have "n > u64_max div ?i" using product_overflow_test [OF assms(2)] by simp
    with True show ?thesis by (simp add: transfer_time_def v)
  next
    case False
    then have s: "unat (n * ?i) = ?s" by (simp add: unat_mult_u64_small)
    have n1: "\<not> n > u64_max div ?i" using False product_overflow_test [OF assms(2)] by simp
    have t: "n * ?i > u64_max - (?b - 1) \<longleftrightarrow> 2 ^ 64 \<le> ?s + (unat ?b - 1)"
      using u64_overflow_test [of "?b - 1" "n * ?i"] by (simp add: s unat_minus_1_nonzero assms)
    show ?thesis
    proof (cases "2 ^ 64 \<le> ?s + (unat ?b - 1)")
      case True
      with n1 t show ?thesis by (simp add: transfer_time_def v Let_def)
    next
      case False
      have e: "n * ?i + ?b - 1 = n * ?i + (?b - 1)" by (simp add: algebra_simps)
      have b1: "unat (?b - 1) = unat ?b - 1" using assms(1) by (rule unat_minus_1_nonzero)
      have u: "unat (n * ?i + ?b - 1) = ?s + (unat ?b - 1)"
        unfolding e using False unat_add_u64_small [of "n * ?i" "?b - 1"] unfolding s b1 by simp
      have "(n * ?i + ?b - 1) div ?b = word_of_nat ((?s + (unat ?b - 1)) div unat ?b)"
        unfolding u [symmetric] unat_div [symmetric] by simp
      with n1 t False show ?thesis by (simp add: transfer_time_def v Let_def)
    qed
  qed
qed

text \<open>A successful transfer time is the ceiling of bytes times interval over the rate.\<close>

lemma transfer_time_value:
  assumes "transfer_time r n = Inr d"
  shows "unat d = (unat n * unat (br_interval r) + (unat (br_bytes r) - 1)) div unat (br_bytes r)"
proof -
  from assms have nz: "br_bytes r \<noteq> 0" "br_interval r \<noteq> 0"
    by (auto simp: transfer_time_def ebind_eq_Inr)
  let ?q = "(unat n * unat (br_interval r) + (unat (br_bytes r) - 1)) div unat (br_bytes r)"
  from assms have lt: "unat n * unat (br_interval r) + (unat (br_bytes r) - 1) < 2 ^ 64"
    and d: "d = word_of_nat ?q"
    by (auto simp: transfer_time_cases [OF nz] split: if_splits)
  have "?q < 2 ^ 64" using lt by (rule le_less_trans [OF div_le_dividend])
  then show ?thesis using d by (simp add: unat_of_nat)
qed

text \<open>Enough time to move the bytes at the rate, and one picosecond less is not enough.\<close>

lemma transfer_time_tight:
  assumes "transfer_time r n = Inr d" and "n \<noteq> 0"
  shows "unat n * unat (br_interval r) \<le> unat d * unat (br_bytes r)"
    and "0 < unat d"
    and "(unat d - 1) * unat (br_bytes r) < unat n * unat (br_interval r)"
proof -
  from assms have nz: "br_bytes r \<noteq> 0" "br_interval r \<noteq> 0"
    by (auto simp: transfer_time_def ebind_eq_Inr)
  let ?s = "unat n * unat (br_interval r)" and ?b = "unat (br_bytes r)"
  have b: "0 < ?b" and s: "0 < ?s" using nz assms(2) by (simp_all add: unat_gt_0)
  have d: "unat d = (?s + (?b - 1)) div ?b" by (rule transfer_time_value [OF assms(1)])
  have m: "(?s + (?b - 1)) div ?b * ?b + (?s + (?b - 1)) mod ?b = ?s + (?b - 1)" by simp
  have "(?s + (?b - 1)) mod ?b \<le> ?b - 1" using b by (simp add: Suc_leI less_Suc_eq_le [symmetric])
  with m show le: "?s \<le> unat d * ?b" unfolding d by linarith
  from le s show pos: "0 < unat d" by (cases "unat d") auto
  have "(unat d - 1) * ?b = unat d * ?b - ?b" by (simp add: diff_mult_distrib)
  with m b s pos show "(unat d - 1) * ?b < ?s" unfolding d by linarith
qed

end
