(* ===== verification/Hbm_Types.thy ===== *)
theory Hbm_Types
  imports Prelude
begin

text \<open>
  The data the components exchange: operations and transactions
  (\<^verbatim>\<open>common/types.h\<close>, \<^verbatim>\<open>transaction.h\<close>), the private command vocabulary
  (\<^verbatim>\<open>dram/command.h\<close>, \<^verbatim>\<open>dram/spec.h\<close>), the level-indexed address
  (\<^verbatim>\<open>dram/address.h\<close>), the state of one bank (\<^verbatim>\<open>media/bank_state.h\<close>) and the
  counters (\<^verbatim>\<open>stats.h\<close>). Constructors that two enumerations share are written with
  their type's name, as the \<^verbatim>\<open>enum class\<close> scopes are: \<open>hbm_op.Read\<close>,
  \<open>hbm_command.Read\<close>.
\<close>

section \<open>Operations, traffic metadata and transactions\<close>

datatype hbm_op = Read | Write

datatype traffic_class = Demand | Prefetch | Fill | Writeback | Background

record request_metadata =
  traffic_class :: traffic_class
  priority :: u8
  opaque_tag :: u64
  ordering_domain :: u32

definition default_metadata :: request_metadata where
  "default_metadata =
     \<lparr>traffic_class = Demand, priority = 0, opaque_tag = 0, ordering_domain = 0\<rparr>"

record hbm_transaction =
  tx_id :: transaction_id
  tx_op :: hbm_op
  tx_address :: u64
  tx_size_bytes :: u64
  tx_arrival_time :: sim_time
  tx_client :: client_id
  tx_metadata :: request_metadata

datatype submit_status =
  Accepted | Backpressure | InvalidArgumentStatus | DuplicateId | ArrivalInFuture

record submit_result =
  sr_status :: submit_status
  sr_token :: transaction_id
  sr_message :: string

definition accepted :: "submit_result \<Rightarrow> bool" where
  "accepted r \<longleftrightarrow> sr_status r = Accepted"

datatype hbm_access_class = RowHit | RowClosed | RowConflict

section \<open>Commands\<close>

text \<open>\<^verbatim>\<open>HbmCommand\<close>; \<^verbatim>\<open>Pre\<close> is an alias of \<^verbatim>\<open>PreBank\<close> and
  \<^verbatim>\<open>Count\<close> the number of commands.\<close>

datatype hbm_command =
    Act | PreBank | PreAll | Read | Write | ReadAuto | WriteAuto
  | RefreshAllBank | RefreshPerBank | RfmAllBank | RfmPerBank | Count

abbreviation Pre :: hbm_command where
  "Pre \<equiv> PreBank"

datatype dram_command =
    Activate | PrechargeBank | PrechargeAll | Read | Write | ReadAuto | WriteAuto
  | RefreshAllBank | RefreshPerBank | RfmAllBank | RfmPerBank

text \<open>\<^verbatim>\<open>is_data_command\<close> and the two conversions of \<^verbatim>\<open>hbm_controller.cpp\<close>.\<close>

definition is_data_command :: "hbm_command \<Rightarrow> bool" where
  "is_data_command c \<longleftrightarrow> c = hbm_command.Read \<or> c = hbm_command.Write \<or>
     c = hbm_command.ReadAuto \<or> c = hbm_command.WriteAuto"

fun to_dram_command :: "hbm_command \<Rightarrow> dram_command result" where
  "to_dram_command Act = Inr Activate"
| "to_dram_command PreBank = Inr PrechargeBank"
| "to_dram_command PreAll = Inr PrechargeAll"
| "to_dram_command hbm_command.Read = Inr dram_command.Read"
| "to_dram_command hbm_command.Write = Inr dram_command.Write"
| "to_dram_command hbm_command.ReadAuto = Inr dram_command.ReadAuto"
| "to_dram_command hbm_command.WriteAuto = Inr dram_command.WriteAuto"
| "to_dram_command hbm_command.RefreshAllBank = Inr dram_command.RefreshAllBank"
| "to_dram_command hbm_command.RefreshPerBank = Inr dram_command.RefreshPerBank"
| "to_dram_command hbm_command.RfmAllBank = Inr dram_command.RfmAllBank"
| "to_dram_command hbm_command.RfmPerBank = Inr dram_command.RfmPerBank"
| "to_dram_command Count = Inl (LogicError ''unknown HBM command'')"

fun to_hbm_command :: "dram_command \<Rightarrow> hbm_command" where
  "to_hbm_command Activate = Act"
| "to_hbm_command PrechargeBank = PreBank"
| "to_hbm_command PrechargeAll = PreAll"
| "to_hbm_command dram_command.Read = hbm_command.Read"
| "to_hbm_command dram_command.Write = hbm_command.Write"
| "to_hbm_command dram_command.ReadAuto = hbm_command.ReadAuto"
| "to_hbm_command dram_command.WriteAuto = hbm_command.WriteAuto"
| "to_hbm_command dram_command.RefreshAllBank = hbm_command.RefreshAllBank"
| "to_hbm_command dram_command.RefreshPerBank = hbm_command.RefreshPerBank"
| "to_hbm_command dram_command.RfmAllBank = hbm_command.RfmAllBank"
| "to_hbm_command dram_command.RfmPerBank = hbm_command.RfmPerBank"

text \<open>Scheduling goes through the generic command and back without loss.\<close>

lemma to_dram_command_Inr [simp]: "(\<exists>d. to_dram_command c = Inr d) \<longleftrightarrow> c \<noteq> Count"
  by (cases c) auto

lemma to_hbm_to_dram: "to_dram_command c = Inr d \<Longrightarrow> to_hbm_command d = c"
  by (cases c) auto

lemma to_dram_to_hbm [simp]: "to_dram_command (to_hbm_command d) = Inr d"
  by (cases d) auto

lemma to_hbm_not_Count [simp]: "to_hbm_command d \<noteq> Count"
  by (cases d) auto

section \<open>Level-indexed addresses\<close>

datatype address_level =
  Stack | Channel | PseudoChannel | Sid | Rank | BankGroup | Bank | Row | Column

text \<open>\<^verbatim>\<open>Address\<close>: a vector of (level, index) components.\<close>

type_synonym address = "(address_level \<times> u32) list"

text \<open>\<^verbatim>\<open>Address::set\<close> overwrites the first component of the level or appends one.\<close>

fun address_set :: "address \<Rightarrow> address_level \<Rightarrow> u32 \<Rightarrow> address" where
  "address_set [] l i = [(l, i)]"
| "address_set ((l', i') # cs) l i = (if l' = l then (l', i) # cs else (l', i') # address_set cs l i)"

fun address_find :: "address \<Rightarrow> address_level \<Rightarrow> u32 option" where
  "address_find [] l = None"
| "address_find ((l', i') # cs) l = (if l' = l then Some i' else address_find cs l)"

definition address_at :: "address \<Rightarrow> address_level \<Rightarrow> u32 result" where
  "address_at a l = (case address_find a l of
     Some v \<Rightarrow> Inr v
   | None \<Rightarrow> Inl (OutOfRange ''address level is not present''))"

lemma address_find_set:
  "address_find (address_set a l i) l' = (if l' = l then Some i else address_find a l')"
  by (induction a) auto

lemma address_find_None: "address_find a l = None \<longleftrightarrow> l \<notin> fst ` set a"
  by (induction a) (auto split: if_splits)

lemma fst_address_set: "fst ` set (address_set a l i) = insert l (fst ` set a)"
  by (induction a l i rule: address_set.induct) (simp_all add: insert_commute)

lemma distinct_address_set: "distinct (map fst a) \<Longrightarrow> distinct (map fst (address_set a l i))"
  by (induction a l i rule: address_set.induct) (simp_all add: fst_address_set, blast)

section \<open>Bank state\<close>

record hbm_bank_state =
  open_row :: "u32 option"
  precharge_pending :: bool
  refresh_pending :: bool
  rfm_pending :: bool
  activation_count :: u32

definition initial_bank :: hbm_bank_state where
  "initial_bank = \<lparr>open_row = None, precharge_pending = False, refresh_pending = False,
     rfm_pending = False, activation_count = 0\<rparr>"

definition bank_open :: "hbm_bank_state \<Rightarrow> bool" where
  "bank_open b \<longleftrightarrow> open_row b \<noteq> None"

section \<open>Counters\<close>

record resource_stats =
  rs_busy_time :: sim_time
  rs_issued_commands :: u64

record queue_stats =
  max_read_depth :: u64
  max_write_depth :: u64
  q_rejected_transactions :: u64
  starvation_events :: u64
  queue_wait_time :: sim_time
  command_wait_time :: sim_time
  array_wait_time :: sim_time
  data_bus_wait_time :: sim_time
  refresh_stall_time :: sim_time
  data_service_time :: sim_time
  merged_accesses :: u64

record channel_stats =
  completed_bytes :: u64
  data_bus_busy_time :: sim_time
  refreshes :: u64
  per_bank_refreshes :: u64
  ch_rfm_events :: u64
  command_bus_stats :: resource_stats
  row_command_bus_stats :: resource_stats
  column_command_bus_stats :: resource_stats
  queue_stats :: queue_stats
  pseudo_channel_stats :: "resource_stats list"
  bank_stats :: "resource_stats list"

text \<open>Mutually exclusive stages of one access's latency.\<close>

record hbm_latency_breakdown =
  queue_wait :: sim_time
  command_phase :: sim_time
  data_ready :: sim_time
  data_bus_wait :: sim_time
  data_service :: sim_time

definition latency_total :: "hbm_latency_breakdown \<Rightarrow> sim_time" where
  "latency_total l = queue_wait l + command_phase l + data_ready l + data_bus_wait l +
     data_service l"

record hbm_stats =
  submitted_transactions :: u64
  rejected_transactions :: u64
  completed_transactions :: u64
  modeled_accesses :: u64
  physical_accesses :: u64
  physical_read_bytes :: u64
  physical_write_bytes :: u64
  issued_commands :: u64
  read_bytes :: u64
  write_bytes :: u64
  row_hits :: u64
  row_closed :: u64
  row_conflicts :: u64
  act_commands :: u64
  pre_commands :: u64
  read_commands :: u64
  write_commands :: u64
  rfm_events :: u64
  channels :: "channel_stats list"

definition initial_resource_stats :: resource_stats where
  "initial_resource_stats = \<lparr>rs_busy_time = 0, rs_issued_commands = 0\<rparr>"

definition initial_queue_stats :: queue_stats where
  "initial_queue_stats = \<lparr>max_read_depth = 0, max_write_depth = 0,
     q_rejected_transactions = 0, starvation_events = 0, queue_wait_time = 0,
     command_wait_time = 0, array_wait_time = 0, data_bus_wait_time = 0,
     refresh_stall_time = 0, data_service_time = 0, merged_accesses = 0\<rparr>"

definition initial_channel_stats :: channel_stats where
  "initial_channel_stats = \<lparr>completed_bytes = 0, data_bus_busy_time = 0, refreshes = 0,
     per_bank_refreshes = 0, ch_rfm_events = 0, command_bus_stats = initial_resource_stats,
     row_command_bus_stats = initial_resource_stats,
     column_command_bus_stats = initial_resource_stats, queue_stats = initial_queue_stats,
     pseudo_channel_stats = [], bank_stats = []\<rparr>"

definition initial_latency :: hbm_latency_breakdown where
  "initial_latency = \<lparr>queue_wait = 0, command_phase = 0, data_ready = 0, data_bus_wait = 0,
     data_service = 0\<rparr>"

definition initial_stats :: hbm_stats where
  "initial_stats = \<lparr>submitted_transactions = 0, rejected_transactions = 0,
     completed_transactions = 0, modeled_accesses = 0, physical_accesses = 0,
     physical_read_bytes = 0, physical_write_bytes = 0, issued_commands = 0, read_bytes = 0,
     write_bytes = 0, row_hits = 0, row_closed = 0, row_conflicts = 0, act_commands = 0,
     pre_commands = 0, read_commands = 0, write_commands = 0, rfm_events = 0, channels = []\<rparr>"

record hbm_completion =
  co_id :: transaction_id
  co_op :: hbm_op
  co_address :: u64
  co_size_bytes :: u64
  co_client :: client_id
  co_channel :: u32
  co_access_class :: hbm_access_class
  co_arrival_time :: sim_time
  co_completion_time :: sim_time
  co_latency :: sim_time
  co_latency_breakdown :: hbm_latency_breakdown
  co_metadata :: request_metadata

end
