(* ===== verification/Timing_Spec.thy ===== *)
theory Timing_Spec
  imports Prelude Hbm_Types
begin

text \<open>
  \<^verbatim>\<open>include/hbmsim/timing/timing_spec.h\<close> and \<^verbatim>\<open>src/timing/timing_spec.cpp\<close>:
  the timing parameters in picoseconds and the declarative table of constraints derived from
  them, in the compact and in the extended vocabulary.
\<close>

datatype timing_scope = Bank | BankGroup | Sid | PseudoChannel | Channel

record timing_constraint =
  preceding :: hbm_command
  following :: hbm_command
  tc_scope :: timing_scope
  tc_distance :: u32
  tc_delay :: sim_time

record hbm_timing_spec =
  t_command :: sim_time
  t_rcd :: sim_time
  t_rp :: sim_time
  t_cl :: sim_time
  t_ras :: sim_time
  t_rc :: sim_time
  t_ccd :: sim_time
  t_rrd :: sim_time
  t_faw :: sim_time
  t_wtr :: sim_time
  t_rtw :: sim_time
  t_rfc :: sim_time
  t_rfcpb :: sim_time
  t_rfmab :: sim_time
  t_rfmpb :: sim_time
  use_extended_hbm_timing :: bool
  t_rcd_rd :: sim_time
  t_rcd_wr :: sim_time
  t_ccd_s :: sim_time
  t_ccd_l :: sim_time
  t_ccd_r :: sim_time
  t_rrd_s :: sim_time
  t_rrd_l :: sim_time
  t_wtr_s :: sim_time
  t_wtr_l :: sim_time
  t_wr :: sim_time
  t_rtp :: sim_time
  t_cwl :: sim_time
  t_bl :: sim_time
  t_ppd :: sim_time
  t_rrefd :: sim_time
  t_refi :: sim_time

text \<open>The default member initialisers of the struct.\<close>

definition default_timing_spec :: hbm_timing_spec where
  "default_timing_spec = \<lparr>t_command = 0, t_rcd = 14000, t_rp = 14000, t_cl = 14000,
     t_ras = 33000, t_rc = 47000, t_ccd = 4000, t_rrd = 4000, t_faw = 16000, t_wtr = 7500,
     t_rtw = 7500, t_rfc = 260000, t_rfcpb = 160000, t_rfmab = 260000, t_rfmpb = 160000,
     use_extended_hbm_timing = False, t_rcd_rd = 0, t_rcd_wr = 0, t_ccd_s = 0, t_ccd_l = 0,
     t_ccd_r = 0, t_rrd_s = 0, t_rrd_l = 0, t_wtr_s = 0, t_wtr_l = 0, t_wr = 0, t_rtp = 0,
     t_cwl = 0, t_bl = 0, t_ppd = 0, t_rrefd = 0, t_refi = 0\<rparr>"

definition tc :: "hbm_command \<Rightarrow> hbm_command \<Rightarrow> timing_scope \<Rightarrow> u32 \<Rightarrow> sim_time \<Rightarrow> timing_constraint"
where
  "tc p f s n d = \<lparr>preceding = p, following = f, tc_scope = s, tc_distance = n, tc_delay = d\<rparr>"

definition extended_constraints :: "hbm_timing_spec \<Rightarrow> timing_constraint list" where
  "extended_constraints s = [
     tc Act hbm_command.Read Bank 1 (t_rcd_rd s),
     tc Act hbm_command.Write Bank 1 (t_rcd_wr s),
     tc Pre Act Bank 1 (t_rp s),
     tc Act Pre Bank 1 (t_ras s),
     tc Act Act Bank 1 (t_rc s),
     tc hbm_command.Read Pre Bank 1 (t_rtp s),
     tc hbm_command.Write Pre Bank 1 (t_cwl s + t_bl s + t_wr s),
     tc hbm_command.Read hbm_command.Read PseudoChannel 1 (t_ccd_s s),
     tc hbm_command.Write hbm_command.Write PseudoChannel 1 (t_ccd_s s),
     tc hbm_command.Read hbm_command.Write PseudoChannel 1 (t_rtw s),
     tc hbm_command.Write hbm_command.Read PseudoChannel 1 (t_cwl s + t_bl s + t_wtr_s s),
     tc hbm_command.Read hbm_command.Read BankGroup 1 (t_ccd_l s),
     tc hbm_command.Write hbm_command.Write BankGroup 1 (t_ccd_l s),
     tc hbm_command.Write hbm_command.Read BankGroup 1 (t_cwl s + t_bl s + t_wtr_l s),
     tc hbm_command.Read hbm_command.Read Sid 1 (t_ccd_s s),
     tc hbm_command.Write hbm_command.Write Sid 1 (t_ccd_s s),
     tc Act Act BankGroup 1 (t_rrd_l s),
     tc Act Act PseudoChannel 1 (t_rrd_s s),
     tc Act Act PseudoChannel 4 (t_faw s),
     tc Pre Pre PseudoChannel 1 (t_ppd s),
     tc hbm_command.RefreshAllBank Act Channel 1 (t_rfc s),
     tc hbm_command.RefreshPerBank Act Bank 1 (t_rfcpb s),
     tc hbm_command.RefreshPerBank Act PseudoChannel 1 (t_rrefd s),
     tc hbm_command.RefreshPerBank hbm_command.RefreshPerBank PseudoChannel 1 (t_rrefd s),
     tc hbm_command.RfmAllBank Act Channel 1 (t_rfmab s),
     tc hbm_command.RfmPerBank Act Bank 1 (t_rfmpb s),
     tc Act hbm_command.RefreshPerBank Bank 1 (t_rc s),
     tc Pre hbm_command.RefreshPerBank Bank 1 (t_rp s),
     tc Act hbm_command.RefreshAllBank PseudoChannel 1 (t_rc s),
     tc Pre hbm_command.RefreshAllBank PseudoChannel 1 (t_rp s),
     tc hbm_command.RefreshPerBank hbm_command.RefreshAllBank PseudoChannel 1 (t_rfcpb s),
     tc Act hbm_command.RfmPerBank Bank 1 (t_rc s)]"

definition compact_constraints :: "hbm_timing_spec \<Rightarrow> timing_constraint list" where
  "compact_constraints s = [
     tc Act hbm_command.Read Bank 1 (t_rcd s),
     tc Act hbm_command.Write Bank 1 (t_rcd s),
     tc Pre Act Bank 1 (t_rp s),
     tc Act Pre Bank 1 (t_ras s),
     tc Act Act Bank 1 (t_rc s),
     tc hbm_command.Read hbm_command.Read PseudoChannel 1 (t_ccd s),
     tc hbm_command.Write hbm_command.Write PseudoChannel 1 (t_ccd s),
     tc hbm_command.Read hbm_command.Write PseudoChannel 1 (t_rtw s),
     tc hbm_command.Write hbm_command.Read PseudoChannel 1 (t_wtr s),
     tc Act Act BankGroup 1 (t_rrd s),
     tc Act Act PseudoChannel 1 (t_rrd s),
     tc Act Act PseudoChannel 4 (t_faw s),
     tc hbm_command.RefreshAllBank Act Channel 1 (t_rfc s),
     tc hbm_command.RefreshPerBank Act Bank 1 (t_rfcpb s),
     tc hbm_command.RfmAllBank Act Channel 1 (t_rfmab s),
     tc hbm_command.RfmPerBank Act Bank 1 (t_rfmpb s),
     tc Act hbm_command.RefreshPerBank Bank 1 (t_rc s),
     tc Act hbm_command.RfmPerBank Bank 1 (t_rc s)]"

definition constraints :: "hbm_timing_spec \<Rightarrow> timing_constraint list" where
  "constraints s = (if use_extended_hbm_timing s then extended_constraints s
                    else compact_constraints s)"

definition timing_hbm4_8000 :: hbm_timing_spec where
  "timing_hbm4_8000 = (let s = default_timing_spec\<lparr>
       t_command := 500, t_rcd := 39 * 500, t_rp := 33 * 500, t_cl := 20 * 500,
       t_ras := 57 * 500, t_rc := 57 * 500 + 33 * 500, t_ccd := 2 * 500, t_rrd := 5 * 500,
       t_faw := 30 * 500, t_wtr := (10 + 2 + 9) * 500, t_rtw := 15 * 500, t_rfc := 450000,
       t_rfcpb := 280000\<rparr>
     in s\<lparr>t_rfmab := t_rfc s, t_rfmpb := t_rfcpb s\<rparr>)"

lemma constraint_sel [simp]:
  "preceding (tc p f s n d) = p" "following (tc p f s n d) = f" "tc_scope (tc p f s n d) = s"
  "tc_distance (tc p f s n d) = n" "tc_delay (tc p f s n d) = d"
  by (simp_all add: tc_def)

text \<open>
  Every constraint looks one or four commands back, within the depth of the recorded history,
  and names no auto-precharge variant and no all-bank precharge.
\<close>

definition regular_constraint :: "timing_constraint \<Rightarrow> bool" where
  "regular_constraint c \<longleftrightarrow> (tc_distance c = 1 \<or> tc_distance c = 4) \<and>
     following c \<notin> {PreAll, hbm_command.ReadAuto, hbm_command.WriteAuto, Count} \<and>
     preceding c \<notin> {PreAll, hbm_command.ReadAuto, hbm_command.WriteAuto, Count}"

lemma regular_tables:
  "list_all regular_constraint (extended_constraints s)"
  "list_all regular_constraint (compact_constraints s)"
  by (simp_all add: extended_constraints_def compact_constraints_def regular_constraint_def)

lemma constraints_regular: "c \<in> set (constraints s) \<Longrightarrow> regular_constraint c"
  using regular_tables [of s] by (auto simp: constraints_def list_all_iff split: if_splits)

lemma regular_distance: "regular_constraint c \<Longrightarrow> unat (tc_distance c) = 1 \<or> unat (tc_distance c) = 4"
  by (auto simp: regular_constraint_def)

lemma regular_distance_pos: "regular_constraint c \<Longrightarrow> 0 < unat (tc_distance c)"
  using regular_distance [of c] by auto

end
