(* ===== verification/Address_Mapper.thy ===== *)
theory Address_Mapper
  imports Prelude Hbm_Types
begin

text \<open>
  \<^verbatim>\<open>include/hbmsim/topology.h\<close>, \<^verbatim>\<open>include/hbmsim/mapping/address_mapper.h\<close>
  and \<^verbatim>\<open>src/mapping/address_mapper.cpp\<close>: the topology and the mapping of byte
  addresses to stack, channel, pseudo-channel, bank group, bank, row and column, in its two
  layouts. The lemmas show that the fields stay inside the topology, that the flat indices
  are the mixed-radix numbers of the fields, and that the mapping can be undone.
\<close>

section \<open>Topology\<close>

record hbm_topology =
  stacks :: u32
  channels_per_stack :: u32
  pseudo_channels_per_channel :: u32
  bank_groups_per_pseudo_channel :: u32
  banks_per_bank_group :: u32

definition default_topology :: hbm_topology where
  "default_topology = \<lparr>stacks = 1, channels_per_stack = 1, pseudo_channels_per_channel = 2,
     bank_groups_per_pseudo_channel = 1, banks_per_bank_group = 1\<rparr>"

definition topology_validate :: "hbm_topology \<Rightarrow> unit result" where
  "topology_validate t = throw_if (stacks t = 0 \<or> channels_per_stack t = 0 \<or>
       pseudo_channels_per_channel t = 0 \<or> bank_groups_per_pseudo_channel t = 0 \<or>
       banks_per_bank_group t = 0)
     (InvalidArgument ''every HBM topology dimension must be non-zero'')"

definition channel_count :: "hbm_topology \<Rightarrow> u32" where
  "channel_count t = stacks t * channels_per_stack t"

section \<open>Addresses\<close>

datatype address_mapping = Linear | Hbm2PseudoChannelBrc

record hbm_address =
  a_stack :: u32
  a_channel :: u32
  a_pseudo_channel :: u32
  a_bank_group :: u32
  a_bank :: u32
  a_row :: u32
  a_column :: u32
  a_flat_channel :: u32
  a_flat_sid :: u32
  a_flat_pseudo_channel :: u32
  a_flat_bank_group :: u32
  a_flat_bank :: u32

definition zero_address :: hbm_address where
  "zero_address = \<lparr>a_stack = 0, a_channel = 0, a_pseudo_channel = 0, a_bank_group = 0,
     a_bank = 0, a_row = 0, a_column = 0, a_flat_channel = 0, a_flat_sid = 0,
     a_flat_pseudo_channel = 0, a_flat_bank_group = 0, a_flat_bank = 0\<rparr>"

definition hierarchical :: "hbm_address \<Rightarrow> address" where
  "hierarchical r =
     [(Stack, a_stack r), (Channel, a_channel r), (PseudoChannel, a_pseudo_channel r),
      (Sid, a_stack r), (BankGroup, a_bank_group r), (Bank, a_bank r), (Row, a_row r),
      (Column, a_column r)]"

section \<open>The mapper\<close>

record address_mapper =
  m_topology :: hbm_topology
  m_interleave_bytes :: u64
  m_columns_per_row :: u32
  m_rows_per_bank :: u32
  m_mapping :: address_mapping

definition make_address_mapper ::
    "hbm_topology \<Rightarrow> u64 \<Rightarrow> u32 \<Rightarrow> u32 \<Rightarrow> address_mapping \<Rightarrow> address_mapper result" where
  "make_address_mapper t interleave columns rows mapping =
     ebind (topology_validate t) (\<lambda>_.
     ebind (throw_if (interleave = 0 \<or> columns = 0 \<or> rows = 0)
       (InvalidArgument ''HBM address mapping dimensions must be non-zero'')) (\<lambda>_.
     Inr \<lparr>m_topology = t, m_interleave_bytes = interleave, m_columns_per_row = columns,
       m_rows_per_bank = rows, m_mapping = mapping\<rparr>))"

text \<open>The first half of \<^verbatim>\<open>map\<close>: the component fields, by bit fields or by division.\<close>

definition map_hbm2_brc :: "u64 \<Rightarrow> hbm_address" where
  "map_hbm2_brc address = zero_address\<lparr>
     a_pseudo_channel := ucast (drop_bit 5 address AND 0x1),
     a_bank_group := ucast (drop_bit 6 address AND 0x3),
     a_bank := ucast (drop_bit 8 address AND 0x3),
     a_column := ucast (drop_bit 11 address AND 0x1f),
     a_row := ucast (drop_bit 16 address AND 0x3fff)\<rparr>"

definition map_linear :: "address_mapper \<Rightarrow> u64 \<Rightarrow> hbm_address" where
  "map_linear m address =
     (let t = m_topology m;
          line = address div m_interleave_bytes m;
          global_channel = ucast (line mod ucast (channel_count t)) :: u32;
          line1 = line div ucast (channel_count t);
          line2 = line1 div ucast (m_columns_per_row m);
          line3 = line2 div ucast (m_rows_per_bank m);
          line4 = line3 div ucast (banks_per_bank_group t);
          line5 = line4 div ucast (bank_groups_per_pseudo_channel t)
      in zero_address\<lparr>
        a_stack := global_channel div channels_per_stack t,
        a_channel := global_channel mod channels_per_stack t,
        a_flat_channel := global_channel,
        a_column := ucast (line1 mod ucast (m_columns_per_row m)),
        a_row := ucast (line2 mod ucast (m_rows_per_bank m)),
        a_bank := ucast (line3 mod ucast (banks_per_bank_group t)),
        a_bank_group := ucast (line4 mod ucast (bank_groups_per_pseudo_channel t)),
        a_pseudo_channel := ucast (line5 mod ucast (pseudo_channels_per_channel t))\<rparr>)"

definition fields_outside :: "address_mapper \<Rightarrow> hbm_address \<Rightarrow> bool" where
  "fields_outside m r \<longleftrightarrow>
     a_pseudo_channel r \<ge> pseudo_channels_per_channel (m_topology m) \<or>
     a_bank_group r \<ge> bank_groups_per_pseudo_channel (m_topology m) \<or>
     a_bank r \<ge> banks_per_bank_group (m_topology m) \<or> a_column r \<ge> m_columns_per_row m \<or>
     a_row r \<ge> m_rows_per_bank m"

text \<open>The second half: the flat indices of the decoded fields.\<close>

definition flatten_address :: "hbm_topology \<Rightarrow> hbm_address \<Rightarrow> hbm_address" where
  "flatten_address t r =
     (let fpc = a_flat_channel r * pseudo_channels_per_channel t + a_pseudo_channel r;
          fbg = fpc * bank_groups_per_pseudo_channel t + a_bank_group r
      in r\<lparr>a_flat_pseudo_channel := fpc, a_flat_sid := a_stack r, a_flat_bank_group := fbg,
           a_flat_bank := fbg * banks_per_bank_group t + a_bank r\<rparr>)"

text \<open>
  \<^verbatim>\<open>HbmAddressMapper::map\<close>. The divisors of the linear layout are non-zero in a
  constructed mapper but for the channel count, a 32-bit product that can wrap to zero.
\<close>

definition map_address :: "address_mapper \<Rightarrow> u64 \<Rightarrow> hbm_address result" where
  "map_address m address =
     (if m_mapping m = Linear \<and> channel_count (m_topology m) = 0
      then Inl (UndefinedBehaviour ''division by zero'')
      else let r = (case m_mapping m of
                      Hbm2PseudoChannelBrc \<Rightarrow> map_hbm2_brc address
                    | Linear \<Rightarrow> map_linear m address)
        in if fields_outside m r
           then Inl (OutOfRange ''address mapping field is outside topology'')
           else Inr (flatten_address (m_topology m) r))"

definition bank_count :: "address_mapper \<Rightarrow> u32" where
  "bank_count m = channel_count (m_topology m) * pseudo_channels_per_channel (m_topology m) *
     bank_groups_per_pseudo_channel (m_topology m) * banks_per_bank_group (m_topology m)"

definition next_mapping_boundary :: "address_mapper \<Rightarrow> u64 \<Rightarrow> u64" where
  "next_mapping_boundary m address =
     m_interleave_bytes m - address mod m_interleave_bytes m"

definition bank_address :: "address_mapper \<Rightarrow> u32 \<Rightarrow> hbm_address result" where
  "bank_address m flat_bank =
     (if flat_bank \<ge> bank_count m then Inl (OutOfRange ''flat bank is outside topology'')
      else let t = m_topology m;
             fbg = flat_bank div banks_per_bank_group t;
             fpc = fbg div bank_groups_per_pseudo_channel t;
             fch = fpc div pseudo_channels_per_channel t
        in Inr (zero_address\<lparr>
          a_flat_bank := flat_bank,
          a_bank := flat_bank mod banks_per_bank_group t,
          a_flat_bank_group := fbg,
          a_bank_group := fbg mod bank_groups_per_pseudo_channel t,
          a_flat_pseudo_channel := fpc,
          a_pseudo_channel := fpc mod pseudo_channels_per_channel t,
          a_flat_channel := fch,
          a_stack := fch div channels_per_stack t,
          a_flat_sid := fch div channels_per_stack t,
          a_channel := fch mod channels_per_stack t\<rparr>))"

section \<open>Mixed-radix arithmetic\<close>

lemma radix_less: "p < m \<Longrightarrow> q < n \<Longrightarrow> p * n + q < m * (n :: nat)"
proof -
  assume "p < m" and "q < n"
  then have "p * n + q < Suc p * n" by simp
  also have "\<dots> \<le> m * n" using \<open>p < m\<close> by (intro mult_right_mono) auto
  finally show ?thesis .
qed

lemma radix_div_mod: "q < n \<Longrightarrow> (p * n + q) div n = (p :: nat)" "q < n \<Longrightarrow> (p * n + q) mod n = q"
  by (simp_all add: add.commute)

lemma radix_unique:
  assumes "p * n + q = p' * n + q'" and "q < n" and "q' < (n :: nat)"
  shows "p = p'" and "q = q'"
  using assms by (metis radix_div_mod(1), metis radix_div_mod(2))

lemma div_less_of_less_mult: "x < m * n \<Longrightarrow> x div n < (m :: nat)"
  by (simp add: less_mult_imp_div_less)

lemma u32_radix:
  assumes "unat p * unat n + unat q < 2 ^ 32"
  shows "unat (p * n + q :: u32) = unat p * unat n + unat q"
proof -
  have "unat p * unat n < 2 ^ 32" using assms by simp
  then have "unat (p * n) = unat p * unat n" by (rule unat_mult_u32_small)
  with assms show ?thesis using unat_add_u32_small [of "p * n" q] by simp
qed

lemma narrow_mod: "n \<noteq> 0 \<Longrightarrow> unat (ucast ((x :: u64) mod ucast (n :: u32)) :: u32) = unat x mod unat n"
proof -
  assume "n \<noteq> 0"
  then have "unat x mod unat n < 2 ^ 32"
    using unat_u32_lt [of n] by (meson mod_less_divisor order_less_trans unat_gt_0)
  then show ?thesis by (simp add: unat_u64_to_u32 unat_mod unat_u32_to_u64)
qed

lemma wide_div: "unat ((x :: u64) div ucast (n :: u32)) = unat x div unat n"
  by (simp add: unat_div unat_u32_to_u64)

section \<open>Well-formed topologies, mappers and addresses\<close>

definition topology_ok :: "hbm_topology \<Rightarrow> bool" where
  "topology_ok t \<longleftrightarrow> topology_validate t = Inr () \<and>
     unat (stacks t) * unat (channels_per_stack t) * unat (pseudo_channels_per_channel t) *
       unat (bank_groups_per_pseudo_channel t) * unat (banks_per_bank_group t) < 2 ^ 32"

definition mapper_ok :: "address_mapper \<Rightarrow> bool" where
  "mapper_ok m \<longleftrightarrow> topology_ok (m_topology m) \<and> m_interleave_bytes m \<noteq> 0 \<and>
     m_columns_per_row m \<noteq> 0 \<and> m_rows_per_bank m \<noteq> 0"

text \<open>The fields inside the topology, each flat index the mixed-radix number of the fields above it.\<close>

definition wf_address :: "hbm_topology \<Rightarrow> hbm_address \<Rightarrow> bool" where
  "wf_address t r \<longleftrightarrow>
     unat (a_stack r) < unat (stacks t) \<and>
     unat (a_channel r) < unat (channels_per_stack t) \<and>
     unat (a_pseudo_channel r) < unat (pseudo_channels_per_channel t) \<and>
     unat (a_bank_group r) < unat (bank_groups_per_pseudo_channel t) \<and>
     unat (a_bank r) < unat (banks_per_bank_group t) \<and>
     unat (a_flat_channel r) = unat (a_stack r) * unat (channels_per_stack t) + unat (a_channel r) \<and>
     unat (a_flat_pseudo_channel r) =
       unat (a_flat_channel r) * unat (pseudo_channels_per_channel t) + unat (a_pseudo_channel r) \<and>
     unat (a_flat_bank_group r) =
       unat (a_flat_pseudo_channel r) * unat (bank_groups_per_pseudo_channel t) +
         unat (a_bank_group r) \<and>
     unat (a_flat_bank r) =
       unat (a_flat_bank_group r) * unat (banks_per_bank_group t) + unat (a_bank r) \<and>
     a_flat_sid r = a_stack r"

lemma topology_nonzero:
  assumes "topology_ok t"
  shows "0 < unat (stacks t)" "0 < unat (channels_per_stack t)"
    "0 < unat (pseudo_channels_per_channel t)" "0 < unat (bank_groups_per_pseudo_channel t)"
    "0 < unat (banks_per_bank_group t)"
  using assms by (simp_all add: topology_ok_def topology_validate_def unat_gt_0)

text \<open>Each partial product of the dimensions fits in 32 bits.\<close>

lemma topology_products:
  assumes "topology_ok t"
  shows "unat (stacks t) * unat (channels_per_stack t) < 2 ^ 32"
    "unat (stacks t) * unat (channels_per_stack t) * unat (pseudo_channels_per_channel t) < 2 ^ 32"
    "unat (stacks t) * unat (channels_per_stack t) * unat (pseudo_channels_per_channel t) *
       unat (bank_groups_per_pseudo_channel t) < 2 ^ 32"
    "unat (stacks t) * unat (channels_per_stack t) * unat (pseudo_channels_per_channel t) *
       unat (bank_groups_per_pseudo_channel t) * unat (banks_per_bank_group t) < 2 ^ 32"
proof -
  have drop_factor: "a < 2 ^ 32" if "a * b < (2 :: nat) ^ 32" "0 < b" for a b :: nat
  proof -
    have "a * 1 \<le> a * b" using that(2) by (intro mult_le_mono2) simp
    then have "a \<le> a * b" by (simp only: mult_1_right)
    then show ?thesis using that(1) by (rule le_less_trans)
  qed
  note nz = topology_nonzero [OF assms]
  show p5: "unat (stacks t) * unat (channels_per_stack t) * unat (pseudo_channels_per_channel t) *
       unat (bank_groups_per_pseudo_channel t) * unat (banks_per_bank_group t) < 2 ^ 32"
    using assms by (simp add: topology_ok_def)
  show p4: "unat (stacks t) * unat (channels_per_stack t) * unat (pseudo_channels_per_channel t) *
       unat (bank_groups_per_pseudo_channel t) < 2 ^ 32"
    by (rule drop_factor [OF p5 nz(5)])
  show p3: "unat (stacks t) * unat (channels_per_stack t) *
      unat (pseudo_channels_per_channel t) < 2 ^ 32"
    by (rule drop_factor [OF p4 nz(4)])
  show "unat (stacks t) * unat (channels_per_stack t) < 2 ^ 32"
    by (rule drop_factor [OF p3 nz(3)])
qed

lemma unat_channel_count:
  "topology_ok t \<Longrightarrow> unat (channel_count t) = unat (stacks t) * unat (channels_per_stack t)"
  unfolding channel_count_def by (rule unat_mult_u32_small) (rule topology_products)

lemma unat_bank_count:
  assumes "topology_ok (m_topology m)"
  shows "unat (bank_count m) = unat (stacks (m_topology m)) *
    unat (channels_per_stack (m_topology m)) *
    unat (pseudo_channels_per_channel (m_topology m)) *
    unat (bank_groups_per_pseudo_channel (m_topology m)) *
    unat (banks_per_bank_group (m_topology m))"
  unfolding bank_count_def
  using topology_products [OF assms] unat_channel_count [OF assms]
  by (simp add: unat_mult_u32)

text \<open>Bounds of the flat indices of a well-formed address.\<close>

lemma wf_address_bounds:
  assumes "wf_address t r"
  shows "unat (a_flat_channel r) < unat (stacks t) * unat (channels_per_stack t)"
    "unat (a_flat_pseudo_channel r) < unat (stacks t) * unat (channels_per_stack t) *
       unat (pseudo_channels_per_channel t)"
    "unat (a_flat_bank_group r) < unat (stacks t) * unat (channels_per_stack t) *
       unat (pseudo_channels_per_channel t) * unat (bank_groups_per_pseudo_channel t)"
    "unat (a_flat_bank r) < unat (stacks t) * unat (channels_per_stack t) *
       unat (pseudo_channels_per_channel t) * unat (bank_groups_per_pseudo_channel t) *
       unat (banks_per_bank_group t)"
  using assms by (simp_all add: wf_address_def radix_less)

text \<open>A well-formed address is determined by its flat bank, its row and its column.\<close>

lemma wf_address_unique:
  assumes "wf_address t r" and "wf_address t s" and "a_flat_bank r = a_flat_bank s"
  shows "r\<lparr>a_row := x, a_column := y\<rparr> = s\<lparr>a_row := x, a_column := y\<rparr>"
proof -
  note wf = assms(1,2) [unfolded wf_address_def]
  have fb: "unat (a_flat_bank r) = unat (a_flat_bank s)" using assms(3) by simp
  have b: "unat (a_flat_bank_group r) = unat (a_flat_bank_group s)" "unat (a_bank r) = unat (a_bank s)"
    using fb wf by (metis radix_unique(1), metis radix_unique(2))
  have g: "unat (a_flat_pseudo_channel r) = unat (a_flat_pseudo_channel s)"
    "unat (a_bank_group r) = unat (a_bank_group s)"
    using b(1) wf by (metis radix_unique(1), metis radix_unique(2))
  have p: "unat (a_flat_channel r) = unat (a_flat_channel s)"
    "unat (a_pseudo_channel r) = unat (a_pseudo_channel s)"
    using g(1) wf by (metis radix_unique(1), metis radix_unique(2))
  have c: "unat (a_stack r) = unat (a_stack s)" "unat (a_channel r) = unat (a_channel s)"
    using p(1) wf by (metis radix_unique(1), metis radix_unique(2))
  have sid: "a_flat_sid r = a_stack r" "a_flat_sid s = a_stack s" using wf by simp_all
  show ?thesis
    using fb b g p c sid by (intro hbm_address.equality) (simp_all add: word_unat_eq_iff)
qed

section \<open>The mapping stays inside the topology\<close>

lemma flatten_wf:
  assumes t: "topology_ok t"
    and "unat (a_stack r) < unat (stacks t)" "unat (a_channel r) < unat (channels_per_stack t)"
    and "unat (a_flat_channel r) = unat (a_stack r) * unat (channels_per_stack t) + unat (a_channel r)"
    and "unat (a_pseudo_channel r) < unat (pseudo_channels_per_channel t)"
    and "unat (a_bank_group r) < unat (bank_groups_per_pseudo_channel t)"
    and "unat (a_bank r) < unat (banks_per_bank_group t)"
  shows "wf_address t (flatten_address t r)"
proof -
  note prods = topology_products [OF t]
  let ?fpc = "a_flat_channel r * pseudo_channels_per_channel t + a_pseudo_channel r"
  let ?fbg = "?fpc * bank_groups_per_pseudo_channel t + a_bank_group r"
  have c: "unat (a_flat_channel r) < unat (stacks t) * unat (channels_per_stack t)"
    using assms by (simp add: radix_less)
  have p_lt: "unat (a_flat_channel r) * unat (pseudo_channels_per_channel t) +
      unat (a_pseudo_channel r) < unat (stacks t) * unat (channels_per_stack t) *
      unat (pseudo_channels_per_channel t)"
    using c assms by (intro radix_less)
  then have p: "unat ?fpc = unat (a_flat_channel r) * unat (pseudo_channels_per_channel t) +
      unat (a_pseudo_channel r)"
    using prods(2) by (intro u32_radix) (rule order_less_trans)
  have g_lt: "unat ?fpc * unat (bank_groups_per_pseudo_channel t) + unat (a_bank_group r) <
      unat (stacks t) * unat (channels_per_stack t) * unat (pseudo_channels_per_channel t) *
      unat (bank_groups_per_pseudo_channel t)"
    unfolding p by (rule radix_less [OF p_lt assms(6)])
  then have g: "unat ?fbg = unat ?fpc * unat (bank_groups_per_pseudo_channel t) +
      unat (a_bank_group r)"
    using prods(3) by (intro u32_radix) (rule order_less_trans)
  have "unat ?fbg * unat (banks_per_bank_group t) + unat (a_bank r) <
      unat (stacks t) * unat (channels_per_stack t) * unat (pseudo_channels_per_channel t) *
      unat (bank_groups_per_pseudo_channel t) * unat (banks_per_bank_group t)"
    unfolding g by (rule radix_less [OF g_lt assms(7)])
  then have "unat (?fbg * banks_per_bank_group t + a_bank r) =
      unat ?fbg * unat (banks_per_bank_group t) + unat (a_bank r)"
    using prods(4) by (intro u32_radix) (rule order_less_trans)
  with p g assms show ?thesis
    by (simp add: wf_address_def flatten_address_def Let_def)
qed

lemma map_linear_fields:
  assumes "mapper_ok m"
  defines "t \<equiv> m_topology m" and "r \<equiv> \<lambda>a. map_linear m a"
  shows "unat (a_flat_channel (r a)) =
      unat a div unat (m_interleave_bytes m) mod unat (channel_count t)"
    and "unat (a_stack (r a)) = unat (a_flat_channel (r a)) div unat (channels_per_stack t)"
    and "unat (a_channel (r a)) = unat (a_flat_channel (r a)) mod unat (channels_per_stack t)"
    and "unat (a_column (r a)) = unat a div unat (m_interleave_bytes m) div
      unat (channel_count t) mod unat (m_columns_per_row m)"
    and "unat (a_row (r a)) = unat a div unat (m_interleave_bytes m) div
      unat (channel_count t) div unat (m_columns_per_row m) mod unat (m_rows_per_bank m)"
    and "unat (a_bank (r a)) = unat a div unat (m_interleave_bytes m) div
      unat (channel_count t) div unat (m_columns_per_row m) div unat (m_rows_per_bank m) mod
      unat (banks_per_bank_group t)"
    and "unat (a_bank_group (r a)) = unat a div unat (m_interleave_bytes m) div
      unat (channel_count t) div unat (m_columns_per_row m) div unat (m_rows_per_bank m) div
      unat (banks_per_bank_group t) mod unat (bank_groups_per_pseudo_channel t)"
    and "unat (a_pseudo_channel (r a)) = unat a div unat (m_interleave_bytes m) div
      unat (channel_count t) div unat (m_columns_per_row m) div unat (m_rows_per_bank m) div
      unat (banks_per_bank_group t) div unat (bank_groups_per_pseudo_channel t) mod
      unat (pseudo_channels_per_channel t)"
proof -
  have t: "topology_ok t" using assms by (simp add: mapper_ok_def t_def)
  note pos = topology_nonzero [OF t]
  have "0 < unat (channel_count t)" using unat_channel_count [OF t] pos by simp
  then have cc: "channel_count t \<noteq> 0" by (simp add: unat_gt_0)
  note nz = cc pos [unfolded unat_gt_0]
  show "unat (a_flat_channel (r a)) =
      unat a div unat (m_interleave_bytes m) mod unat (channel_count t)"
    using nz unfolding r_def t_def
    by (simp add: map_linear_def Let_def zero_address_def narrow_mod unat_div)
  show "unat (a_stack (r a)) = unat (a_flat_channel (r a)) div unat (channels_per_stack t)"
    and "unat (a_channel (r a)) = unat (a_flat_channel (r a)) mod unat (channels_per_stack t)"
    unfolding r_def t_def
    by (simp_all add: map_linear_def Let_def zero_address_def unat_div unat_mod)
  show "unat (a_column (r a)) = unat a div unat (m_interleave_bytes m) div
      unat (channel_count t) mod unat (m_columns_per_row m)"
    and "unat (a_row (r a)) = unat a div unat (m_interleave_bytes m) div
      unat (channel_count t) div unat (m_columns_per_row m) mod unat (m_rows_per_bank m)"
    using assms unfolding r_def t_def
    by (simp_all add: map_linear_def Let_def zero_address_def narrow_mod unat_div wide_div
      unat_u32_to_u64 mapper_ok_def)
  show "unat (a_bank (r a)) = unat a div unat (m_interleave_bytes m) div
      unat (channel_count t) div unat (m_columns_per_row m) div unat (m_rows_per_bank m) mod
      unat (banks_per_bank_group t)"
    and "unat (a_bank_group (r a)) = unat a div unat (m_interleave_bytes m) div
      unat (channel_count t) div unat (m_columns_per_row m) div unat (m_rows_per_bank m) div
      unat (banks_per_bank_group t) mod unat (bank_groups_per_pseudo_channel t)"
    and "unat (a_pseudo_channel (r a)) = unat a div unat (m_interleave_bytes m) div
      unat (channel_count t) div unat (m_columns_per_row m) div unat (m_rows_per_bank m) div
      unat (banks_per_bank_group t) div unat (bank_groups_per_pseudo_channel t) mod
      unat (pseudo_channels_per_channel t)"
    using nz unfolding r_def t_def
    by (simp_all add: map_linear_def Let_def zero_address_def narrow_mod unat_div
      unat_u32_to_u64)
qed

lemma map_hbm2_zero [simp]: "a_stack (map_hbm2_brc a) = 0" "a_channel (map_hbm2_brc a) = 0"
  "a_flat_channel (map_hbm2_brc a) = 0"
  by (simp_all add: map_hbm2_brc_def zero_address_def)

lemma map_linear_channel_wf:
  assumes "mapper_ok m"
  shows "unat (a_stack (map_linear m a)) < unat (stacks (m_topology m))"
    "unat (a_channel (map_linear m a)) < unat (channels_per_stack (m_topology m))"
    "unat (a_flat_channel (map_linear m a)) = unat (a_stack (map_linear m a)) *
       unat (channels_per_stack (m_topology m)) + unat (a_channel (map_linear m a))"
proof -
  have t: "topology_ok (m_topology m)" using assms by (simp add: mapper_ok_def)
  note f = map_linear_fields [OF assms, of a] and pos = topology_nonzero [OF t]
  have "unat (a_flat_channel (map_linear m a)) <
      unat (stacks (m_topology m)) * unat (channels_per_stack (m_topology m))"
    using f(1) unat_channel_count [OF t] pos by simp
  then show "unat (a_stack (map_linear m a)) < unat (stacks (m_topology m))"
    using f(2) by (simp add: div_less_of_less_mult)
  show "unat (a_channel (map_linear m a)) < unat (channels_per_stack (m_topology m))"
    using f(3) pos by simp
  show "unat (a_flat_channel (map_linear m a)) = unat (a_stack (map_linear m a)) *
       unat (channels_per_stack (m_topology m)) + unat (a_channel (map_linear m a))"
    using f(2,3) by simp
qed

lemma map_address_wf:
  assumes "mapper_ok m" and "map_address m a = Inr r"
  shows "wf_address (m_topology m) r"
    and "unat (a_row r) < unat (m_rows_per_bank m)"
    and "unat (a_column r) < unat (m_columns_per_row m)"
proof -
  let ?t = "m_topology m"
  obtain r0 where r0: "r0 = (case m_mapping m of
      Hbm2PseudoChannelBrc \<Rightarrow> map_hbm2_brc a | Linear \<Rightarrow> map_linear m a)" by simp
  have out: "\<not> fields_outside m r0" and r: "r = flatten_address ?t r0"
    using assms(2) r0 by (auto simp: map_address_def Let_def split: if_splits)
  have t: "topology_ok ?t" using assms(1) by (simp add: mapper_ok_def)
  have ch: "unat (a_stack r0) < unat (stacks ?t)" "unat (a_channel r0) < unat (channels_per_stack ?t)"
    "unat (a_flat_channel r0) = unat (a_stack r0) * unat (channels_per_stack ?t) + unat (a_channel r0)"
    unfolding r0 using map_linear_channel_wf [OF assms(1)] topology_nonzero [OF t]
    by (auto split: address_mapping.split)
  show "wf_address ?t r"
    unfolding r using out by (intro flatten_wf t ch)
      (simp_all add: fields_outside_def not_le word_less_nat_alt)
  show "unat (a_row r) < unat (m_rows_per_bank m)" "unat (a_column r) < unat (m_columns_per_row m)"
    unfolding r using out
    by (simp_all add: flatten_address_def Let_def fields_outside_def not_le word_less_nat_alt)
qed

text \<open>The linear layout maps every byte address.\<close>

lemma map_linear_inside: "mapper_ok m \<Longrightarrow> \<not> fields_outside m (map_linear m a)"
proof -
  assume m: "mapper_ok m"
  then have t: "topology_ok (m_topology m)" by (simp add: mapper_ok_def)
  note f = map_linear_fields [OF m, of a] and pos = topology_nonzero [OF t]
  have "0 < unat (m_columns_per_row m)" "0 < unat (m_rows_per_bank m)"
    using m by (simp_all add: mapper_ok_def unat_gt_0)
  with f pos show ?thesis
    by (simp add: fields_outside_def not_le word_less_nat_alt)
qed

lemma channel_count_nonzero: "topology_ok t \<Longrightarrow> channel_count t \<noteq> 0"
  using unat_channel_count [of t] topology_nonzero [of t] by (auto simp flip: unat_eq_0)

lemma map_address_linear:
  "mapper_ok m \<Longrightarrow> m_mapping m = Linear \<Longrightarrow>
   map_address m a = Inr (flatten_address (m_topology m) (map_linear m a))"
  by (simp add: map_address_def Let_def map_linear_inside channel_count_nonzero mapper_ok_def)

section \<open>Bank addresses and the inverse of the mapping\<close>

lemma bank_address_Inr:
  "(\<exists>r. bank_address m fb = Inr r) \<longleftrightarrow> unat fb < unat (bank_count m)"
  by (simp add: bank_address_def Let_def word_le_nat_alt)

lemma bank_address_wf:
  assumes t: "topology_ok (m_topology m)" and r: "bank_address m fb = Inr r"
  shows "wf_address (m_topology m) r" and "a_flat_bank r = fb" and "a_row r = 0"
    and "a_column r = 0"
proof -
  let ?t = "m_topology m"
  note pos = topology_nonzero [OF t]
  from r have fb: "unat fb < unat (bank_count m)"
    using bank_address_Inr [of m fb] by blast
  let ?S = "unat (stacks ?t)" and ?C = "unat (channels_per_stack ?t)"
    and ?P = "unat (pseudo_channels_per_channel ?t)"
    and ?G = "unat (bank_groups_per_pseudo_channel ?t)" and ?B = "unat (banks_per_bank_group ?t)"
  have "unat fb < ?S * ?C * ?P * ?G * ?B" using fb unat_bank_count [OF t] by simp
  then have "unat fb div ?B < ?S * ?C * ?P * ?G" by (rule div_less_of_less_mult)
  then have "unat fb div ?B div ?G < ?S * ?C * ?P" by (rule div_less_of_less_mult)
  then have "unat fb div ?B div ?G div ?P < ?S * ?C" by (rule div_less_of_less_mult)
  then have "unat fb div ?B div ?G div ?P div ?C < ?S" by (rule div_less_of_less_mult)
  moreover from r have r': "\<not> fb \<ge> bank_count m" by (auto simp: bank_address_def split: if_splits)
  ultimately show "wf_address ?t r"
    using r pos by (auto simp: bank_address_def Let_def wf_address_def unat_div unat_mod
        zero_address_def)
  show "a_flat_bank r = fb" "a_row r = 0" "a_column r = 0"
    using r r' by (auto simp: bank_address_def Let_def zero_address_def)
qed

text \<open>Looking a mapped address's bank up gives the same bank, up to row and column.\<close>

lemma map_bank_address:
  assumes "mapper_ok m" and "map_address m a = Inr r"
  shows "bank_address m (a_flat_bank r) = Inr (r\<lparr>a_row := 0, a_column := 0\<rparr>)"
proof -
  have t: "topology_ok (m_topology m)" using assms(1) by (simp add: mapper_ok_def)
  have wf: "wf_address (m_topology m) r" using assms by (rule map_address_wf)
  have "unat (a_flat_bank r) < unat (bank_count m)"
    unfolding unat_bank_count [OF t] by (rule wf_address_bounds [OF wf])
  then obtain s where s: "bank_address m (a_flat_bank r) = Inr s"
    using bank_address_Inr [of m "a_flat_bank r"] by blast
  note sw = bank_address_wf [OF t s]
  have "s\<lparr>a_row := 0, a_column := 0\<rparr> = s" using sw(3,4) by (cases s) simp
  moreover have "r\<lparr>a_row := 0, a_column := 0\<rparr> = s\<lparr>a_row := 0, a_column := 0\<rparr>"
    by (rule wf_address_unique [OF wf sw(1)]) (simp add: sw(2))
  ultimately show ?thesis using s by simp
qed

text \<open>
  The interleave line a decoded address comes from: the linear layout read backwards.
  Addresses beyond the capacity of the topology wrap around, so this is an inverse on the
  lines below the capacity only.
\<close>

definition linear_line :: "address_mapper \<Rightarrow> hbm_address \<Rightarrow> nat" where
  "linear_line m r =
     (((((unat (a_pseudo_channel r) * unat (bank_groups_per_pseudo_channel (m_topology m)) +
       unat (a_bank_group r)) * unat (banks_per_bank_group (m_topology m)) + unat (a_bank r)) *
       unat (m_rows_per_bank m) + unat (a_row r)) * unat (m_columns_per_row m) +
       unat (a_column r)) * unat (channel_count (m_topology m)) + unat (a_flat_channel r))"

definition line_capacity :: "address_mapper \<Rightarrow> nat" where
  "line_capacity m = unat (pseudo_channels_per_channel (m_topology m)) *
     unat (bank_groups_per_pseudo_channel (m_topology m)) *
     unat (banks_per_bank_group (m_topology m)) * unat (m_rows_per_bank m) *
     unat (m_columns_per_row m) * unat (channel_count (m_topology m))"

lemma flatten_fields [simp]:
  "a_pseudo_channel (flatten_address t r) = a_pseudo_channel r"
  "a_bank_group (flatten_address t r) = a_bank_group r" "a_bank (flatten_address t r) = a_bank r"
  "a_row (flatten_address t r) = a_row r" "a_column (flatten_address t r) = a_column r"
  "a_flat_channel (flatten_address t r) = a_flat_channel r"
  by (simp_all add: flatten_address_def Let_def)

lemma radix_rebuild: "x div n * n + x mod n = (x :: nat)"
  by simp

lemma linear_roundtrip:
  assumes "mapper_ok m" and "m_mapping m = Linear" and "map_address m a = Inr r"
    and "unat a div unat (m_interleave_bytes m) < line_capacity m"
  shows "linear_line m r = unat a div unat (m_interleave_bytes m)"
proof -
  let ?t = "m_topology m" and ?l = "map_linear m a"
  let ?CH = "unat (channel_count ?t)" and ?C = "unat (m_columns_per_row m)"
    and ?R = "unat (m_rows_per_bank m)" and ?B = "unat (banks_per_bank_group ?t)"
    and ?G = "unat (bank_groups_per_pseudo_channel ?t)"
    and ?P = "unat (pseudo_channels_per_channel ?t)"
  define x where "x = unat a div unat (m_interleave_bytes m)"
  have r: "r = flatten_address ?t ?l" using assms(1-3) by (simp add: map_address_linear)
  note f = map_linear_fields [OF assms(1), of a, folded x_def]
  have "x < ?P * ?G * ?B * ?R * ?C * ?CH"
    using assms(4) by (simp only: x_def line_capacity_def)
  then have "x div ?CH < ?P * ?G * ?B * ?R * ?C" by (rule div_less_of_less_mult)
  then have "x div ?CH div ?C < ?P * ?G * ?B * ?R" by (rule div_less_of_less_mult)
  then have "x div ?CH div ?C div ?R < ?P * ?G * ?B" by (rule div_less_of_less_mult)
  then have "x div ?CH div ?C div ?R div ?B < ?P * ?G" by (rule div_less_of_less_mult)
  then have "x div ?CH div ?C div ?R div ?B div ?G < ?P" by (rule div_less_of_less_mult)
  then have p: "unat (a_pseudo_channel ?l) = x div ?CH div ?C div ?R div ?B div ?G"
    unfolding f(8) by (rule mod_less)
  have "linear_line m r = x"
    unfolding linear_line_def r flatten_fields p f(1,4-7) radix_rebuild ..
  then show ?thesis by (simp add: x_def)
qed

section \<open>Mapping boundaries\<close>

text \<open>The boundary lies ahead, at most one interleave unit away, and is a multiple of it.\<close>

lemma next_mapping_boundary_bounds:
  assumes "m_interleave_bytes m \<noteq> 0"
  shows "0 < unat (next_mapping_boundary m a)"
    and "unat (next_mapping_boundary m a) \<le> unat (m_interleave_bytes m)"
    and "unat (next_mapping_boundary m a) =
      unat (m_interleave_bytes m) - unat a mod unat (m_interleave_bytes m)"
proof -
  let ?i = "m_interleave_bytes m"
  have pos: "0 < unat ?i" using assms by (simp add: unat_gt_0)
  then have lt: "unat a mod unat ?i < unat ?i" by simp
  then have "a mod ?i \<le> ?i" by (simp add: word_le_nat_alt unat_mod)
  then show e: "unat (next_mapping_boundary m a) = unat ?i - unat a mod unat ?i"
    by (simp add: next_mapping_boundary_def unat_sub unat_mod)
  from e lt show "0 < unat (next_mapping_boundary m a)"
    and "unat (next_mapping_boundary m a) \<le> unat ?i" by simp_all
qed

lemma same_line_below_boundary:
  assumes "m_interleave_bytes m \<noteq> 0" and "unat d < unat (next_mapping_boundary m a)"
    and "unat a + unat d < 2 ^ 64"
  shows "unat (a + d) div unat (m_interleave_bytes m) = unat a div unat (m_interleave_bytes m)"
proof -
  let ?i = "unat (m_interleave_bytes m)"
  have "unat (a + d) = unat a + unat d" using assms(3) by (rule unat_add_u64_small)
  moreover have "unat a mod ?i + unat d < ?i"
    using assms(2) next_mapping_boundary_bounds(3) [OF assms(1), of a] by simp
  then have "(unat a + unat d) div ?i = unat a div ?i"
    by (metis add.assoc div_mult_mod_eq radix_div_mod(1))
  ultimately show ?thesis by simp
qed

text \<open>All bytes up to the boundary decode to one column of one bank.\<close>

lemma map_linear_line_cong:
  "mapper_ok m \<Longrightarrow> unat a div unat (m_interleave_bytes m) = unat b div unat (m_interleave_bytes m) \<Longrightarrow>
   map_linear m a = map_linear m b"
proof -
  assume "unat a div unat (m_interleave_bytes m) = unat b div unat (m_interleave_bytes m)"
  then have "a div m_interleave_bytes m = b div m_interleave_bytes m"
    by (simp add: word_unat_eq_iff unat_div)
  then show ?thesis by (simp add: map_linear_def)
qed

lemma map_address_below_boundary:
  assumes "mapper_ok m" and "m_mapping m = Linear"
    and "unat d < unat (next_mapping_boundary m a)" and "unat a + unat d < 2 ^ 64"
  shows "map_address m (a + d) = map_address m a"
proof -
  have "m_interleave_bytes m \<noteq> 0" using assms(1) by (simp add: mapper_ok_def)
  from same_line_below_boundary [OF this assms(3,4)]
  have "map_linear m (a + d) = map_linear m a" by (intro map_linear_line_cong assms(1))
  with assms(1,2) show ?thesis by (simp add: map_address_linear)
qed

end
