(* ===== verification/Timing_Engine.thy ===== *)
theory Timing_Engine
  imports Timing_Spec Address_Mapper
begin

text \<open>
  \<^verbatim>\<open>include/hbmsim/timing/timing_engine.h\<close> and
  \<^verbatim>\<open>src/timing/timing_engine.cpp\<close>: the last four issue times of each command on each
  scoped resource, and the earliest time at which the constraint table allows a command. The
  abstract specification is the complete log of recorded commands; the engine's bounded
  history answers every constraint as the complete log does.
\<close>

section \<open>The engine\<close>

fun timing_command :: "hbm_command \<Rightarrow> hbm_command" where
  "timing_command PreAll = PreBank"
| "timing_command hbm_command.ReadAuto = hbm_command.Read"
| "timing_command hbm_command.WriteAuto = hbm_command.Write"
| "timing_command c = c"

text \<open>\<^verbatim>\<open>CommandHistory\<close>, an array indexed by the command.\<close>

type_synonym command_history = "hbm_command \<Rightarrow> sim_time list"

record timing_engine =
  te_constraints :: "timing_constraint list"
  te_history :: "u64 \<rightharpoonup> command_history"

definition make_timing_engine :: "hbm_timing_spec \<Rightarrow> timing_engine" where
  "make_timing_engine spec = \<lparr>te_constraints = constraints spec, te_history = Map.empty\<rparr>"

fun scope_code :: "timing_scope \<Rightarrow> u64" where
  "scope_code Bank = 0"
| "scope_code BankGroup = 1"
| "scope_code Sid = 2"
| "scope_code PseudoChannel = 3"
| "scope_code Channel = 4"

fun scope_index :: "timing_scope \<Rightarrow> hbm_address \<Rightarrow> u32" where
  "scope_index Bank a = a_flat_bank a"
| "scope_index BankGroup a = a_flat_bank_group a"
| "scope_index Sid a = a_flat_sid a"
| "scope_index PseudoChannel a = a_flat_pseudo_channel a"
| "scope_index Channel a = a_flat_channel a"

definition resource_key :: "timing_scope \<Rightarrow> hbm_address \<Rightarrow> u64" where
  "resource_key s a = push_bit 56 (scope_code s) OR ucast (scope_index s a)"

text \<open>The loop of \<^verbatim>\<open>earliest_issue\<close> over the constraint table.\<close>

fun earliest_loop ::
    "(u64 \<rightharpoonup> command_history) \<Rightarrow> hbm_command \<Rightarrow> hbm_address \<Rightarrow> timing_constraint list \<Rightarrow> sim_time
     \<Rightarrow> sim_time result" where
  "earliest_loop hist command a [] earliest = Inr earliest"
| "earliest_loop hist command a (c # cs) earliest =
     (if following c \<noteq> command then earliest_loop hist command a cs earliest
      else case hist (resource_key (tc_scope c) a) of
        None \<Rightarrow> earliest_loop hist command a cs earliest
      | Some h \<Rightarrow>
          let history = h (preceding c); d = unat (tc_distance c) in
          if length history < d then earliest_loop hist command a cs earliest
          else if d = 0 then Inl (UndefinedBehaviour ''deque index out of range'')
          else let preceding_time = history ! (length history - d) in
            if preceding_time > u64_max - tc_delay c
            then Inl (OverflowError ''timing constraint overflows SimTime'')
            else earliest_loop hist command a cs (max earliest (preceding_time + tc_delay c)))"

definition earliest_issue :: "timing_engine \<Rightarrow> hbm_command \<Rightarrow> hbm_address \<Rightarrow> sim_time \<Rightarrow> sim_time result"
where
  "earliest_issue e command a now =
     earliest_loop (te_history e) (timing_command command) a (te_constraints e) now"

definition all_scopes :: "timing_scope list" where
  "all_scopes = [Bank, BankGroup, Sid, PseudoChannel, Channel]"

text \<open>\<^verbatim>\<open>push_back\<close>, then \<^verbatim>\<open>pop_front\<close> beyond four entries; a missing key
  of \<^verbatim>\<open>history_\<close> starts with empty deques.\<close>

definition push_bounded :: "sim_time list \<Rightarrow> sim_time \<Rightarrow> sim_time list" where
  "push_bounded h t = (let h' = h @ [t] in if length h' > 4 then tl h' else h')"

definition record_scope ::
    "hbm_command \<Rightarrow> hbm_address \<Rightarrow> sim_time \<Rightarrow> timing_scope \<Rightarrow> (u64 \<rightharpoonup> command_history)
     \<Rightarrow> (u64 \<rightharpoonup> command_history)" where
  "record_scope c a t s hist =
     (let k = resource_key s a;
          h = (case hist k of None \<Rightarrow> (\<lambda>_. []) | Some h \<Rightarrow> h)
      in hist(k \<mapsto> h(c := push_bounded (h c) t)))"

definition record_issue :: "timing_engine \<Rightarrow> hbm_command \<Rightarrow> hbm_address \<Rightarrow> sim_time \<Rightarrow> timing_engine"
where
  "record_issue e command a t =
     e\<lparr>te_history := fold (record_scope (timing_command command) a t) all_scopes (te_history e)\<rparr>"

section \<open>Resource keys do not collide\<close>

lemma resource_key_scope: "drop_bit 56 (resource_key s a) = scope_code s"
proof -
  have "drop_bit 56 (ucast (i :: u32) :: u64) = 0" for i
    by (rule bit_word_eqI) (auto simp: bit_simps dest: bit_imp_le_length)
  moreover have "drop_bit 56 (push_bit 56 (scope_code s)) = scope_code s"
    by (cases s) simp_all
  ultimately show ?thesis by (simp add: resource_key_def)
qed

lemma resource_key_index: "ucast (resource_key s a) = scope_index s a"
  unfolding resource_key_def
  by (rule bit_word_eqI) (auto simp: bit_simps)

lemma scope_code_inject [simp]: "scope_code s = scope_code s' \<longleftrightarrow> s = s'"
  by (cases s; cases s') simp_all

lemma resource_key_eq [simp]:
  "resource_key s a = resource_key s' a' \<longleftrightarrow> s = s' \<and> scope_index s a = scope_index s' a'"
  by (metis resource_key_def resource_key_index resource_key_scope scope_code_inject)

section \<open>The specification: the complete command log\<close>

type_synonym command_log = "(hbm_command \<times> hbm_address \<times> sim_time) list"

text \<open>The issue times, oldest first, of one command on one resource.\<close>

definition scope_times :: "command_log \<Rightarrow> timing_scope \<Rightarrow> hbm_address \<Rightarrow> hbm_command \<Rightarrow> sim_time list"
where
  "scope_times log s a c =
     map (\<lambda>(c', a', t). t)
       (filter (\<lambda>(c', a', t). timing_command c' = c \<and> scope_index s a' = scope_index s a) log)"

text \<open>
  A constraint allows a command at \<open>t\<close> when the \<open>distance\<close>-th most recent preceding command on
  the resource lies at least \<open>delay\<close> back, over the natural numbers.
\<close>

definition spaced :: "sim_time list \<Rightarrow> timing_constraint \<Rightarrow> sim_time \<Rightarrow> bool" where
  "spaced ts c t \<longleftrightarrow> (unat (tc_distance c) \<le> length ts \<longrightarrow>
     unat (ts ! (length ts - unat (tc_distance c))) + unat (tc_delay c) \<le> unat t)"

definition legal_at :: "timing_constraint list \<Rightarrow> command_log \<Rightarrow> hbm_command \<Rightarrow> hbm_address \<Rightarrow> sim_time \<Rightarrow> bool"
where
  "legal_at cs log command a t \<longleftrightarrow>
     (\<forall>c\<in>set cs. following c = timing_command command \<longrightarrow>
        spaced (scope_times log (tc_scope c) a (preceding c)) c t)"

definition last_n :: "nat \<Rightarrow> 'a list \<Rightarrow> 'a list" where
  "last_n n xs = drop (length xs - n) xs"

definition history_of :: "timing_engine \<Rightarrow> timing_scope \<Rightarrow> hbm_address \<Rightarrow> hbm_command \<Rightarrow> sim_time list"
where
  "history_of e s a c = (case te_history e (resource_key s a) of None \<Rightarrow> [] | Some h \<Rightarrow> h c)"

text \<open>The engine holds the last four entries of the log, per command and resource.\<close>

definition represents :: "timing_engine \<Rightarrow> command_log \<Rightarrow> bool" where
  "represents e log \<longleftrightarrow> (\<forall>s a c. history_of e s a c = last_n 4 (scope_times log s a c))"

lemma represents_make [simp]: "represents (make_timing_engine spec) []"
  by (simp add: represents_def history_of_def make_timing_engine_def scope_times_def last_n_def)

lemma push_bounded_last_n: "push_bounded (last_n 4 xs) t = last_n 4 (xs @ [t])"
proof (cases "length xs < 4")
  case True
  then show ?thesis by (simp add: push_bounded_def last_n_def Let_def)
next
  case False
  then have ne: "drop (length xs - 4) xs \<noteq> []" and l: "Suc (length xs - 4) = length xs - 3" by auto
  have "tl (drop (length xs - 4) xs @ [t]) = drop (length xs - 3) xs @ [t]"
    using ne by (simp add: tl_append2 tl_drop drop_Suc [symmetric] l)
  with False show ?thesis by (simp add: push_bounded_def last_n_def Let_def)
qed

lemma record_scope_history:
  "(case record_scope c a t s hist (resource_key s' a') of None \<Rightarrow> [] | Some h \<Rightarrow> h c') =
   (let old = (case hist (resource_key s' a') of None \<Rightarrow> [] | Some h \<Rightarrow> h c') in
    if s = s' \<and> scope_index s a = scope_index s' a' \<and> c = c' then push_bounded old t else old)"
proof (cases "resource_key s a = resource_key s' a'")
  case True
  then have "s = s'" "scope_index s a = scope_index s' a'" by auto
  then show ?thesis
    unfolding record_scope_def Let_def True by (auto split: option.split)
next
  case False
  then have "\<not> (s = s' \<and> scope_index s a = scope_index s' a')" by simp
  with False show ?thesis by (auto simp: record_scope_def Let_def)
qed

lemma record_scopes_history:
  "distinct ss \<Longrightarrow>
   (case fold (record_scope c a t) ss hist (resource_key s' a') of None \<Rightarrow> [] | Some h \<Rightarrow> h c') =
   (let old = (case hist (resource_key s' a') of None \<Rightarrow> [] | Some h \<Rightarrow> h c') in
    if s' \<in> set ss \<and> scope_index s' a = scope_index s' a' \<and> c = c' then push_bounded old t else old)"
  by (induction ss arbitrary: hist) (auto simp: record_scope_history Let_def)

lemma all_scopes: "s \<in> set all_scopes" "distinct all_scopes"
  by (cases s) (simp_all add: all_scopes_def)

lemma history_of_record:
  "history_of (record_issue e command a t) s a' c =
   (if scope_index s a = scope_index s a' \<and> timing_command command = c
    then push_bounded (history_of e s a' c) t else history_of e s a' c)"
  by (simp add: history_of_def record_issue_def record_scopes_history all_scopes Let_def)

lemma scope_times_snoc:
  "scope_times (log @ [(command, a, t)]) s a' c =
   (if scope_index s a = scope_index s a' \<and> timing_command command = c
    then scope_times log s a' c @ [t] else scope_times log s a' c)"
  by (auto simp: scope_times_def)

text \<open>Recording a command is appending it to the log.\<close>

lemma represents_record:
  "represents e log \<Longrightarrow> represents (record_issue e command a t) (log @ [(command, a, t)])"
  by (simp add: represents_def history_of_record scope_times_snoc push_bounded_last_n)

lemma record_issue_constraints [simp]: "te_constraints (record_issue e c a t) = te_constraints e"
  by (simp add: record_issue_def)

section \<open>The earliest issue time is the least legal one\<close>

text \<open>Reading the bounded history or the complete log gives a constraint the same answer.\<close>

lemma last_n_nth:
  assumes "0 < d" and "d \<le> n"
  shows "d \<le> length (last_n n xs) \<longleftrightarrow> d \<le> length xs"
    and "d \<le> length xs \<Longrightarrow> last_n n xs ! (length (last_n n xs) - d) = xs ! (length xs - d)"
  using assms by (auto simp: last_n_def)

lemma spaced_last_n:
  "regular_constraint c \<Longrightarrow> spaced (last_n 4 ts) c t \<longleftrightarrow> spaced ts c t"
  using regular_distance [of c] last_n_nth [of "unat (tc_distance c)" 4 ts]
  by (auto simp: spaced_def)

text \<open>What the loop requires of a time, over the engine's own history.\<close>

definition loop_legal ::
    "timing_engine \<Rightarrow> hbm_command \<Rightarrow> hbm_address \<Rightarrow> timing_constraint list \<Rightarrow> sim_time \<Rightarrow> bool" where
  "loop_legal e command a cs t \<longleftrightarrow>
     (\<forall>c\<in>set cs. following c = command \<longrightarrow> spaced (history_of e (tc_scope c) a (preceding c)) c t)"

lemma loop_legal_Cons:
  "loop_legal e command a (c # cs) t \<longleftrightarrow>
     (following c = command \<longrightarrow> spaced (history_of e (tc_scope c) a (preceding c)) c t) \<and>
     loop_legal e command a cs t"
  by (simp add: loop_legal_def)

text \<open>One round of the loop, with a missing key read as an empty history.\<close>

lemma earliest_loop_Cons:
  assumes "0 < unat (tc_distance c)"
  shows "earliest_loop (te_history e) command a (c # cs) m =
    (let ts = history_of e (tc_scope c) a (preceding c); d = unat (tc_distance c) in
     if following c \<noteq> command \<or> length ts < d then earliest_loop (te_history e) command a cs m
     else if 2 ^ 64 \<le> unat (ts ! (length ts - d)) + unat (tc_delay c)
     then Inl (OverflowError ''timing constraint overflows SimTime'')
     else earliest_loop (te_history e) command a cs (max m (ts ! (length ts - d) + tc_delay c)))"
proof (cases "te_history e (resource_key (tc_scope c) a)")
  case None
  with assms show ?thesis by (simp add: history_of_def Let_def)
next
  case (Some h)
  with assms show ?thesis by (simp add: history_of_def Let_def u64_overflow_test)
qed

declare earliest_loop.simps(2) [simp del]

lemma spaced_iff_le:
  assumes "\<not> 2 ^ 64 \<le> unat (ts ! (length ts - unat (tc_distance c))) + unat (tc_delay c)"
    and "unat (tc_distance c) \<le> length ts"
  shows "spaced ts c t \<longleftrightarrow> ts ! (length ts - unat (tc_distance c)) + tc_delay c \<le> t"
  using assms by (simp add: spaced_def word_le_nat_alt unat_add_u64)

lemma earliest_loop_spec:
  assumes "\<forall>c\<in>set cs. 0 < unat (tc_distance c)"
  shows "case earliest_loop (te_history e) command a cs m of
      Inr t \<Rightarrow> m \<le> t \<and> loop_legal e command a cs t \<and>
        (\<forall>u. m \<le> u \<and> loop_legal e command a cs u \<longrightarrow> t \<le> u)
    | Inl x \<Rightarrow> x = OverflowError ''timing constraint overflows SimTime'' \<and>
        (\<forall>u. \<not> loop_legal e command a cs u)"
  using assms
proof (induction cs arbitrary: m)
  case Nil
  then show ?case by (simp add: loop_legal_def)
next
  case (Cons c cs)
  let ?ts = "history_of e (tc_scope c) a (preceding c)"
  let ?v = "?ts ! (length ?ts - unat (tc_distance c))"
  have pos: "0 < unat (tc_distance c)" using Cons.prems by simp
  have IH: "\<And>m. case earliest_loop (te_history e) command a cs m of
      Inr t \<Rightarrow> m \<le> t \<and> loop_legal e command a cs t \<and>
        (\<forall>u. m \<le> u \<and> loop_legal e command a cs u \<longrightarrow> t \<le> u)
    | Inl x \<Rightarrow> x = OverflowError ''timing constraint overflows SimTime'' \<and>
        (\<forall>u. \<not> loop_legal e command a cs u)"
    using Cons by simp
  consider (skip) "following c \<noteq> command \<or> length ?ts < unat (tc_distance c)"
    | (overflow) "following c = command" "unat (tc_distance c) \<le> length ?ts"
        "2 ^ 64 \<le> unat ?v + unat (tc_delay c)"
    | (bound) "following c = command" "unat (tc_distance c) \<le> length ?ts"
        "\<not> 2 ^ 64 \<le> unat ?v + unat (tc_delay c)" by linarith
  then show ?case
  proof cases
    case skip
    then have "loop_legal e command a (c # cs) u = loop_legal e command a cs u" for u
      by (auto simp: loop_legal_Cons spaced_def)
    with skip IH [of m] show ?thesis
      by (auto simp: earliest_loop_Cons [OF pos] Let_def split: sum.split_asm sum.split)
  next
    case overflow
    then have "\<not> spaced ?ts c u" for u
      using unat_u64_lt [of u] by (simp add: spaced_def)
    with overflow show ?thesis
      by (simp add: earliest_loop_Cons [OF pos] Let_def loop_legal_Cons)
  next
    case bound
    note sp = spaced_iff_le [OF bound(3,2)]
    have "earliest_loop (te_history e) command a (c # cs) m =
        earliest_loop (te_history e) command a cs (max m (?v + tc_delay c))"
      using bound by (simp add: earliest_loop_Cons [OF pos] Let_def)
    with IH [of "max m (?v + tc_delay c)"] show ?thesis
      by (auto simp: loop_legal_Cons bound(1) sp split: sum.split_asm sum.split)
  qed
qed

lemma loop_legal_log:
  assumes "represents e log" and "\<forall>c\<in>set cs. regular_constraint c"
  shows "loop_legal e (timing_command command) a cs t \<longleftrightarrow> legal_at cs log command a t"
  using assms by (auto simp: loop_legal_def legal_at_def represents_def spaced_last_n)

definition regular_engine :: "timing_engine \<Rightarrow> bool" where
  "regular_engine e \<longleftrightarrow> (\<forall>c\<in>set (te_constraints e). regular_constraint c)"

lemma regular_make [simp]: "regular_engine (make_timing_engine spec)"
  by (auto simp: regular_engine_def make_timing_engine_def constraints_regular)

lemma regular_record [simp]: "regular_engine (record_issue e c a t) = regular_engine e"
  by (simp add: regular_engine_def)

lemma earliest_issue_cases:
  assumes "represents e log" and "regular_engine e"
  shows "case earliest_issue e command a now of
      Inr t \<Rightarrow> now \<le> t \<and> legal_at (te_constraints e) log command a t \<and>
        (\<forall>u. now \<le> u \<and> legal_at (te_constraints e) log command a u \<longrightarrow> t \<le> u)
    | Inl x \<Rightarrow> x = OverflowError ''timing constraint overflows SimTime'' \<and>
        (\<forall>u. \<not> legal_at (te_constraints e) log command a u)"
proof -
  have reg: "\<forall>c\<in>set (te_constraints e). regular_constraint c"
    using assms(2) by (simp add: regular_engine_def)
  then have "\<forall>c\<in>set (te_constraints e). 0 < unat (tc_distance c)"
    by (auto dest: regular_distance_pos)
  from earliest_loop_spec [OF this, of e "timing_command command" a now]
  show ?thesis
    by (auto simp: earliest_issue_def loop_legal_log [OF assms(1) reg]
        split: sum.split_asm sum.split)
qed

text \<open>Facts of the engine alone, without the log.\<close>

lemma earliest_issue_ge: "earliest_issue e command a now = Inr t \<Longrightarrow> regular_engine e \<Longrightarrow> now \<le> t"
  using earliest_loop_spec [of "te_constraints e" e "timing_command command" a now]
  by (force simp: earliest_issue_def regular_engine_def dest: regular_distance_pos)

lemma earliest_issue_later:
  assumes "earliest_issue e command a now = Inr t" and "regular_engine e" and "t \<le> u"
  shows "earliest_issue e command a u = Inr u"
proof -
  have pos: "\<forall>c\<in>set (te_constraints e). 0 < unat (tc_distance c)"
    using assms(2) by (auto simp: regular_engine_def dest: regular_distance_pos)
  let ?L = "loop_legal e (timing_command command) a (te_constraints e)"
  have "now \<le> t" and "?L t"
    using earliest_loop_spec [OF pos, of e "timing_command command" a now] assms(1)
    by (simp_all add: earliest_issue_def)
  then have "?L u"
    using assms(3) by (force simp: loop_legal_def spaced_def word_le_nat_alt)
  with earliest_loop_spec [OF pos, of e "timing_command command" a u] show ?thesis
    by (auto simp: earliest_issue_def split: sum.split_asm intro: antisym)
qed

lemma earliest_issue_Inl:
  assumes "earliest_issue e command a now = Inl x" and "regular_engine e"
  shows "x = OverflowError ''timing constraint overflows SimTime''"
  using earliest_loop_spec [of "te_constraints e" e "timing_command command" a now] assms
  by (force simp: earliest_issue_def regular_engine_def dest: regular_distance_pos)

end
