(* ===== verification/Hbm_Standard.thy ===== *)
theory Hbm_Standard
  imports Timing_Spec Address_Mapper Bandwidth
begin

text \<open>
  \<^verbatim>\<open>include/hbmsim/dram/hbm_standard.h\<close> and \<^verbatim>\<open>src/dram/hbm_standard.cpp\<close>:
  the organization, the cycle speed bins resolved to picoseconds, and the command tables of
  the three concrete standards. The abstract class is the interface locale
  \<open>standard_tables\<close>; its non-virtual methods are functions of the tables a subclass
  supplies, and virtual dispatch is a case distinction on \<open>hbm_standard\<close>.
\<close>

section \<open>Organization and speed bins\<close>

record hbm_organization =
  topology :: hbm_topology
  columns_per_row :: u32
  rows_per_bank :: u32
  physical_burst_bytes :: u64
  address_interleave_bytes :: u64
  address_mapping :: address_mapping
  pseudo_channel_rate :: bandwidth_rate

definition default_organization :: hbm_organization where
  "default_organization = \<lparr>topology = default_topology, columns_per_row = 0, rows_per_bank = 0,
     physical_burst_bytes = 32, address_interleave_bytes = 32, address_mapping = Linear,
     pseudo_channel_rate = \<lparr>br_bytes = 32, br_interval = 1000\<rparr>\<rparr>"

record hbm_speed_bin =
  tck_ps :: sim_time
  n_bl :: u32
  n_cl :: u32
  n_rcd_rd :: u32
  n_rcd_wr :: u32
  n_rp :: u32
  n_ras :: u32
  n_wr :: u32
  n_rtp :: u32
  n_cwl :: u32
  n_ccd_s :: u32
  n_ccd_l :: u32
  n_rrd_s :: u32
  n_rrd_l :: u32
  n_wtr_s :: u32
  n_wtr_l :: u32
  n_rtw :: u32
  n_faw :: u32
  n_ppd :: u32
  t_rfc_ps :: sim_time
  t_rfcpb_ps :: sim_time
  n_ccd_r :: u32
  n_rrefd :: u32
  t_refi_ps :: sim_time

definition cycles :: "u32 \<Rightarrow> sim_time \<Rightarrow> sim_time" where
  "cycles count tck = ucast count * tck"

text \<open>\<^verbatim>\<open>HbmSpeedBin::resolve\<close>: the assignments, and the guard before them.\<close>

definition resolved_timing :: "hbm_speed_bin \<Rightarrow> hbm_timing_spec" where
  "resolved_timing b =
     (let c = (\<lambda>n. cycles n (tck_ps b)) in default_timing_spec\<lparr>
       use_extended_hbm_timing := True,
       t_cl := c (n_cl b), t_rcd := c (n_rcd_rd b), t_rcd_rd := c (n_rcd_rd b),
       t_rcd_wr := c (n_rcd_wr b), t_rp := c (n_rp b), t_ras := c (n_ras b),
       t_rc := c (n_ras b) + c (n_rp b), t_wr := c (n_wr b), t_rtp := c (n_rtp b),
       t_cwl := c (n_cwl b), t_bl := c (n_bl b), t_ccd_s := c (n_ccd_s b),
       t_ccd_l := c (n_ccd_l b), t_ccd_r := c (n_ccd_r b), t_ccd := c (n_ccd_s b),
       t_rrd_s := c (n_rrd_s b), t_rrd_l := c (n_rrd_l b), t_rrd := c (n_rrd_s b),
       t_faw := c (n_faw b), t_wtr_s := c (n_wtr_s b), t_wtr_l := c (n_wtr_l b),
       t_wtr := c (n_cwl b) + c (n_bl b) + c (n_wtr_s b), t_rtw := c (n_rtw b),
       t_ppd := c (n_ppd b), t_rrefd := c (n_rrefd b), t_refi := t_refi_ps b,
       t_rfc := t_rfc_ps b, t_rfcpb := t_rfcpb_ps b, t_rfmab := t_rfc_ps b,
       t_rfmpb := t_rfcpb_ps b\<rparr>)"

definition speed_bin_resolve :: "hbm_speed_bin \<Rightarrow> hbm_timing_spec result" where
  "speed_bin_resolve b =
     ebind (throw_if (tck_ps b = 0) (InvalidArgument ''speed bin tCK must be non-zero''))
       (\<lambda>_. Inr (resolved_timing b))"

section \<open>Command tables\<close>

datatype command_condition = TargetClosed | DifferentRow | TargetOpen | AnyOpen
datatype command_scope = Bank | Channel
datatype command_bus = Unified | Row | Column
datatype bank_transition = NoTransition | OpenTarget | Close

record command_prerequisite =
  cp_requested :: hbm_command
  cp_condition :: command_condition
  cp_prerequisite :: hbm_command

record command_transition =
  ct_command :: hbm_command
  ct_scope :: command_scope
  ct_transition :: bank_transition

record command_decision =
  cd_command :: hbm_command
  cd_scope :: command_scope
  final_command :: bool

definition cp :: "hbm_command \<Rightarrow> command_condition \<Rightarrow> hbm_command \<Rightarrow> command_prerequisite" where
  "cp r c p = \<lparr>cp_requested = r, cp_condition = c, cp_prerequisite = p\<rparr>"

definition ct :: "hbm_command \<Rightarrow> command_scope \<Rightarrow> bank_transition \<Rightarrow> command_transition" where
  "ct c s t = \<lparr>ct_command = c, ct_scope = s, ct_transition = t\<rparr>"

definition decision :: "hbm_command \<Rightarrow> command_scope \<Rightarrow> bool \<Rightarrow> command_decision" where
  "decision c s f = \<lparr>cd_command = c, cd_scope = s, final_command = f\<rparr>"

definition kHbm2Prerequisites :: "command_prerequisite list" where
  "kHbm2Prerequisites = [
     cp hbm_command.Read DifferentRow PreBank,
     cp hbm_command.Read TargetClosed Act,
     cp hbm_command.Write DifferentRow PreBank,
     cp hbm_command.Write TargetClosed Act,
     cp hbm_command.ReadAuto DifferentRow PreBank,
     cp hbm_command.ReadAuto TargetClosed Act,
     cp hbm_command.WriteAuto DifferentRow PreBank,
     cp hbm_command.WriteAuto TargetClosed Act,
     cp hbm_command.RefreshPerBank TargetOpen PreBank,
     cp hbm_command.RefreshAllBank AnyOpen PreAll]"

definition kHbm3Prerequisites :: "command_prerequisite list" where
  "kHbm3Prerequisites = [
     cp hbm_command.Read DifferentRow PreBank,
     cp hbm_command.Read TargetClosed Act,
     cp hbm_command.Write DifferentRow PreBank,
     cp hbm_command.Write TargetClosed Act,
     cp hbm_command.ReadAuto DifferentRow PreBank,
     cp hbm_command.ReadAuto TargetClosed Act,
     cp hbm_command.WriteAuto DifferentRow PreBank,
     cp hbm_command.WriteAuto TargetClosed Act,
     cp hbm_command.RefreshPerBank TargetOpen PreBank,
     cp hbm_command.RefreshAllBank AnyOpen PreAll,
     cp hbm_command.RfmPerBank TargetOpen PreBank,
     cp hbm_command.RfmAllBank AnyOpen PreAll]"

definition kHbm2Transitions :: "command_transition list" where
  "kHbm2Transitions = [
     ct Act Bank OpenTarget,
     ct PreBank Bank Close,
     ct PreAll Channel Close,
     ct hbm_command.Read Bank NoTransition,
     ct hbm_command.Write Bank NoTransition,
     ct hbm_command.ReadAuto Bank Close,
     ct hbm_command.WriteAuto Bank Close,
     ct hbm_command.RefreshAllBank Channel Close,
     ct hbm_command.RefreshPerBank Bank Close]"

definition kHbm3Transitions :: "command_transition list" where
  "kHbm3Transitions = [
     ct Act Bank OpenTarget,
     ct PreBank Bank Close,
     ct PreAll Channel Close,
     ct hbm_command.Read Bank NoTransition,
     ct hbm_command.Write Bank NoTransition,
     ct hbm_command.ReadAuto Bank Close,
     ct hbm_command.WriteAuto Bank Close,
     ct hbm_command.RefreshAllBank Channel Close,
     ct hbm_command.RefreshPerBank Bank Close,
     ct hbm_command.RfmAllBank Channel Close,
     ct hbm_command.RfmPerBank Bank Close]"

definition common_support :: "hbm_command \<Rightarrow> bool" where
  "common_support c \<longleftrightarrow> c = Act \<or> c = PreBank \<or> c = PreAll \<or> c = hbm_command.Read \<or>
     c = hbm_command.Write \<or> c = hbm_command.ReadAuto \<or> c = hbm_command.WriteAuto \<or>
     c = hbm_command.RefreshAllBank \<or> c = hbm_command.RefreshPerBank"

section \<open>The methods of the abstract class\<close>

definition transition_in :: "command_transition list \<Rightarrow> hbm_command \<Rightarrow> command_transition result" where
  "transition_in ts c = (case find (\<lambda>t. ct_command t = c) ts of
     Some t \<Rightarrow> Inr t
   | None \<Rightarrow> Inl (LogicError ''standard has no transition for command''))"

fun condition_holds :: "command_condition \<Rightarrow> u32 \<Rightarrow> hbm_bank_state \<Rightarrow> bool \<Rightarrow> bool" where
  "condition_holds TargetClosed row b any_open \<longleftrightarrow> open_row b = None"
| "condition_holds DifferentRow row b any_open \<longleftrightarrow>
     (case open_row b of None \<Rightarrow> False | Some r \<Rightarrow> r \<noteq> row)"
| "condition_holds TargetOpen row b any_open \<longleftrightarrow> open_row b \<noteq> None"
| "condition_holds AnyOpen row b any_open \<longleftrightarrow> any_open"

fun prerequisite_loop ::
    "command_transition list \<Rightarrow> hbm_command \<Rightarrow> u32 \<Rightarrow> hbm_bank_state \<Rightarrow> bool
     \<Rightarrow> command_prerequisite list \<Rightarrow> command_decision result" where
  "prerequisite_loop ts requested row b any_open [] =
     ebind (transition_in ts requested) (\<lambda>t. Inr (decision requested (ct_scope t) True))"
| "prerequisite_loop ts requested row b any_open (r # rs) =
     (if cp_requested r \<noteq> requested then prerequisite_loop ts requested row b any_open rs
      else if condition_holds (cp_condition r) row b any_open
      then ebind (transition_in ts (cp_prerequisite r))
             (\<lambda>t. Inr (decision (cp_prerequisite r) (ct_scope t) False))
      else prerequisite_loop ts requested row b any_open rs)"

definition resolve_in ::
    "(hbm_command \<Rightarrow> bool) \<Rightarrow> command_prerequisite list \<Rightarrow> command_transition list
     \<Rightarrow> hbm_command \<Rightarrow> u32 \<Rightarrow> hbm_bank_state \<Rightarrow> bool \<Rightarrow> command_decision result" where
  "resolve_in supp prs ts requested row b any_open =
     ebind (throw_if (\<not> supp requested)
       (LogicError ''requested command is not supported by standard''))
       (\<lambda>_. prerequisite_loop ts requested row b any_open prs)"

definition apply_rule :: "command_transition \<Rightarrow> u32 \<Rightarrow> hbm_bank_state \<Rightarrow> hbm_bank_state" where
  "apply_rule t row b = (case ct_transition t of
     OpenTarget \<Rightarrow> b\<lparr>open_row := Some row, precharge_pending := False\<rparr>
   | Close \<Rightarrow> b\<lparr>open_row := None, precharge_pending := False\<rparr>
   | NoTransition \<Rightarrow> b)"

definition command_bus_of :: "hbm_command \<Rightarrow> command_bus" where
  "command_bus_of c = (if c = hbm_command.Read \<or> c = hbm_command.Write \<or>
     c = hbm_command.ReadAuto \<or> c = hbm_command.WriteAuto then Column else Row)"

section \<open>The three standards\<close>

datatype hbm_standard = Hbm2Standard | Hbm3Standard | Hbm4Standard

definition hbm2_organization :: hbm_organization where
  "hbm2_organization = default_organization\<lparr>
     topology := \<lparr>stacks = 1, channels_per_stack = 1, pseudo_channels_per_channel = 2,
       bank_groups_per_pseudo_channel = 4, banks_per_bank_group = 4\<rparr>,
     columns_per_row := 32, rows_per_bank := 16384, physical_burst_bytes := 32,
     address_interleave_bytes := 32, address_mapping := Hbm2PseudoChannelBrc,
     pseudo_channel_rate := \<lparr>br_bytes = 32, br_interval = 2000\<rparr>\<rparr>"

definition hbm3_organization :: hbm_organization where
  "hbm3_organization = default_organization\<lparr>
     topology := \<lparr>stacks = 1, channels_per_stack = 1, pseudo_channels_per_channel = 2,
       bank_groups_per_pseudo_channel = 4, banks_per_bank_group = 4\<rparr>,
     columns_per_row := 32, rows_per_bank := 16384, physical_burst_bytes := 32,
     address_interleave_bytes := 32, address_mapping := Linear,
     pseudo_channel_rate := \<lparr>br_bytes = 32, br_interval = 1250\<rparr>\<rparr>"

definition hbm4_organization :: hbm_organization where
  "hbm4_organization = default_organization\<lparr>
     topology := \<lparr>stacks = 1, channels_per_stack = 1, pseudo_channels_per_channel = 2,
       bank_groups_per_pseudo_channel = 2, banks_per_bank_group = 8\<rparr>,
     columns_per_row := 256, rows_per_bank := 16384, physical_burst_bytes := 32,
     address_interleave_bytes := 32, address_mapping := Linear,
     pseudo_channel_rate := \<lparr>br_bytes = 64, br_interval = 1000\<rparr>\<rparr>"

definition hbm2_speed_bin :: hbm_speed_bin where
  "hbm2_speed_bin = \<lparr>tck_ps = 1000, n_bl = 2, n_cl = 14, n_rcd_rd = 14, n_rcd_wr = 12,
     n_rp = 14, n_ras = 34, n_wr = 16, n_rtp = 5, n_cwl = 5, n_ccd_s = 2, n_ccd_l = 4,
     n_rrd_s = 4, n_rrd_l = 4, n_wtr_s = 6, n_wtr_l = 8, n_rtw = 15, n_faw = 15, n_ppd = 0,
     t_rfc_ps = 260000, t_rfcpb_ps = 160000, n_ccd_r = 2, n_rrefd = 8, t_refi_ps = 3900000\<rparr>"

definition hbm3_speed_bin :: hbm_speed_bin where
  "hbm3_speed_bin = \<lparr>tck_ps = 625, n_bl = 2, n_cl = 20, n_rcd_rd = 31, n_rcd_wr = 15,
     n_rp = 26, n_ras = 45, n_wr = 33, n_rtp = 9, n_cwl = 10, n_ccd_s = 2, n_ccd_l = 4,
     n_rrd_s = 4, n_rrd_l = 5, n_wtr_s = 7, n_wtr_l = 10, n_rtw = 17, n_faw = 24, n_ppd = 2,
     t_rfc_ps = 260000, t_rfcpb_ps = 200000, n_ccd_r = 2, n_rrefd = 13, t_refi_ps = 3900000\<rparr>"

fun std_name :: "hbm_standard \<Rightarrow> string" where
  "std_name Hbm2Standard = ''HBM2''"
| "std_name Hbm3Standard = ''HBM3''"
| "std_name Hbm4Standard = ''HBM4''"

fun std_profile_id :: "hbm_standard \<Rightarrow> string" where
  "std_profile_id Hbm2Standard = ''hbm2_2000''"
| "std_profile_id Hbm3Standard = ''hbm3_6400''"
| "std_profile_id Hbm4Standard = ''hbm4_8000''"

definition std_levels :: "hbm_standard \<Rightarrow> address_level list" where
  "std_levels std = [address_level.Channel, address_level.PseudoChannel, address_level.Sid,
     address_level.BankGroup, address_level.Bank, address_level.Row, address_level.Column]"

fun std_organization :: "hbm_standard \<Rightarrow> hbm_organization" where
  "std_organization Hbm2Standard = hbm2_organization"
| "std_organization Hbm3Standard = hbm3_organization"
| "std_organization Hbm4Standard = hbm4_organization"

fun std_timing :: "hbm_standard \<Rightarrow> hbm_timing_spec" where
  "std_timing Hbm2Standard = resolved_timing hbm2_speed_bin"
| "std_timing Hbm3Standard = resolved_timing hbm3_speed_bin"
| "std_timing Hbm4Standard = timing_hbm4_8000"

fun supports :: "hbm_standard \<Rightarrow> hbm_command \<Rightarrow> bool" where
  "supports Hbm2Standard c = common_support c"
| "supports Hbm3Standard c =
     (common_support c \<or> c = hbm_command.RfmAllBank \<or> c = hbm_command.RfmPerBank)"
| "supports Hbm4Standard c =
     (common_support c \<or> c = hbm_command.RfmAllBank \<or> c = hbm_command.RfmPerBank)"

fun from_generic :: "dram_command \<Rightarrow> hbm_command" where
  "from_generic Activate = Act"
| "from_generic PrechargeBank = PreBank"
| "from_generic PrechargeAll = PreAll"
| "from_generic dram_command.Read = hbm_command.Read"
| "from_generic dram_command.Write = hbm_command.Write"
| "from_generic dram_command.ReadAuto = hbm_command.ReadAuto"
| "from_generic dram_command.WriteAuto = hbm_command.WriteAuto"
| "from_generic dram_command.RefreshAllBank = hbm_command.RefreshAllBank"
| "from_generic dram_command.RefreshPerBank = hbm_command.RefreshPerBank"
| "from_generic dram_command.RfmAllBank = hbm_command.RfmAllBank"
| "from_generic dram_command.RfmPerBank = hbm_command.RfmPerBank"

definition supports_generic :: "hbm_standard \<Rightarrow> dram_command \<Rightarrow> bool" where
  "supports_generic std c = supports std (from_generic c)"

fun prerequisites :: "hbm_standard \<Rightarrow> command_prerequisite list" where
  "prerequisites Hbm2Standard = kHbm2Prerequisites"
| "prerequisites Hbm3Standard = kHbm3Prerequisites"
| "prerequisites Hbm4Standard = kHbm3Prerequisites"

fun transitions :: "hbm_standard \<Rightarrow> command_transition list" where
  "transitions Hbm2Standard = kHbm2Transitions"
| "transitions Hbm3Standard = kHbm3Transitions"
| "transitions Hbm4Standard = kHbm3Transitions"

fun command_duration :: "hbm_standard \<Rightarrow> hbm_command \<Rightarrow> sim_time" where
  "command_duration Hbm2Standard c =
     (if c = Act then 2 * tck_ps hbm2_speed_bin else tck_ps hbm2_speed_bin)"
| "command_duration Hbm3Standard c =
     (if c = Act then (3 * tck_ps hbm3_speed_bin + 1) div 2
      else if c = PreBank \<or> c = PreAll \<or> c = hbm_command.RefreshAllBank \<or>
        c = hbm_command.RefreshPerBank \<or> c = hbm_command.RfmAllBank \<or>
        c = hbm_command.RfmPerBank
      then (tck_ps hbm3_speed_bin + 1) div 2
      else tck_ps hbm3_speed_bin)"
| "command_duration Hbm4Standard c = t_command timing_hbm4_8000"

definition transition_for :: "hbm_standard \<Rightarrow> hbm_command \<Rightarrow> command_transition result" where
  "transition_for std c = transition_in (transitions std) c"

definition resolve_prerequisite ::
    "hbm_standard \<Rightarrow> hbm_command \<Rightarrow> u32 \<Rightarrow> hbm_bank_state \<Rightarrow> bool \<Rightarrow> command_decision result" where
  "resolve_prerequisite std requested row b any_open =
     resolve_in (supports std) (prerequisites std) (transitions std) requested row b any_open"

definition std_apply_transition ::
    "hbm_standard \<Rightarrow> hbm_command \<Rightarrow> u32 \<Rightarrow> hbm_bank_state \<Rightarrow> hbm_bank_state result" where
  "std_apply_transition std c row b =
     ebind (transition_for std c) (\<lambda>t. Inr (apply_rule t row b))"

section \<open>The contract of a standard's tables\<close>

text \<open>Commands that address the whole channel, and what a command does to the banks it addresses.\<close>

definition channel_command :: "hbm_command \<Rightarrow> bool" where
  "channel_command c \<longleftrightarrow> c = PreAll \<or> c = hbm_command.RefreshAllBank \<or> c = hbm_command.RfmAllBank"

definition bank_maintenance :: "hbm_command \<Rightarrow> bool" where
  "bank_maintenance c \<longleftrightarrow> c = hbm_command.RefreshPerBank \<or> c = hbm_command.RfmPerBank"

definition channel_maintenance :: "hbm_command \<Rightarrow> bool" where
  "channel_maintenance c \<longleftrightarrow> c = hbm_command.RefreshAllBank \<or> c = hbm_command.RfmAllBank"

definition scope_of :: "hbm_command \<Rightarrow> command_scope" where
  "scope_of c = (if channel_command c then Channel else Bank)"

definition effect_of :: "hbm_command \<Rightarrow> bank_transition" where
  "effect_of c = (if c = Act then OpenTarget
     else if c = hbm_command.Read \<or> c = hbm_command.Write then NoTransition else Close)"

definition expected_rules :: "hbm_command \<Rightarrow> command_prerequisite list" where
  "expected_rules c =
     (if is_data_command c then [cp c DifferentRow PreBank, cp c TargetClosed Act]
      else if bank_maintenance c then [cp c TargetOpen PreBank]
      else if channel_maintenance c then [cp c AnyOpen PreAll] else [])"

text \<open>
  What the controller relies on: each supported command has the transition its name says and
  exactly the prerequisites of its kind, and the commands that prerequisites name are supported.
\<close>

locale standard_tables =
  fixes supp :: "hbm_command \<Rightarrow> bool"
    and prs :: "command_prerequisite list"
    and ts :: "command_transition list"
  assumes transition_supported: "supp c \<Longrightarrow> transition_in ts c = Inr (ct c (scope_of c) (effect_of c))"
    and transition_unsupported:
      "\<not> supp c \<Longrightarrow> transition_in ts c = Inl (LogicError ''standard has no transition for command'')"
    and rules_of: "supp c \<Longrightarrow> filter (\<lambda>r. cp_requested r = c) prs = expected_rules c"
    and supports_row_commands: "supp Act" "supp PreBank" "supp PreAll"
    and unsupported_Count: "\<not> supp Count"
begin

lemma prerequisite_loop_filter:
  "prerequisite_loop ts c row b any_open rs =
   prerequisite_loop ts c row b any_open (filter (\<lambda>r. cp_requested r = c) rs)"
  by (induction rs) auto

text \<open>The decision of the tables, in closed form.\<close>

lemma resolve_in_cases:
  assumes "supp c"
  shows "resolve_in supp prs ts c row b any_open = Inr (
    if is_data_command c then
      (case open_row b of
         None \<Rightarrow> decision Act Bank False
       | Some r \<Rightarrow> if r \<noteq> row then decision PreBank Bank False else decision c Bank True)
    else if bank_maintenance c then
      (if open_row b \<noteq> None then decision PreBank Bank False else decision c Bank True)
    else if channel_maintenance c then
      (if any_open then decision PreAll Channel False else decision c Channel True)
    else decision c (scope_of c) True)"
proof -
  have s: "ct_scope (ct x y z) = y" "cp_requested (cp x v w) = x" "cp_condition (cp x v w) = v"
    "cp_prerequisite (cp x v w) = w" for x y z v w
    by (simp_all add: ct_def cp_def)
  have sc: "scope_of Act = Bank" "scope_of PreBank = Bank" "scope_of PreAll = Channel"
    by (simp_all add: scope_of_def channel_command_def)
  have data: "is_data_command c \<Longrightarrow> scope_of c = Bank"
    and bm: "bank_maintenance c \<Longrightarrow> scope_of c = Bank"
    and cm: "channel_maintenance c \<Longrightarrow> scope_of c = Channel"
    by (auto simp: is_data_command_def bank_maintenance_def channel_maintenance_def scope_of_def
        channel_command_def)
  have "resolve_in supp prs ts c row b any_open =
      prerequisite_loop ts c row b any_open (expected_rules c)"
    using assms by (simp add: resolve_in_def prerequisite_loop_filter [of _ _ _ _ prs] rules_of)
  then show ?thesis
    using assms supports_row_commands data bm cm
    by (auto simp: expected_rules_def s sc transition_supported split: option.split)
qed

lemma resolve_in_unsupported:
  "\<not> supp c \<Longrightarrow> resolve_in supp prs ts c row b any_open =
     Inl (LogicError ''requested command is not supported by standard'')"
  by (simp add: resolve_in_def)

end

lemma table_simps:
  "cp_requested (cp x v w) = x" "cp_condition (cp x v w) = v" "cp_prerequisite (cp x v w) = w"
  "ct_command (ct c s t) = c" "ct_scope (ct c s t) = s" "ct_transition (ct c s t) = t"
  "cd_command (decision c s f) = c" "cd_scope (decision c s f) = s" "final_command (decision c s f) = f"
  by (simp_all add: cp_def ct_def decision_def)

declare table_simps [simp]

interpretation hbm2: standard_tables "supports Hbm2Standard" "prerequisites Hbm2Standard"
    "transitions Hbm2Standard"
proof unfold_locales
  fix c
  show "supports Hbm2Standard c \<Longrightarrow>
      transition_in (transitions Hbm2Standard) c = Inr (ct c (scope_of c) (effect_of c))"
    and "\<not> supports Hbm2Standard c \<Longrightarrow> transition_in (transitions Hbm2Standard) c =
      Inl (LogicError ''standard has no transition for command'')"
    and "supports Hbm2Standard c \<Longrightarrow>
      filter (\<lambda>r. cp_requested r = c) (prerequisites Hbm2Standard) = expected_rules c"
    by (cases c; simp add: common_support_def transition_in_def kHbm2Transitions_def scope_of_def
        channel_command_def effect_of_def kHbm2Prerequisites_def expected_rules_def
        is_data_command_def bank_maintenance_def channel_maintenance_def)+
qed (simp_all add: common_support_def)

lemma hbm3_tables:
  assumes "std = Hbm3Standard \<or> std = Hbm4Standard"
  shows "supports std c \<Longrightarrow>
      transition_in (transitions std) c = Inr (ct c (scope_of c) (effect_of c))"
    and "\<not> supports std c \<Longrightarrow> transition_in (transitions std) c =
      Inl (LogicError ''standard has no transition for command'')"
    and "supports std c \<Longrightarrow>
      filter (\<lambda>r. cp_requested r = c) (prerequisites std) = expected_rules c"
  using assms
  by (cases c; auto simp: common_support_def transition_in_def kHbm3Transitions_def scope_of_def
      channel_command_def effect_of_def kHbm3Prerequisites_def expected_rules_def
      is_data_command_def bank_maintenance_def channel_maintenance_def)+

interpretation hbm3: standard_tables "supports Hbm3Standard" "prerequisites Hbm3Standard"
    "transitions Hbm3Standard"
  by unfold_locales
    (simp_all add: hbm3_tables [of Hbm3Standard] common_support_def del: prerequisites.simps
      transitions.simps)

interpretation hbm4: standard_tables "supports Hbm4Standard" "prerequisites Hbm4Standard"
    "transitions Hbm4Standard"
  by unfold_locales
    (simp_all add: hbm3_tables [of Hbm4Standard] common_support_def del: prerequisites.simps
      transitions.simps)

text \<open>Every standard the controller can hold meets the contract.\<close>

lemma std_tables: "standard_tables (supports std) (prerequisites std) (transitions std)"
  by (cases std)
    (simp_all only: hbm2.standard_tables_axioms hbm3.standard_tables_axioms
      hbm4.standard_tables_axioms)

interpretation std: standard_tables "supports std" "prerequisites std" "transitions std" for std
  by (rule std_tables)

lemma transition_for_supported:
  "supports std c \<Longrightarrow> transition_for std c = Inr (ct c (scope_of c) (effect_of c))"
  by (simp add: transition_for_def std.transition_supported)

lemma transition_for_unsupported:
  "\<not> supports std c \<Longrightarrow>
   transition_for std c = Inl (LogicError ''standard has no transition for command'')"
  by (simp add: transition_for_def std.transition_unsupported)

lemmas resolve_prerequisite_cases = std.resolve_in_cases [folded resolve_prerequisite_def]

lemma supports_common: "common_support c \<Longrightarrow> supports std c"
  by (cases std) auto

lemma supports_data: "is_data_command c \<Longrightarrow> supports std c"
  by (rule supports_common) (auto simp: is_data_command_def common_support_def)

end
