(* ===== verification/Command_Planner.thy ===== *)
theory Command_Planner
  imports Hbm_Standard
begin

text \<open>
  \<^verbatim>\<open>src/controller/command_planner.cpp\<close>, \<^verbatim>\<open>row_policy.cpp\<close> and
  \<^verbatim>\<open>refresh_manager.cpp\<close> with their headers: the next DRAM command towards a request,
  with and without a standard, and the row and refresh policies. The lemmas give the planner's
  decision in closed form, and show that a planned chain of commands reaches the request.
\<close>

section \<open>Row and refresh policies\<close>

datatype row_policy = Open | Closed

fun use_auto_precharge :: "row_policy \<Rightarrow> bool" where
  "use_auto_precharge Open = False"
| "use_auto_precharge Closed = True"

datatype refresh_policy = AllBank | PerBank

fun uses_all_bank_refresh :: "refresh_policy \<Rightarrow> bool" where
  "uses_all_bank_refresh AllBank = True"
| "uses_all_bank_refresh PerBank = False"

fun all_bank_command :: "refresh_policy \<Rightarrow> hbm_command" where
  "all_bank_command AllBank = hbm_command.RefreshAllBank"
| "all_bank_command PerBank = hbm_command.RefreshAllBank"

fun per_bank_command :: "refresh_policy \<Rightarrow> hbm_command" where
  "per_bank_command AllBank = hbm_command.RefreshPerBank"
| "per_bank_command PerBank = hbm_command.RefreshPerBank"

fun manager_duration :: "refresh_policy \<Rightarrow> hbm_timing_spec \<Rightarrow> sim_time" where
  "manager_duration AllBank spec = t_rfc spec"
| "manager_duration PerBank spec = t_rfcpb spec"

definition refresh_duration :: "refresh_policy \<Rightarrow> hbm_timing_spec \<Rightarrow> sim_time" where
  "refresh_duration policy spec = (if policy = AllBank then t_rfc spec else t_rfcpb spec)"

lemma refresh_duration_manager: "refresh_duration p spec = manager_duration p spec"
  by (cases p) (simp_all add: refresh_duration_def)

section \<open>The planner\<close>

definition requested_command :: "hbm_op \<Rightarrow> bool \<Rightarrow> hbm_command" where
  "requested_command op auto_precharge =
     (if op = hbm_op.Read then (if auto_precharge then hbm_command.ReadAuto else hbm_command.Read)
      else (if auto_precharge then hbm_command.WriteAuto else hbm_command.Write))"

text \<open>The second overload of \<^verbatim>\<open>HbmCommandPlanner::next\<close>.\<close>

definition plan_command ::
    "hbm_standard option \<Rightarrow> hbm_command \<Rightarrow> u32 \<Rightarrow> hbm_bank_state \<Rightarrow> bool \<Rightarrow> command_decision result"
where
  "plan_command standard requested row b any_open =
     (case standard of
        Some std \<Rightarrow> resolve_prerequisite std requested row b any_open
      | None \<Rightarrow> Inr (
          if requested = hbm_command.RefreshAllBank \<or> requested = hbm_command.RfmAllBank then
            (if any_open then decision PreAll Channel False else decision requested Channel True)
          else if requested = hbm_command.RefreshPerBank \<or> requested = hbm_command.RfmPerBank then
            (if open_row b \<noteq> None then decision PreBank Bank False
             else decision requested Bank True)
          else if precharge_pending b \<or>
              (case open_row b of None \<Rightarrow> False | Some r \<Rightarrow> r \<noteq> row)
            then decision PreBank Bank False
          else if open_row b = None \<and> (requested = hbm_command.Read \<or> requested = hbm_command.Write \<or>
              requested = hbm_command.ReadAuto \<or> requested = hbm_command.WriteAuto)
            then decision Act Bank False
          else decision requested Bank True))"

text \<open>The first overload, for the access of a transaction.\<close>

definition plan_access ::
    "hbm_standard option \<Rightarrow> hbm_op \<Rightarrow> u32 \<Rightarrow> hbm_bank_state \<Rightarrow> bool \<Rightarrow> hbm_command result" where
  "plan_access standard op row b auto_precharge =
     (let requested = requested_command op auto_precharge in
      case standard of
        None \<Rightarrow> Inr (
          if precharge_pending b \<or> (case open_row b of None \<Rightarrow> False | Some r \<Rightarrow> r \<noteq> row)
          then PreBank
          else if open_row b = None then Act else requested)
      | Some _ \<Rightarrow>
          ebind (plan_command standard requested row b (bank_open b)) (\<lambda>d. Inr (cd_command d)))"

lemma requested_is_data [simp]: "is_data_command (requested_command op auto)"
  by (simp add: requested_command_def is_data_command_def)

lemma data_not_row [simp]:
  "\<not> is_data_command Act" "\<not> is_data_command PreBank" "\<not> is_data_command PreAll"
  "\<not> is_data_command Count"
  by (simp_all add: is_data_command_def)

lemma requested_not_row [simp]:
  "requested_command op auto \<noteq> Act" "requested_command op auto \<noteq> PreBank"
  "requested_command op auto \<noteq> PreAll" "requested_command op auto \<noteq> Count"
  by (simp_all add: requested_command_def)

text \<open>The planned command, with and without a standard, in one equation.\<close>

lemma plan_access_cases:
  "plan_access standard op row b auto = Inr (
     if (standard = None \<and> precharge_pending b) \<or>
        (case open_row b of None \<Rightarrow> False | Some r \<Rightarrow> r \<noteq> row) then PreBank
     else if open_row b = None then Act else requested_command op auto)"
proof (cases standard)
  case None
  then show ?thesis by (simp add: plan_access_def Let_def)
next
  case (Some std)
  have "supports std (requested_command op auto)" by (simp add: supports_data)
  with Some show ?thesis
    by (simp add: plan_access_def plan_command_def Let_def resolve_prerequisite_cases
        split: option.split)
qed

lemma plan_access_data_iff:
  "plan_access standard op row b auto = Inr c \<Longrightarrow>
   is_data_command c \<longleftrightarrow> open_row b = Some row \<and> \<not> (standard = None \<and> precharge_pending b)"
  by (cases "open_row b") (auto simp: plan_access_cases split: if_splits)

text \<open>The built-in planner and the tables of a standard agree on banks without a pending precharge.\<close>

lemma plan_command_standard_eq:
  assumes "supports std requested" and "\<not> precharge_pending b"
    and "is_data_command requested \<or> bank_maintenance requested \<or> channel_maintenance requested"
  shows "plan_command (Some std) requested row b any_open = plan_command None requested row b any_open"
  using assms
  by (auto simp: plan_command_def resolve_prerequisite_cases is_data_command_def
      bank_maintenance_def channel_maintenance_def split: option.split)

section \<open>Planned chains end\<close>

text \<open>
  Carry a planned command out on the bank it addresses, as the standard's transition table does,
  and plan again, until the request itself is planned.
\<close>

fun plan_chain ::
    "nat \<Rightarrow> hbm_standard \<Rightarrow> hbm_command \<Rightarrow> u32 \<Rightarrow> hbm_bank_state \<Rightarrow> hbm_command list result" where
  "plan_chain 0 std requested row b = Inr []"
| "plan_chain (Suc n) std requested row b =
     ebind (plan_command (Some std) requested row b (bank_open b)) (\<lambda>d.
     if final_command d then Inr [cd_command d]
     else ebind (std_apply_transition std (cd_command d) row b) (\<lambda>b'.
     ebind (plan_chain n std requested row b') (\<lambda>cs. Inr (cd_command d # cs))))"

lemma apply_transition_simps:
  "std_apply_transition std Act row b = Inr (b\<lparr>open_row := Some row, precharge_pending := False\<rparr>)"
  "std_apply_transition std PreBank row b = Inr (b\<lparr>open_row := None, precharge_pending := False\<rparr>)"
  "std_apply_transition std PreAll row b = Inr (b\<lparr>open_row := None, precharge_pending := False\<rparr>)"
  by (simp_all add: std_apply_transition_def transition_for_supported supports_common
      common_support_def effect_of_def apply_rule_def)

text \<open>
  A data command needs at most a precharge and an activation; a refresh or RFM command at most
  one precharge.
\<close>

lemma plan_chain_data:
  assumes "is_data_command c"
  shows "plan_chain (Suc (Suc (Suc n))) std c row b = Inr (
    case open_row b of
      None \<Rightarrow> [Act, c]
    | Some r \<Rightarrow> if r \<noteq> row then [PreBank, Act, c] else [c])"
  using assms supports_data [OF assms, of std]
  by (auto simp: plan_command_def resolve_prerequisite_cases apply_transition_simps
      split: option.split)

lemma plan_chain_maintenance:
  assumes "supports std c" and "bank_maintenance c \<or> channel_maintenance c"
  shows "plan_chain (Suc (Suc n)) std c row b = Inr (
    if bank_open b then [if bank_maintenance c then PreBank else PreAll, c] else [c])"
  using assms
  by (auto simp: plan_command_def resolve_prerequisite_cases apply_transition_simps bank_open_def
      is_data_command_def bank_maintenance_def channel_maintenance_def)

end
