(* ===== verification/Scheduler.thy ===== *)
theory Scheduler
  imports Prelude Hbm_Types
begin

text \<open>
  \<^verbatim>\<open>include/hbmsim/controller/scheduler.h\<close> and
  \<^verbatim>\<open>src/controller/scheduler.cpp\<close>: the candidates a controller offers and the three
  policies that select one. Each policy is \<^verbatim>\<open>std::min_element\<close> under a comparator;
  the interface locale states what the standard library asks of a comparator (a strict weak
  order), proves the selection correct once, and is interpreted by each policy.
\<close>

datatype scheduler_kind = FrFcfs | FrFcfsRowHit | Fifo

record scheduler_candidate =
  queue_index :: nat
  is_write :: bool
  sc_command :: dram_command
  ready_at :: sim_time
  sc_sequence :: u64
  row_hit :: bool
  data_command :: bool
  request_priority :: u8

text \<open>The lambdas passed to \<^verbatim>\<open>std::min_element\<close>.\<close>

definition command_rank :: "scheduler_candidate \<Rightarrow> nat" where
  "command_rank c = (if data_command c then (if row_hit c then 3 else 2) else 1)"

definition frfcfs_less :: "sim_time \<Rightarrow> scheduler_candidate \<Rightarrow> scheduler_candidate \<Rightarrow> bool" where
  "frfcfs_less now l r =
     (let left_ready = ready_at l \<le> now; right_ready = ready_at r \<le> now in
      if left_ready \<noteq> right_ready then left_ready
      else if \<not> left_ready \<and> ready_at l \<noteq> ready_at r then ready_at l < ready_at r
      else if request_priority l \<noteq> request_priority r then request_priority l > request_priority r
      else if command_rank l \<noteq> command_rank r then command_rank l > command_rank r
      else sc_sequence l < sc_sequence r)"

definition row_hit_less :: "sim_time \<Rightarrow> scheduler_candidate \<Rightarrow> scheduler_candidate \<Rightarrow> bool" where
  "row_hit_less now l r =
     (let left_ready = ready_at l \<le> now; right_ready = ready_at r \<le> now in
      if left_ready \<noteq> right_ready then left_ready
      else if \<not> left_ready \<and> ready_at l \<noteq> ready_at r then ready_at l < ready_at r
      else if request_priority l \<noteq> request_priority r then request_priority l > request_priority r
      else if row_hit l \<noteq> row_hit r then row_hit l
      else sc_sequence l < sc_sequence r)"

definition fifo_less :: "scheduler_candidate \<Rightarrow> scheduler_candidate \<Rightarrow> bool" where
  "fifo_less l r \<longleftrightarrow> sc_sequence l < sc_sequence r"

fun scheduler_less :: "scheduler_kind \<Rightarrow> sim_time \<Rightarrow> scheduler_candidate \<Rightarrow> scheduler_candidate \<Rightarrow> bool"
where
  "scheduler_less FrFcfs now = frfcfs_less now"
| "scheduler_less FrFcfsRowHit now = row_hit_less now"
| "scheduler_less Fifo now = fifo_less"

text \<open>\<^verbatim>\<open>std::min_element\<close>: one pass that keeps the first smallest element so far.\<close>

fun min_from :: "('a \<Rightarrow> 'a \<Rightarrow> bool) \<Rightarrow> 'a \<Rightarrow> 'a list \<Rightarrow> 'a" where
  "min_from lt best [] = best"
| "min_from lt best (x # xs) = min_from lt (if lt x best then x else best) xs"

definition scheduler_choose :: "scheduler_kind \<Rightarrow> scheduler_candidate list \<Rightarrow> sim_time \<Rightarrow> scheduler_candidate option"
where
  "scheduler_choose kind candidates now = (case candidates of
     [] \<Rightarrow> None
   | c # cs \<Rightarrow> Some (min_from (scheduler_less kind now) c cs))"

section \<open>Selection under a strict weak order\<close>

locale comparator =
  fixes lt :: "'a \<Rightarrow> 'a \<Rightarrow> bool"
  assumes irreflexive: "\<not> lt x x"
    and transitive: "lt x y \<Longrightarrow> lt y z \<Longrightarrow> lt x z"
    and incomparable: "\<not> lt x y \<Longrightarrow> \<not> lt y z \<Longrightarrow> \<not> lt x z"
begin

lemma asymmetric: "lt x y \<Longrightarrow> \<not> lt y x"
  using irreflexive transitive by blast

lemma min_from_member: "min_from lt b xs \<in> set (b # xs)"
  by (induction xs arbitrary: b) (simp, fastforce)

lemma min_from_least: "x \<in> set (b # xs) \<Longrightarrow> \<not> lt x (min_from lt b xs)"
proof (induction xs arbitrary: b x)
  case Nil
  then show ?case by (simp add: irreflexive)
next
  case (Cons y ys)
  let ?m = "min_from lt (if lt y b then y else b) ys"
  have head: "\<not> lt (if lt y b then y else b) ?m" by (rule Cons.IH) simp
  have "\<not> lt b ?m" "\<not> lt y ?m"
    using head incomparable [of y b ?m] transitive [of b y ?m] transitive [of y b ?m]
    by (auto split: if_splits dest: asymmetric intro: incomparable)
  with Cons.prems Cons.IH [where b = "if lt y b then y else b"] show ?case by auto
qed

text \<open>Among equivalent candidates the first in queue order wins.\<close>

lemma min_from_first:
  "\<exists>i < length (b # xs). min_from lt b xs = (b # xs) ! i \<and>
     (\<forall>j < i. lt (min_from lt b xs) ((b # xs) ! j))"
proof (induction xs arbitrary: b)
  case Nil
  then show ?case by simp
next
  case (Cons y ys)
  show ?case
  proof (cases "lt y b")
    case True
    obtain i where i: "i < length (y # ys)" "min_from lt y ys = (y # ys) ! i"
      "\<forall>j < i. lt (min_from lt y ys) ((y # ys) ! j)"
      using Cons.IH [of y] by blast
    have "lt (min_from lt y ys) b"
      using True min_from_least [of y y ys] incomparable [of y "min_from lt y ys" b]
        asymmetric incomparable transitive by (metis list.set_intros(1))
    then have "\<forall>j < Suc i. lt (min_from lt y ys) ((b # y # ys) ! j)"
      using i(3) by (auto simp: less_Suc_eq_0_disj)
    with i True show ?thesis by (intro exI [of _ "Suc i"]) simp
  next
    case False
    obtain i where i: "i < length (b # ys)" "min_from lt b ys = (b # ys) ! i"
      "\<forall>j < i. lt (min_from lt b ys) ((b # ys) ! j)"
      using Cons.IH [of b] by blast
    show ?thesis
    proof (cases i)
      case 0
      with i False show ?thesis by (intro exI [of _ 0]) simp
    next
      case (Suc k)
      have b: "lt (min_from lt b ys) b" using i(3) Suc by force
      then have "lt (min_from lt b ys) y"
        using False incomparable transitive by blast
      with b i Suc False show ?thesis
        by (intro exI [of _ "Suc i"]) (auto simp: less_Suc_eq_0_disj nth_Cons split: nat.splits)
    qed
  qed
qed

end

text \<open>
  The three policies order candidates by a lexicographic key, so their comparators are strict
  weak orders.
\<close>

definition ready_class :: "sim_time \<Rightarrow> scheduler_candidate \<Rightarrow> nat" where
  "ready_class now c = (if ready_at c \<le> now then 0 else Suc (unat (ready_at c)))"

definition key_less :: "nat \<times> nat \<times> nat \<times> nat \<Rightarrow> nat \<times> nat \<times> nat \<times> nat \<Rightarrow> bool" where
  "key_less k k' \<longleftrightarrow> (case (k, k') of ((a, b, c, d), (a', b', c', d')) \<Rightarrow>
     a < a' \<or> a = a' \<and> (b < b' \<or> b = b' \<and> (c < c' \<or> c = c' \<and> d < d')))"

definition scheduler_key :: "scheduler_kind \<Rightarrow> sim_time \<Rightarrow> scheduler_candidate \<Rightarrow> nat \<times> nat \<times> nat \<times> nat"
where
  "scheduler_key kind now c = (case kind of
     FrFcfs \<Rightarrow> (ready_class now c, 255 - unat (request_priority c), 3 - command_rank c,
       unat (sc_sequence c))
   | FrFcfsRowHit \<Rightarrow> (ready_class now c, 255 - unat (request_priority c),
       if row_hit c then 0 else 1, unat (sc_sequence c))
   | Fifo \<Rightarrow> (0, 0, 0, unat (sc_sequence c)))"

lemma unat_u8_le: "unat (x :: u8) \<le> 255"
  using unsigned_less [of x, where ?'a = nat] by simp

lemma priority_less: "255 - unat (x :: u8) < 255 - unat y \<longleftrightarrow> y < x"
  "255 - unat x = 255 - unat y \<longleftrightarrow> x = y"
  using unat_u8_le [of x] unat_u8_le [of y] by (auto simp: word_less_nat_alt word_unat_eq_iff)

lemma rank_less: "3 - command_rank x < 3 - command_rank y \<longleftrightarrow> command_rank y < command_rank x"
  "3 - command_rank x = 3 - command_rank y \<longleftrightarrow> command_rank x = command_rank y"
  by (auto simp: command_rank_def)

lemma ready_class_less:
  "ready_class now x < ready_class now y \<longleftrightarrow>
     (if (ready_at x \<le> now) \<noteq> (ready_at y \<le> now) then ready_at x \<le> now
      else \<not> ready_at x \<le> now \<and> ready_at x < ready_at y)"
  "ready_class now x = ready_class now y \<longleftrightarrow>
     (ready_at x \<le> now) = (ready_at y \<le> now) \<and> (ready_at x \<le> now \<or> ready_at x = ready_at y)"
  by (auto simp: ready_class_def word_less_nat_alt word_unat_eq_iff)

lemma scheduler_less_key:
  "scheduler_less kind now x y \<longleftrightarrow> key_less (scheduler_key kind now x) (scheduler_key kind now y)"
proof (cases kind)
  case FrFcfs
  show ?thesis
    unfolding FrFcfs by (simp only: scheduler_less.simps frfcfs_less_def key_less_def
        scheduler_key_def scheduler_kind.case prod.case ready_class_less priority_less rank_less
        Let_def word_less_nat_alt) auto
next
  case FrFcfsRowHit
  show ?thesis
    unfolding FrFcfsRowHit by (simp only: scheduler_less.simps row_hit_less_def key_less_def
        scheduler_key_def scheduler_kind.case prod.case ready_class_less priority_less
        Let_def word_less_nat_alt) auto
next
  case Fifo
  then show ?thesis
    by (simp add: fifo_less_def key_less_def scheduler_key_def word_less_nat_alt)
qed

interpretation policy: comparator "scheduler_less kind now" for kind now
proof unfold_locales
  fix x y z
  show "\<not> scheduler_less kind now x x"
    by (simp add: scheduler_less_key key_less_def split: prod.split)
  show "scheduler_less kind now x y \<Longrightarrow> scheduler_less kind now y z \<Longrightarrow> scheduler_less kind now x z"
    by (auto simp: scheduler_less_key key_less_def split: prod.splits)
  show "\<not> scheduler_less kind now x y \<Longrightarrow> \<not> scheduler_less kind now y z \<Longrightarrow>
      \<not> scheduler_less kind now x z"
    unfolding scheduler_less_key key_less_def by (auto split: prod.splits)
qed

lemma choose_None [simp]: "scheduler_choose kind cs now = None \<longleftrightarrow> cs = []"
  by (simp add: scheduler_choose_def split: list.split)

lemma choose_member: "scheduler_choose kind cs now = Some c \<Longrightarrow> c \<in> set cs"
  using policy.min_from_member by (auto simp: scheduler_choose_def split: list.splits)

lemma choose_least: "scheduler_choose kind cs now = Some c \<Longrightarrow> x \<in> set cs \<Longrightarrow> \<not> scheduler_less kind now x c"
  using policy.min_from_least by (auto simp: scheduler_choose_def split: list.splits)

end
