(* ===== verification/Event_Queue.thy ===== *)
theory Event_Queue
  imports Prelude
begin

text \<open>
  \<^verbatim>\<open>include/hbmsim/kernel/sim_scheduler.h\<close>, \<^verbatim>\<open>event_queue.h\<close> and
  \<^verbatim>\<open>src/kernel/event_queue.cpp\<close>: the discrete-event queue that owns simulated time.
  Callbacks are values of a type \<open>'cb\<close>; what running one does to the queue and to the rest of
  the program is a parameter \<open>exec\<close> of the functions that dispatch. The contract of
  \<^verbatim>\<open>ISimScheduler\<close> is the interface locale \<open>sim_scheduler\<close>: an agenda of pending events in
  dispatch order, which \<open>EventQueue\<close> implements.
\<close>

section \<open>The queue\<close>

type_synonym event_key = "sim_time \<times> u64"
type_synonym event_token = u64

record 'cb event =
  ev_time :: sim_time
  ev_sequence :: u64
  ev_token :: event_token
  ev_callback :: 'cb

text \<open>\<^verbatim>\<open>events_\<close> is a \<^verbatim>\<open>std::map\<close>: the entries in the order of their keys.\<close>

record 'cb event_queue =
  eq_now :: sim_time
  next_sequence :: u64
  next_token :: event_token
  events :: "(event_key \<times> 'cb event) list"
  tokens :: "event_token \<rightharpoonup> event_key"

definition empty_queue :: "'cb event_queue" where
  "empty_queue = \<lparr>eq_now = 0, next_sequence = 0, next_token = 1, events = [], tokens = Map.empty\<rparr>"

definition key_before :: "event_key \<Rightarrow> event_key \<Rightarrow> bool" where
  "key_before k k' \<longleftrightarrow> fst k < fst k' \<or> fst k = fst k' \<and> snd k < snd k'"

text \<open>\<^verbatim>\<open>emplace\<close> keeps an entry that is already there.\<close>

fun map_emplace :: "event_key \<Rightarrow> 'v \<Rightarrow> (event_key \<times> 'v) list \<Rightarrow> (event_key \<times> 'v) list" where
  "map_emplace k v [] = [(k, v)]"
| "map_emplace k v ((k', v') # es) =
     (if key_before k k' then (k, v) # (k', v') # es
      else if k = k' then (k', v') # es else (k', v') # map_emplace k v es)"

definition map_erase :: "event_key \<Rightarrow> (event_key \<times> 'v) list \<Rightarrow> (event_key \<times> 'v) list" where
  "map_erase k es = filter (\<lambda>(k', v). k' \<noteq> k) es"

definition schedule_at ::
    "'cb event_queue \<Rightarrow> sim_time \<Rightarrow> 'cb \<Rightarrow> (event_token \<times> 'cb event_queue) result" where
  "schedule_at q when callback =
     (if when < eq_now q
      then Inl (InvalidArgument ''cannot schedule an event in the past'')
      else let token = next_token q; key = (when, next_sequence q);
             e = \<lparr>ev_time = when, ev_sequence = next_sequence q, ev_token = token,
                  ev_callback = callback\<rparr>
        in Inr (token, q\<lparr>next_token := next_token q + 1, next_sequence := next_sequence q + 1,
             events := map_emplace key e (events q),
             tokens := (case tokens q token of None \<Rightarrow> (tokens q)(token \<mapsto> key)
                        | Some _ \<Rightarrow> tokens q)\<rparr>))"

definition cancel :: "'cb event_queue \<Rightarrow> event_token \<Rightarrow> bool \<times> 'cb event_queue" where
  "cancel q token = (case tokens q token of
     None \<Rightarrow> (False, q)
   | Some key \<Rightarrow> (True, q\<lparr>events := map_erase key (events q),
                          tokens := (tokens q)(token := None)\<rparr>))"

definition queue_empty :: "'cb event_queue \<Rightarrow> bool" where
  "queue_empty q \<longleftrightarrow> events q = []"

definition next_time :: "'cb event_queue \<Rightarrow> sim_time result" where
  "next_time q = (case events q of
     [] \<Rightarrow> Inl (LogicError ''event queue is empty'')
   | (k, e) # _ \<Rightarrow> Inr (ev_time e))"

text \<open>The first half of \<^verbatim>\<open>dispatch_one\<close>: take the first event off and advance the clock.\<close>

definition pop_event :: "'cb event_queue \<Rightarrow> ('cb event \<times> 'cb event_queue) option" where
  "pop_event q = (case events q of
     [] \<Rightarrow> None
   | (k, e) # es \<Rightarrow> Some (e, q\<lparr>events := es, tokens := (tokens q)(ev_token e := None),
                                eq_now := ev_time e\<rparr>))"

type_synonym ('cb, 'w) executor =
  "'cb \<Rightarrow> 'cb event_queue \<Rightarrow> 'w \<Rightarrow> ('cb event_queue \<times> 'w) result"

definition dispatch_one ::
    "('cb, 'w) executor \<Rightarrow> 'cb event_queue \<Rightarrow> 'w \<Rightarrow> ('cb event_queue \<times> 'w) result" where
  "dispatch_one exec q w = (case pop_event q of
     None \<Rightarrow> Inr (q, w)
   | Some (e, q') \<Rightarrow> exec (ev_callback e) q' w)"

definition run_next ::
    "('cb, 'w) executor \<Rightarrow> 'cb event_queue \<Rightarrow> 'w \<Rightarrow> (bool \<times> 'cb event_queue \<times> 'w) result" where
  "run_next exec q w = (if events q = [] then Inr (False, q, w)
     else ebind (dispatch_one exec q w) (\<lambda>(q', w'). Inr (True, q', w')))"

text \<open>
  The loops may not end, since callbacks schedule further events: \<open>None\<close> means that the call
  does not return.
\<close>

partial_function (option) run ::
    "('cb, 'w) executor \<Rightarrow> 'cb event_queue \<Rightarrow> 'w \<Rightarrow> ('cb event_queue \<times> 'w) result option" where
  "run exec q w =
     (if events q = [] then Some (Inr (q, w))
      else case dispatch_one exec q w of
        Inl x \<Rightarrow> Some (Inl x)
      | Inr p \<Rightarrow> run exec (fst p) (snd p))"

partial_function (option) run_until_loop ::
    "('cb, 'w) executor \<Rightarrow> sim_time \<Rightarrow> 'cb event_queue \<Rightarrow> 'w
     \<Rightarrow> ('cb event_queue \<times> 'w) result option" where
  "run_until_loop exec until q w =
     (if events q = [] \<or> \<not> ev_time (snd (hd (events q))) \<le> until
      then Some (Inr (q\<lparr>eq_now := until\<rparr>, w))
      else case dispatch_one exec q w of
        Inl x \<Rightarrow> Some (Inl x)
      | Inr p \<Rightarrow> run_until_loop exec until (fst p) (snd p))"

declare run.simps [code] run_until_loop.simps [code]

definition run_until ::
    "('cb, 'w) executor \<Rightarrow> 'cb event_queue \<Rightarrow> 'w \<Rightarrow> sim_time
     \<Rightarrow> ('cb event_queue \<times> 'w) result option" where
  "run_until exec q w until =
     (if until < eq_now q
      then Some (Inl (InvalidArgument ''cannot run an event queue backwards in time''))
      else run_until_loop exec until q w)"

section \<open>Well-formed queues\<close>

lemma key_before_irrefl [simp]: "\<not> key_before k k"
  by (simp add: key_before_def)

lemma key_before_trans: "key_before k l \<Longrightarrow> key_before l m \<Longrightarrow> key_before k m"
  by (auto simp: key_before_def)

lemma key_before_total: "key_before k l \<or> k = l \<or> key_before l k"
  by (auto simp: key_before_def prod_eq_iff)

lemma sorted_keys_distinct: "sorted_wrt key_before ks \<Longrightarrow> distinct ks"
  by (induction ks) auto

text \<open>
  Keys ascend; each event sits under its own key, lies no earlier than the clock and is known
  under its token; tokens and sequence numbers are below their counters.
\<close>

definition event_ok :: "'cb event_queue \<Rightarrow> event_key \<Rightarrow> 'cb event \<Rightarrow> bool" where
  "event_ok q k e \<longleftrightarrow> k = (ev_time e, ev_sequence e) \<and> eq_now q \<le> ev_time e \<and>
     ev_sequence e < next_sequence q \<and> ev_token e < next_token q \<and>
     tokens q (ev_token e) = Some k"

definition queue_inv :: "'cb event_queue \<Rightarrow> bool" where
  "queue_inv q \<longleftrightarrow>
     sorted_wrt key_before (map fst (events q)) \<and>
     (\<forall>x\<in>set (events q). event_ok q (fst x) (snd x)) \<and>
     (\<forall>t. tokens q t \<noteq> None \<longrightarrow> (\<exists>x\<in>set (events q). ev_token (snd x) = t))"

lemma queue_invD:
  assumes "queue_inv q"
  shows "sorted_wrt key_before (map fst (events q))" and "distinct (map fst (events q))"
    and "x \<in> set (events q) \<Longrightarrow> event_ok q (fst x) (snd x)"
    and "tokens q t \<noteq> None \<Longrightarrow> \<exists>x\<in>set (events q). ev_token (snd x) = t"
proof -
  show s: "sorted_wrt key_before (map fst (events q))"
    using assms by (simp add: queue_inv_def)
  then show "distinct (map fst (events q))"
    by (rule sorted_keys_distinct)
qed (use assms in \<open>auto simp: queue_inv_def\<close>)

text \<open>The two counters have not reached their last value.\<close>

definition queue_room :: "'cb event_queue \<Rightarrow> bool" where
  "queue_room q \<longleftrightarrow> next_token q \<noteq> u64_max \<and> next_sequence q \<noteq> u64_max"

lemma queue_inv_empty: "queue_inv empty_queue"
  by (simp add: queue_inv_def empty_queue_def)

lemma set_map_emplace:
  "k \<notin> fst ` set es \<Longrightarrow> set (map_emplace k v es) = insert (k, v) (set es)"
  by (induction k v es rule: map_emplace.induct) auto

lemma sorted_map_emplace:
  "sorted_wrt key_before (map fst es) \<Longrightarrow> sorted_wrt key_before (map fst (map_emplace k v es))"
proof (induction k v es rule: map_emplace.induct)
  case (1 k v)
  then show ?case by simp
next
  case (2 k v k' v' es)
  consider "key_before k k'" | "k = k'" | "key_before k' k" using key_before_total by blast
  then show ?case
  proof cases
    case 1
    with 2 show ?thesis by (auto intro: key_before_trans)
  next
    case 3
    then have "\<not> key_before k k'" "k \<noteq> k'" using key_before_trans by fastforce+
    moreover have "set (map_emplace k v es) \<subseteq> insert (k, v) (set es)"
      by (induction k v es rule: map_emplace.induct) auto
    ultimately show ?thesis using 2 3 by auto
  qed (use 2 in simp)
qed

lemma sorted_map_erase:
  "sorted_wrt key_before (map fst es) \<Longrightarrow> sorted_wrt key_before (map fst (map_erase k es))"
  by (induction es) (auto simp: map_erase_def)

lemma u64_less_succ: "n \<noteq> u64_max \<Longrightarrow> (m :: u64) < n \<Longrightarrow> m < n + 1" "n \<noteq> u64_max \<Longrightarrow> n < n + (1 :: u64)"
proof -
  assume n: "n \<noteq> u64_max"
  then have "unat n \<noteq> 2 ^ 64 - 1" using unat_u64_max by (metis word_unat_eq_iff)
  then have "unat (n + 1) = unat n + 1" using unat_u64_lt [of n] by (simp add: unat_add_u64)
  then show "m < n \<Longrightarrow> m < n + 1" and "n < n + 1" by (simp_all add: word_less_nat_alt)
qed

lemma token_fresh: "queue_inv q \<Longrightarrow> tokens q (next_token q) = None"
proof (rule ccontr)
  assume q: "queue_inv q" and "tokens q (next_token q) \<noteq> None"
  then obtain x where "x \<in> set (events q)" "ev_token (snd x) = next_token q"
    using queue_invD(4) [OF q] by blast
  with queue_invD(3) [OF q, of x] show False by (simp add: event_ok_def)
qed

lemma key_fresh: "queue_inv q \<Longrightarrow> (t, next_sequence q) \<notin> fst ` set (events q)"
  using queue_invD(3) [of q] by (force simp: event_ok_def)

lemma schedule_at_Inr:
  assumes "queue_inv q" and "schedule_at q w cb = Inr (token, q')"
  defines "key \<equiv> (w, next_sequence q)"
    and "e \<equiv> \<lparr>ev_time = w, ev_sequence = next_sequence q, ev_token = next_token q,
      ev_callback = cb\<rparr>"
  shows "eq_now q \<le> w" and "token = next_token q"
    and "q' = q\<lparr>next_token := next_token q + 1, next_sequence := next_sequence q + 1,
      events := map_emplace key e (events q), tokens := (tokens q)(next_token q \<mapsto> key)\<rparr>"
  using assms(2) token_fresh [OF assms(1)]
  by (auto simp: schedule_at_def Let_def key_def e_def split: if_splits)

lemma schedule_at_inv:
  assumes "queue_inv q" and "queue_room q" and "schedule_at q w cb = Inr (token, q')"
  shows "queue_inv q'" and "tokens q token = None" and "eq_now q' = eq_now q"
proof -
  note sc = schedule_at_Inr [OF assms(1,3)]
  note set_events = set_map_emplace [OF key_fresh [OF assms(1)]]
  show "tokens q token = None" using token_fresh [OF assms(1)] sc(2) by simp
  show "eq_now q' = eq_now q" by (simp add: sc(3))
  have room: "next_token q \<noteq> u64_max" "next_sequence q \<noteq> u64_max"
    using assms(2) by (simp_all add: queue_room_def)
  note grow = u64_less_succ [OF room(1)] u64_less_succ [OF room(2)]
  have "event_ok q' (fst x) (snd x)" if x: "x \<in> set (events q')" for x
  proof (cases "x \<in> set (events q)")
    case True
    then have ok: "event_ok q (fst x) (snd x)" by (rule queue_invD(3) [OF assms(1)])
    then have "ev_token (snd x) \<noteq> next_token q" by (auto simp: event_ok_def)
    with ok grow show ?thesis by (simp add: event_ok_def sc(3))
  next
    case False
    with x set_events [of w] have "x = ((w, next_sequence q), \<lparr>ev_time = w,
        ev_sequence = next_sequence q, ev_token = next_token q, ev_callback = cb\<rparr>)"
      by (simp add: sc(3))
    with grow sc(1) show ?thesis by (simp add: event_ok_def sc(3))
  qed
  moreover have "\<exists>x\<in>set (events q'). ev_token (snd x) = t" if "tokens q' t \<noteq> None" for t
    using that queue_invD(4) [OF assms(1), of t] set_events [of w]
    by (cases "t = next_token q") (auto simp: sc(3))
  moreover have "sorted_wrt key_before (map fst (events q'))"
    using sorted_map_emplace [OF queue_invD(1) [OF assms(1)]] by (simp add: sc(3))
  ultimately show "queue_inv q'" unfolding queue_inv_def by blast
qed

lemma event_of_token:
  assumes "queue_inv q" and "x \<in> set (events q)" and "y \<in> set (events q)"
    and "ev_token (snd x) = ev_token (snd y)"
  shows "x = y"
proof -
  have "fst x = fst y"
    using queue_invD(3) [OF assms(1,2)] queue_invD(3) [OF assms(1,3)] assms(4)
    by (simp add: event_ok_def)
  then show ?thesis
    using queue_invD(2) [OF assms(1)] assms(2,3) by (auto simp: distinct_map dest: inj_onD)
qed

text \<open>Erasing the key a token stands for removes exactly the event with that token.\<close>

lemma erase_token:
  assumes "queue_inv q" and "tokens q token = Some k"
  shows "map_erase k (events q) = filter (\<lambda>x. ev_token (snd x) \<noteq> token) (events q)"
proof -
  obtain y where y: "y \<in> set (events q)" "ev_token (snd y) = token"
    using queue_invD(4) [OF assms(1), of token] assms(2) by auto
  then have "fst y = k" using queue_invD(3) [OF assms(1) y(1)] assms(2) by (simp add: event_ok_def)
  have "fst x \<noteq> k \<longleftrightarrow> ev_token (snd x) \<noteq> token" if x: "x \<in> set (events q)" for x
  proof
    assume "fst x \<noteq> k"
    then have "x \<noteq> y" using \<open>fst y = k\<close> by auto
    then show "ev_token (snd x) \<noteq> token" using event_of_token [OF assms(1) x y(1)] y(2) by auto
  next
    assume "ev_token (snd x) \<noteq> token"
    then show "fst x \<noteq> k"
      using queue_invD(2) [OF assms(1)] x y \<open>fst y = k\<close> by (metis eq_key_imp_eq_value prod.collapse)
  qed
  then show ?thesis unfolding map_erase_def case_prod_unfold by (rule filter_cong [OF refl])
qed

lemma cancel_unknown:
  assumes "queue_inv q" and "tokens q token = None"
  shows "filter (\<lambda>x. ev_token (snd x) \<noteq> token) (events q) = events q"
  using queue_invD(3) [OF assms(1)] assms(2) by (auto simp: filter_id_conv event_ok_def)

lemma cancel_inv:
  assumes "queue_inv q" and "cancel q token = (b, q')"
  shows "queue_inv q'" and "eq_now q' = eq_now q"
    and "events q' = filter (\<lambda>x. ev_token (snd x) \<noteq> token) (events q)"
    and "b \<longleftrightarrow> token \<in> (\<lambda>x. ev_token (snd x)) ` set (events q)"
proof -
  show now: "eq_now q' = eq_now q"
    using assms(2) by (auto simp: cancel_def split: option.splits)
  have toks: "tokens q' = (tokens q)(token := None)" and cnt: "next_sequence q' = next_sequence q"
    "next_token q' = next_token q"
    using assms(2) by (auto simp: cancel_def split: option.splits)
  show evs: "events q' = filter (\<lambda>x. ev_token (snd x) \<noteq> token) (events q)"
    using assms(2) erase_token [OF assms(1)] cancel_unknown [OF assms(1)]
    by (auto simp: cancel_def split: option.splits)
  have "b \<longleftrightarrow> tokens q token \<noteq> None"
    using assms(2) by (auto simp: cancel_def split: option.splits)
  then show "b \<longleftrightarrow> token \<in> (\<lambda>x. ev_token (snd x)) ` set (events q)"
    using queue_invD(3,4) [OF assms(1)] by (force simp: event_ok_def)
  have "sorted_wrt key_before (map fst (events q'))"
    using queue_invD(1) [OF assms(1)] unfolding evs
    by (simp add: sorted_wrt_map sorted_wrt_filter)
  moreover have "\<forall>x\<in>set (events q'). event_ok q' (fst x) (snd x)"
    using queue_invD(3) [OF assms(1)] by (auto simp: evs event_ok_def now toks cnt)
  moreover have "\<exists>x\<in>set (events q'). ev_token (snd x) = t" if "tokens q' t \<noteq> None" for t
  proof -
    from that have t: "t \<noteq> token" "tokens q t \<noteq> None" by (simp_all add: toks split: if_splits)
    with queue_invD(4) [OF assms(1) t(2)] show ?thesis by (auto simp: evs simp del: split_paired_Ex)
  qed
  ultimately show "queue_inv q'" unfolding queue_inv_def by blast
qed

lemma pop_event_inv:
  assumes "queue_inv q" and "pop_event q = Some (e, q')"
  shows "queue_inv q'" and "eq_now q' = ev_time e" and "eq_now q \<le> eq_now q'"
    and "events q = ((ev_time e, ev_sequence e), e) # events q'"
proof -
  obtain k es where es: "events q = (k, e) # es" and q': "q' = q\<lparr>events := es,
      tokens := (tokens q)(ev_token e := None), eq_now := ev_time e\<rparr>"
    using assms(2) by (auto simp: pop_event_def split: list.splits)
  have ok: "event_ok q k e" using queue_invD(3) [OF assms(1), of "(k, e)"] es by simp
  then have k: "k = (ev_time e, ev_sequence e)" and le: "eq_now q \<le> ev_time e"
    by (simp_all add: event_ok_def)
  show "eq_now q' = ev_time e" "eq_now q \<le> eq_now q'"
    "events q = ((ev_time e, ev_sequence e), e) # events q'"
    using k le es q' by simp_all
  have srt: "sorted_wrt key_before (k # map fst es)" using queue_invD(1) [OF assms(1)] es by simp
  have "event_ok q' (fst x) (snd x)" if x: "x \<in> set es" for x
  proof -
    have okx: "event_ok q (fst x) (snd x)" using queue_invD(3) [OF assms(1)] x es by simp
    have before: "key_before k (fst x)" using srt x by auto
    then have "ev_token (snd x) \<noteq> ev_token e"
      using okx ok by (auto simp: event_ok_def)
    moreover have "ev_time e \<le> ev_time (snd x)"
      using before okx k by (auto simp: key_before_def event_ok_def)
    ultimately show ?thesis using okx by (simp add: event_ok_def q')
  qed
  moreover have "\<exists>x\<in>set es. ev_token (snd x) = t" if "tokens q' t \<noteq> None" for t
    using that queue_invD(4) [OF assms(1), of t] es by (auto simp: q' split: if_splits)
  ultimately show "queue_inv q'" using srt unfolding queue_inv_def by (simp add: q')
qed

section \<open>The scheduler contract\<close>

type_synonym 'cb pending_event = "event_token \<times> sim_time \<times> 'cb"

definition pe_time :: "'cb pending_event \<Rightarrow> sim_time" where
  "pe_time x = fst (snd x)"

text \<open>A new event goes after every pending event of the same or an earlier time.\<close>

definition agenda_insert :: "'cb pending_event \<Rightarrow> 'cb pending_event list \<Rightarrow> 'cb pending_event list" where
  "agenda_insert x xs =
     takeWhile (\<lambda>y. pe_time y \<le> pe_time x) xs @ x # dropWhile (\<lambda>y. pe_time y \<le> pe_time x) xs"

locale sim_scheduler =
  fixes inv :: "'s \<Rightarrow> bool"
    and room :: "'s \<Rightarrow> bool"
    and now :: "'s \<Rightarrow> sim_time"
    and sched :: "'s \<Rightarrow> sim_time \<Rightarrow> 'cb \<Rightarrow> (event_token \<times> 's) result"
    and canc :: "'s \<Rightarrow> event_token \<Rightarrow> bool \<times> 's"
    and pop :: "'s \<Rightarrow> ('cb pending_event \<times> 's) option"
    and pending :: "'s \<Rightarrow> 'cb pending_event list"
  assumes pending_sorted: "inv s \<Longrightarrow> sorted_wrt (\<lambda>x y. pe_time x \<le> pe_time y) (pending s)"
    and pending_future: "inv s \<Longrightarrow> x \<in> set (pending s) \<Longrightarrow> now s \<le> pe_time x"
    and pending_distinct: "inv s \<Longrightarrow> distinct (map fst (pending s))"
    and sched_past: "w < now s \<Longrightarrow> \<exists>msg. sched s w cb = Inl (InvalidArgument msg)"
    and sched_ok: "inv s \<Longrightarrow> room s \<Longrightarrow> now s \<le> w \<Longrightarrow> \<exists>t s'. sched s w cb = Inr (t, s') \<and> inv s' \<and>
      now s' = now s \<and> t \<notin> fst ` set (pending s) \<and> pending s' = agenda_insert (t, w, cb) (pending s)"
    and canc_ok: "inv s \<Longrightarrow> canc s t = (b, s') \<Longrightarrow> inv s' \<and> now s' = now s \<and>
      (b \<longleftrightarrow> t \<in> fst ` set (pending s)) \<and> pending s' = filter (\<lambda>x. fst x \<noteq> t) (pending s)"
    and pop_None: "inv s \<Longrightarrow> pop s = None \<longleftrightarrow> pending s = []"
    and pop_Some: "inv s \<Longrightarrow> pop s = Some (x, s') \<Longrightarrow> inv s' \<and> now s' = pe_time x \<and> pending s = x # pending s'"
begin

text \<open>Dispatching never moves the clock backwards.\<close>

lemma pop_monotone: "inv s \<Longrightarrow> pop s = Some (x, s') \<Longrightarrow> now s \<le> now s'"
  using pop_Some [of s x s'] pending_future [of s x] by (auto simp del: split_paired_All)

text \<open>A token is dead once its event was cancelled or dispatched.\<close>

lemma cancel_twice: "inv s \<Longrightarrow> canc s t = (b, s') \<Longrightarrow> fst (canc s' t) = False"
proof -
  assume "inv s" and "canc s t = (b, s')"
  note c = canc_ok [OF this]
  obtain b' s'' where c': "canc s' t = (b', s'')" by (cases "canc s' t")
  from c have "inv s'" by blast
  from canc_ok [OF this c'] c c' show ?thesis by auto
qed

lemma cancel_dispatched: "inv s \<Longrightarrow> pop s = Some (x, s') \<Longrightarrow> fst (canc s' (fst x)) = False"
proof -
  assume inv: "inv s" and "pop s = Some (x, s')"
  note p = pop_Some [OF this]
  obtain b' s'' where c': "canc s' (fst x) = (b', s'')" by (cases "canc s' (fst x)")
  from p have "inv s'" by blast
  from canc_ok [OF this c'] p c' pending_distinct [OF inv] show ?thesis by auto
qed

text \<open>Scheduling and cancelling right away leaves the agenda as it was.\<close>

lemma filter_agenda_insert:
  "fst x \<notin> fst ` set xs \<Longrightarrow> filter (\<lambda>y. fst y \<noteq> fst x) (agenda_insert x xs) = xs"
proof -
  assume "fst x \<notin> fst ` set xs"
  then have "\<forall>y\<in>set xs. fst y \<noteq> fst x" by (metis image_eqI)
  then have "filter (\<lambda>y. fst y \<noteq> fst x) (takeWhile P xs) = takeWhile P xs"
    "filter (\<lambda>y. fst y \<noteq> fst x) (dropWhile P xs) = dropWhile P xs" for P
    by (auto simp: filter_id_conv dest: set_takeWhileD set_dropWhileD)
  then show ?thesis by (simp add: agenda_insert_def)
qed

lemma schedule_cancel:
  assumes "inv s" and "room s" and "sched s w cb = Inr (t, s1)" and "canc s1 t = (b, s2)"
  shows "b" and "pending s2 = pending s"
proof -
  have "now s \<le> w" using sched_past [of w s cb] assms(3) by (force simp: not_le)
  then have s1: "inv s1" "t \<notin> fst ` set (pending s)" "pending s1 = agenda_insert (t, w, cb) (pending s)"
    using sched_ok [OF assms(1,2), of w cb] assms(3) by auto
  note c = canc_ok [OF s1(1) assms(4)]
  show b using c s1(3) by (auto simp: agenda_insert_def)
  show "pending s2 = pending s"
    using c s1 filter_agenda_insert [of "(t, w, cb)" "pending s"] by simp
qed

text \<open>Events of the same time are dispatched in the order they were scheduled.\<close>

lemma agenda_insert_split:
  "\<exists>us vs. agenda_insert x xs = us @ x # vs \<and> (\<forall>y\<in>set us. pe_time y \<le> pe_time x) \<and> xs = us @ vs"
  unfolding agenda_insert_def
  by (rule exI [of _ "takeWhile (\<lambda>y. pe_time y \<le> pe_time x) xs"],
      rule exI [of _ "dropWhile (\<lambda>y. pe_time y \<le> pe_time x) xs"])
    (auto dest: set_takeWhileD)

lemma agenda_insert_after:
  assumes "sorted_wrt (\<lambda>x y. pe_time x \<le> pe_time y) (us @ x # vs)" and "pe_time x \<le> pe_time y"
  shows "\<exists>vs' vs''. agenda_insert y (us @ x # vs) = us @ x # vs' @ y # vs''"
proof -
  have us: "\<forall>z\<in>set us. pe_time z \<le> pe_time y"
    using assms by (auto simp: sorted_wrt_append intro: order_trans)
  then have "takeWhile (\<lambda>z. pe_time z \<le> pe_time y) (us @ x # vs) =
      us @ x # takeWhile (\<lambda>z. pe_time z \<le> pe_time y) vs"
    and "dropWhile (\<lambda>z. pe_time z \<le> pe_time y) (us @ x # vs) = dropWhile (\<lambda>z. pe_time z \<le> pe_time y) vs"
    using assms(2) by (simp_all add: takeWhile_append2 dropWhile_append2)
  then show ?thesis by (simp add: agenda_insert_def) blast
qed

lemma fifo:
  assumes "inv s" and "room s" and "sched s w a = Inr (t, s1)" and "room s1"
    and "sched s1 w b = Inr (t', s2)"
  shows "\<exists>us vs ws. pending s2 = us @ (t, w, a) # vs @ (t', w, b) # ws"
proof -
  have w: "now s \<le> w" using sched_past [of w s a] assms(3) by (force simp: not_le)
  then have s1: "inv s1" "now s1 = now s" "pending s1 = agenda_insert (t, w, a) (pending s)"
    using sched_ok [OF assms(1,2), of w a] assms(3) by auto
  then have s2: "pending s2 = agenda_insert (t', w, b) (pending s1)"
    using sched_ok [OF s1(1) assms(4), of w b] assms(5) w by auto
  obtain us vs where p: "pending s1 = us @ (t, w, a) # vs"
    using s1(3) agenda_insert_split [of "(t, w, a)" "pending s"] by auto
  have "sorted_wrt (\<lambda>x y. pe_time x \<le> pe_time y) (us @ (t, w, a) # vs)"
    using pending_sorted [OF s1(1)] by (simp add: p)
  from agenda_insert_after [OF this, of "(t', w, b)"] show ?thesis
    unfolding s2 p by (auto simp: pe_time_def)
qed

end

section \<open>The queue implements the contract\<close>

definition pending_of :: "event_key \<times> 'cb event \<Rightarrow> 'cb pending_event" where
  "pending_of x = (ev_token (snd x), ev_time (snd x), ev_callback (snd x))"

definition agenda :: "'cb event_queue \<Rightarrow> 'cb pending_event list" where
  "agenda q = map pending_of (events q)"

definition pop_agenda :: "'cb event_queue \<Rightarrow> ('cb pending_event \<times> 'cb event_queue) option" where
  "pop_agenda q = map_option (\<lambda>(e, q'). ((ev_token e, ev_time e, ev_callback e), q')) (pop_event q)"

lemma map_emplace_agenda:
  assumes "\<forall>(k, e)\<in>set es. k = (ev_time e, ev_sequence e) \<and> ev_sequence e < s"
  shows "map pending_of (map_emplace (t, s) e es) =
    (let x = pending_of ((t, s), e) in
     takeWhile (\<lambda>y. pe_time y \<le> t) (map pending_of es) @ x #
     dropWhile (\<lambda>y. pe_time y \<le> t) (map pending_of es))"
  using assms
proof (induction es)
  case Nil
  then show ?case by simp
next
  case (Cons x es)
  obtain k' e' where x: "x = (k', e')" by (cases x)
  with Cons.prems have k': "k' = (ev_time e', ev_sequence e')" and lt: "ev_sequence e' < s" by auto
  from Cons have IH: "map pending_of (map_emplace (t, s) e es) =
    (let x = pending_of ((t, s), e) in
     takeWhile (\<lambda>y. pe_time y \<le> t) (map pending_of es) @ x #
     dropWhile (\<lambda>y. pe_time y \<le> t) (map pending_of es))" by simp
  have "key_before (t, s) k' \<longleftrightarrow> t < ev_time e'"
    using lt by (auto simp: key_before_def k')
  moreover have "(t, s) \<noteq> k'" using lt by (auto simp: k')
  moreover have "pe_time (pending_of x) = ev_time e'" by (simp add: x pending_of_def pe_time_def)
  moreover have "\<not> t < ev_time e' \<longleftrightarrow> ev_time e' \<le> t" by (rule not_less)
  ultimately show ?case
    using IH by (cases "t < ev_time e'") (simp_all add: x Let_def del: not_less)
qed

lemma schedule_agenda:
  assumes "queue_inv q" and "schedule_at q w cb = Inr (t, q')"
  shows "agenda q' = agenda_insert (t, w, cb) (agenda q)"
proof -
  have "\<forall>(k, e)\<in>set (events q). k = (ev_time e, ev_sequence e) \<and> ev_sequence e < next_sequence q"
  proof
    fix x assume "x \<in> set (events q)"
    from queue_invD(3) [OF assms(1) this]
    show "case x of (k, e) \<Rightarrow> k = (ev_time e, ev_sequence e) \<and> ev_sequence e < next_sequence q"
      by (simp add: event_ok_def case_prod_unfold)
  qed
  from map_emplace_agenda [OF this] show ?thesis
    using assms(2)
    by (auto simp: schedule_at_def Let_def agenda_def agenda_insert_def pending_of_def pe_time_def
        split: if_splits)
qed

lemma cancel_agenda:
  assumes "queue_inv q" and "cancel q t = (b, q')"
  shows "agenda q' = filter (\<lambda>x. fst x \<noteq> t) (agenda q)"
    and "b \<longleftrightarrow> t \<in> fst ` set (agenda q)"
  using cancel_inv(3,4) [OF assms]
  by (simp_all add: agenda_def filter_map pending_of_def comp_def image_image)

interpretation eq: sim_scheduler queue_inv queue_room eq_now schedule_at cancel pop_agenda agenda
proof unfold_locales
  fix s s' :: "'cb event_queue" and x t b w and cb :: 'cb
  assume inv: "queue_inv s"
  show "sorted_wrt (\<lambda>x y. pe_time x \<le> pe_time y) (agenda s)"
  proof -
    have "sorted_wrt (\<lambda>x y. key_before (fst x) (fst y)) (events s)"
      using queue_invD(1) [OF inv] by (simp add: sorted_wrt_map)
    then have "sorted_wrt (\<lambda>x y. ev_time (snd x) \<le> ev_time (snd y)) (events s)"
    proof (rule sorted_wrt_mono_rel [rotated])
      fix x y assume "x \<in> set (events s)" "y \<in> set (events s)" "key_before (fst x) (fst y)"
      with queue_invD(3) [OF inv, of x] queue_invD(3) [OF inv, of y]
      show "ev_time (snd x) \<le> ev_time (snd y)" by (auto simp: event_ok_def key_before_def)
    qed
    then show ?thesis by (simp add: agenda_def sorted_wrt_map pending_of_def pe_time_def)
  qed
  show "distinct (map fst (agenda s))"
  proof -
    have "distinct (events s)"
      using queue_invD(2) [OF inv] by (simp add: distinct_map)
    moreover have "inj_on (\<lambda>x. ev_token (snd x)) (set (events s))"
      using event_of_token [OF inv] by (auto simp: inj_on_def)
    ultimately show ?thesis
      by (simp add: agenda_def pending_of_def comp_def distinct_map)
  qed
  show "x \<in> set (agenda s) \<Longrightarrow> eq_now s \<le> pe_time x"
  proof -
    assume "x \<in> set (agenda s)"
    then obtain y where "y \<in> set (events s)" "x = pending_of y" by (auto simp only: agenda_def set_map)
    with queue_invD(3) [OF inv this(1)] show ?thesis
      by (simp add: event_ok_def pending_of_def pe_time_def)
  qed
  show "queue_room s \<Longrightarrow> eq_now s \<le> w \<Longrightarrow> \<exists>t s'. schedule_at s w cb = Inr (t, s') \<and>
      queue_inv s' \<and> eq_now s' = eq_now s \<and> t \<notin> fst ` set (agenda s) \<and>
      agenda s' = agenda_insert (t, w, cb) (agenda s)"
  proof -
    assume room: "queue_room s" and le: "eq_now s \<le> w"
    obtain t s' where sc: "schedule_at s w cb = Inr (t, s')"
      using le by (fastforce simp: schedule_at_def Let_def)
    have "t \<notin> fst ` set (agenda s)"
      using schedule_at_inv(2) [OF inv room sc] queue_invD(3) [OF inv]
      by (auto simp: agenda_def pending_of_def event_ok_def)
    with schedule_at_inv [OF inv room sc] schedule_agenda [OF inv sc] sc show ?thesis by blast
  qed
  show "cancel s t = (b, s') \<Longrightarrow> queue_inv s' \<and> eq_now s' = eq_now s \<and>
      b = (t \<in> fst ` set (agenda s)) \<and> agenda s' = filter (\<lambda>x. fst x \<noteq> t) (agenda s)"
  proof -
    assume c: "cancel s t = (b, s')"
    show ?thesis
      using cancel_inv(1,2) [OF inv c] cancel_agenda [OF inv c] by simp
  qed
  show "(pop_agenda s = None) = (agenda s = [])"
    by (auto simp: pop_agenda_def agenda_def pop_event_def split: list.split)
  show "pop_agenda s = Some (x, s') \<Longrightarrow>
      queue_inv s' \<and> eq_now s' = pe_time x \<and> agenda s = x # agenda s'"
  proof -
    assume "pop_agenda s = Some (x, s')"
    then obtain e where e: "pop_event s = Some (e, s')" and x: "x = (ev_token e, ev_time e, ev_callback e)"
      by (auto simp: pop_agenda_def)
    note i = pop_event_inv [OF inv e]
    have "agenda s = x # agenda s'" unfolding agenda_def i(4) x by (simp add: pending_of_def)
    with i(1,2) x show ?thesis by (simp add: pe_time_def)
  qed
next
  fix w and s :: "'cb event_queue" and cb :: 'cb
  show "w < eq_now s \<Longrightarrow> \<exists>msg. schedule_at s w cb = Inl (InvalidArgument msg)"
    by (simp add: schedule_at_def)
qed

end
