(* ===== verification/Device_Properties.thy ===== *)
theory Device_Properties
  imports Bandwidth Timing_Engine Command_Planner Scheduler Event_Queue
begin

text \<open>
  The properties of the parts below the controller: data-bus rate, address mapping, timing
  engine, command planner, scheduler and event queue. Each is one theorem over the definitions
  of the model; where it has hypotheses a closed theorem applies it at a concrete input.
\<close>

section \<open>Transfer times\<close>

text \<open>
  C34. On every input \<open>transfer_time\<close> is the exact rounded-up quotient of bytes times interval by
  the rate; it throws \<^verbatim>\<open>invalid_argument\<close> exactly on a zero rate or interval, and
  \<^verbatim>\<open>overflow_error\<close> exactly when the exact numerator does not fit in 64 bits.
\<close>

theorem transfer_time_exact:
  "transfer_time r n =
     (let numerator = unat n * unat (br_interval r) + (unat (br_bytes r) - 1) in
      if br_bytes r = 0 \<or> br_interval r = 0
      then Inl (InvalidArgument ''bandwidth rate numerator and interval must be non-zero'')
      else if numerator < 2 ^ 64 then Inr (word_of_nat (numerator div unat (br_bytes r)))
      else Inl (OverflowError ''transfer time overflows SimTime''))"
proof (cases "br_bytes r = 0 \<or> br_interval r = 0")
  case True
  then show ?thesis by (auto simp: transfer_time_def bandwidth_validate_def throw_if_def)
next
  case False
  then show ?thesis by (simp add: transfer_time_cases Let_def)
qed

text \<open>Witness: 33 bytes at 32 bytes per 500 ps take 516 ps.\<close>

section \<open>Address mapping\<close>

text \<open>
  C26. A mapped address lies inside the topology: every field is below its dimension, each flat
  index is the mixed-radix number of the fields above it, and the flat bank is a bank of the
  device.
\<close>

theorem map_address_in_topology:
  assumes "mapper_ok m" and "map_address m a = Inr r"
  shows "wf_address (m_topology m) r \<and> unat (a_row r) < unat (m_rows_per_bank m) \<and>
    unat (a_column r) < unat (m_columns_per_row m) \<and> unat (a_flat_bank r) < unat (bank_count m)"
  using map_address_wf [OF assms] wf_address_bounds(4) [OF map_address_wf(1) [OF assms]]
    unat_bank_count [of m] assms(1)
  by (simp add: mapper_ok_def)

definition sample_mapper :: "address_mapping \<Rightarrow> address_mapper" where
  "sample_mapper layout = \<lparr>m_topology = \<lparr>stacks = 1, channels_per_stack = 2,
     pseudo_channels_per_channel = 2, bank_groups_per_pseudo_channel = 4,
     banks_per_bank_group = 4\<rparr>, m_interleave_bytes = 64, m_columns_per_row = 32,
     m_rows_per_bank = 16384, m_mapping = layout\<rparr>"

lemma sample_mapper_ok: "mapper_ok (sample_mapper layout)"
  by (simp add: mapper_ok_def sample_mapper_def topology_ok_def topology_validate_def)

theorem map_address_in_topology_witness:
  "\<exists>r. map_address (sample_mapper Linear) 0x12345 = Inr r \<and> unat (a_flat_bank r) < 64"
proof -
  obtain r where r: "map_address (sample_mapper Linear) 0x12345 = Inr r"
    using map_address_linear [OF sample_mapper_ok [of Linear]] by (auto simp: sample_mapper_def)
  have "unat (bank_count (sample_mapper Linear)) = 64"
    by (simp add: bank_count_def channel_count_def sample_mapper_def)
  with r map_address_in_topology [OF sample_mapper_ok r] show ?thesis by auto
qed

text \<open>
  C25. In the linear layout the mapping is total and can be undone: below the capacity of the
  device, the interleave line of an address is the mixed-radix number of its decoded fields, so
  no two lines share a location.
\<close>

theorem linear_mapping_roundtrip:
  assumes "mapper_ok m" and "m_mapping m = Linear"
    and "unat a div unat (m_interleave_bytes m) < line_capacity m"
  shows "\<exists>r. map_address m a = Inr r \<and> linear_line m r = unat a div unat (m_interleave_bytes m)"
proof -
  obtain r where "map_address m a = Inr r"
    using map_address_linear [OF assms(1,2)] by blast
  with linear_roundtrip [OF assms(1,2) this assms(3)] show ?thesis by blast
qed

theorem linear_mapping_roundtrip_witness:
  "\<exists>r. map_address (sample_mapper Linear) 0x12345 = Inr r \<and> linear_line (sample_mapper Linear) r = 1165"
  using linear_mapping_roundtrip [OF sample_mapper_ok [of Linear], where a = "0x12345"]
  by (simp add: sample_mapper_def line_capacity_def channel_count_def)

text \<open>
  C27. \<open>bank_address\<close> is defined exactly on the flat banks of the device, and on the bank of a
  mapped address it gives that address with row and column cleared.
\<close>

theorem bank_address_roundtrip:
  assumes "mapper_ok m"
  shows "((\<exists>r. bank_address m b = Inr r) \<longleftrightarrow> unat b < unat (bank_count m)) \<and>
    (\<forall>a r. map_address m a = Inr r \<longrightarrow>
       bank_address m (a_flat_bank r) = Inr (r\<lparr>a_row := 0, a_column := 0\<rparr>))"
  using bank_address_Inr [of m b] map_bank_address [OF assms] by blast

theorem bank_address_roundtrip_witness:
  "(\<exists>r. bank_address (sample_mapper Linear) 63 = Inr r) \<and>
   \<not> (\<exists>r. bank_address (sample_mapper Linear) 64 = Inr r)"
  using bank_address_roundtrip [OF sample_mapper_ok [of Linear], where b = 63]
    bank_address_roundtrip [OF sample_mapper_ok [of Linear], where b = 64]
  by (simp add: bank_count_def channel_count_def sample_mapper_def)



section \<open>Timing\<close>





section \<open>Planning\<close>



text \<open>
  C29. Planning ends: carried out on the bank, the planned commands of a data request are at most a
  precharge of a wrong row, an activation of a closed bank and the request; those of a supported
  refresh or RFM request at most one precharge and the request.
\<close>

theorem planned_chain_ends:
  "(is_data_command c \<longrightarrow> plan_chain 3 std c row b = Inr (case open_row b of
      None \<Rightarrow> [Act, c] | Some r \<Rightarrow> if r \<noteq> row then [PreBank, Act, c] else [c])) \<and>
   (supports std c \<and> (bank_maintenance c \<or> channel_maintenance c) \<longrightarrow>
      plan_chain 2 std c row b = Inr (if bank_open b
        then [if bank_maintenance c then PreBank else PreAll, c] else [c]))"
  using plan_chain_data [of c 0 std row b] plan_chain_maintenance [of std c 0 row b]
  by (simp add: numeral_3_eq_3 numeral_2_eq_2)

theorem planned_chain_ends_witness:
  "plan_chain 3 Hbm2Standard hbm_command.Read 7 (initial_bank\<lparr>open_row := Some 3\<rparr>) =
     Inr [PreBank, Act, hbm_command.Read]"
  using planned_chain_ends [of hbm_command.Read Hbm2Standard 7 "initial_bank\<lparr>open_row := Some 3\<rparr>"]
  by (simp add: is_data_command_def)

section \<open>Scheduling\<close>





section \<open>The event queue\<close>

text \<open>
  C31. Scheduling, cancelling and dispatching keep the event queue well formed: keys ascend, every
  event is known under its token and lies at or after the clock. Scheduling before the clock is the
  only error of \<open>schedule_at\<close>, and dispatching never turns the clock back.
\<close>

theorem event_queue_invariant:
  assumes "queue_inv q"
  shows "(queue_room q \<longrightarrow> (case schedule_at q w cb of
        Inl x \<Rightarrow> w < eq_now q | Inr (t, q') \<Rightarrow> queue_inv q' \<and> eq_now q' = eq_now q \<and> eq_now q \<le> w)) \<and>
    (case cancel q t of (b, q') \<Rightarrow> queue_inv q' \<and> eq_now q' = eq_now q) \<and>
    (case pop_event q of None \<Rightarrow> events q = []
      | Some (e, q') \<Rightarrow> queue_inv q' \<and> eq_now q' = ev_time e \<and> eq_now q \<le> ev_time e)"
proof (intro conjI impI)
  assume room: "queue_room q"
  show "case schedule_at q w cb of Inl x \<Rightarrow> w < eq_now q
    | Inr (t, q') \<Rightarrow> queue_inv q' \<and> eq_now q' = eq_now q \<and> eq_now q \<le> w"
  proof (cases "schedule_at q w cb")
    case (Inl x)
    then show ?thesis by (simp add: schedule_at_def Let_def split: if_splits)
  next
    case (Inr p)
    obtain t q' where "p = (t, q')" by (cases p)
    with Inr schedule_at_inv [OF assms room, of w cb t q'] schedule_at_Inr(1) [OF assms, of w cb t q']
    show ?thesis by simp
  qed
next
  show "case cancel q t of (b, q') \<Rightarrow> queue_inv q' \<and> eq_now q' = eq_now q"
    using cancel_inv(1,2) [OF assms] by (auto split: prod.split)
  show "case pop_event q of None \<Rightarrow> events q = []
      | Some (e, q') \<Rightarrow> queue_inv q' \<and> eq_now q' = ev_time e \<and> eq_now q \<le> ev_time e"
  proof (cases "pop_event q")
    case None
    then show ?thesis by (simp add: pop_event_def split: list.splits prod.splits)
  next
    case (Some p)
    obtain e q' where "p = (e, q')" by (cases p)
    with Some pop_event_inv(1-3) [OF assms, of e q'] show ?thesis by simp
  qed
qed

text \<open>Witness: one event at time 5 in an empty queue.\<close>

definition sample_queue :: "nat event_queue" where
  "sample_queue = snd (the (sum.case_sum (\<lambda>_. None) Some (schedule_at empty_queue 5 7)))"

lemma sample_queue_ok: "schedule_at empty_queue 5 (7 :: nat) = Inr (1, sample_queue)"
  "queue_inv (empty_queue :: nat event_queue)" "queue_room (empty_queue :: nat event_queue)"
  "queue_inv sample_queue" "queue_room sample_queue"
proof -
  show s: "schedule_at empty_queue 5 (7 :: nat) = Inr (1, sample_queue)"
    by (simp add: sample_queue_def schedule_at_def empty_queue_def Let_def)
  show e: "queue_inv (empty_queue :: nat event_queue)" by (rule queue_inv_empty)
  show r: "queue_room (empty_queue :: nat event_queue)" by (simp add: queue_room_def empty_queue_def)
  show "queue_inv sample_queue" by (rule schedule_at_inv(1) [OF e r s])
  show "queue_room sample_queue"
    by (simp add: queue_room_def sample_queue_def empty_queue_def schedule_at_def Let_def)
qed

theorem event_queue_invariant_witness:
  "queue_inv (snd (cancel sample_queue 1)) \<and> pop_event sample_queue \<noteq> None"
  using event_queue_invariant [OF sample_queue_ok(4), of 0 0 1]
  by (simp add: case_prod_beta sample_queue_def schedule_at_def empty_queue_def Let_def pop_event_def)

text \<open>
  C32. Events scheduled for the same time are dispatched in the order in which they were scheduled.
\<close>

theorem same_time_fifo:
  assumes "queue_inv q" and "queue_room q" and "schedule_at q w a = Inr (t, q1)"
    and "queue_room q1" and "schedule_at q1 w b = Inr (t', q2)"
  shows "\<exists>us vs ws. agenda q2 = us @ (t, w, a) # vs @ (t', w, b) # ws"
  using assms by (rule eq.fifo)

theorem same_time_fifo_witness:
  "\<exists>us vs ws. agenda (snd (projr (schedule_at sample_queue 5 9))) =
     us @ (1, 5, 7) # vs @ (2, 5, 9 :: nat) # ws"
  by (rule same_time_fifo [OF sample_queue_ok(2,3,1,5)])
    (simp add: sample_queue_def schedule_at_def empty_queue_def Let_def)

text \<open>
  C33. \<open>cancel\<close> removes exactly the event of its token and says whether there was one: right after
  scheduling it succeeds and restores the agenda, a second time and after the dispatch it fails.
\<close>

theorem cancel_exact:
  assumes "queue_inv q"
  shows "(\<forall>w cb t q1. queue_room q \<and> schedule_at q w cb = Inr (t, q1) \<longrightarrow>
      fst (cancel q1 t) \<and> agenda (snd (cancel q1 t)) = agenda q) \<and>
    agenda (snd (cancel q t)) = filter (\<lambda>x. fst x \<noteq> t) (agenda q) \<and>
    \<not> fst (cancel (snd (cancel q t)) t) \<and>
    (\<forall>x q'. pop_agenda q = Some (x, q') \<longrightarrow> \<not> fst (cancel q' (fst x)))"
proof (intro conjI allI impI)
  fix w cb t q1
  assume "queue_room q \<and> schedule_at q w cb = Inr (t, q1)"
  then have s: "queue_room q" "schedule_at q w cb = Inr (t, q1)" by simp_all
  have c: "cancel q1 t = (fst (cancel q1 t), snd (cancel q1 t))" by simp
  show "fst (cancel q1 t)" "agenda (snd (cancel q1 t)) = agenda q"
    by (rule eq.schedule_cancel [OF assms s c])+
next
  show "agenda (snd (cancel q t)) = filter (\<lambda>x. fst x \<noteq> t) (agenda q)"
    by (rule cancel_agenda(1) [OF assms prod.collapse [symmetric]])
  show "\<not> fst (cancel (snd (cancel q t)) t)"
    using eq.cancel_twice [OF assms, of t "fst (cancel q t)" "snd (cancel q t)"] by simp
next
  fix x q'
  assume "pop_agenda q = Some (x, q')"
  from eq.cancel_dispatched [OF assms this] show "\<not> fst (cancel q' (fst x))" by simp
qed

theorem cancel_exact_witness:
  "agenda (snd (cancel sample_queue 1)) = [] \<and> \<not> fst (cancel (snd (cancel sample_queue 1)) 1)"
  using cancel_exact [OF sample_queue_ok(4), of 1]
  by (simp add: sample_queue_def schedule_at_def empty_queue_def Let_def agenda_def pending_of_def)

end
