(* ===== verification/Controller.thy ===== *)
theory Controller
  imports Timing_Engine Command_Planner Scheduler
begin

text \<open>
  \<^verbatim>\<open>include/hbmsim/controller/hbm_controller.h\<close> and
  \<^verbatim>\<open>src/controller/hbm_controller.cpp\<close>: the state of one channel controller and its
  operations. The C++ methods mutate the object; here each takes the state and returns the new
  one. The reference \<^verbatim>\<open>stats_\<close> to the counters shared by all channels is the field
  \<open>stats\<close>, which the system loads before a call and stores after it.
\<close>

section \<open>Accesses\<close>

record logical_access =
  la_parent_id :: transaction_id
  la_op :: hbm_op
  la_address :: hbm_address
  la_size_bytes :: u64
  la_arrival_time :: sim_time
  la_client :: client_id
  la_sequence :: u64
  la_metadata :: request_metadata
  la_byte_address :: u64

record hbm_access = logical_access +
  ha_access_class :: hbm_access_class
  activated :: bool
  first_command_issued :: bool
  starvation_reported :: bool
  enqueued_at :: sim_time
  first_command_at :: sim_time
  command_eligible :: bool
  command_eligible_since :: sim_time
  latency_breakdown :: hbm_latency_breakdown

record logical_completion = logical_access +
  lc_access_class :: hbm_access_class
  lc_latency_breakdown :: hbm_latency_breakdown

text \<open>\<^verbatim>\<open>static_cast<const LogicalAccess&>(item)\<close> with the two fields added.\<close>

definition to_completion :: "hbm_access \<Rightarrow> hbm_latency_breakdown \<Rightarrow> logical_completion" where
  "to_completion a l = logical_access.extend (logical_access.truncate a)
     (logical_completion.fields (ha_access_class a) l)"

text \<open>The two request coalescers, selected by \<^verbatim>\<open>make_request_coalescer\<close>.\<close>

definition same_address_read :: "'a logical_access_scheme \<Rightarrow> 'b logical_access_scheme \<Rightarrow> bool" where
  "same_address_read physical logical \<longleftrightarrow>
     la_op physical = hbm_op.Read \<and> la_op logical = hbm_op.Read \<and>
     la_byte_address physical = la_byte_address logical \<and>
     a_flat_bank (la_address physical) = a_flat_bank (la_address logical) \<and>
     a_row (la_address physical) = a_row (la_address logical) \<and>
     a_column (la_address physical) = a_column (la_address logical) \<and>
     la_size_bytes physical = la_size_bytes logical \<and>
     ordering_domain (la_metadata physical) = ordering_domain (la_metadata logical)"

definition can_merge :: "bool \<Rightarrow> 'a logical_access_scheme \<Rightarrow> 'b logical_access_scheme \<Rightarrow> bool" where
  "can_merge same_address_reads physical logical =
     (if same_address_reads then same_address_read physical logical else False)"

section \<open>The controller's state\<close>

record hbm_controller_config =
  cfg_channel :: u32
  cfg_first_flat_bank :: u32
  cfg_bank_count :: u32
  cfg_pseudo_channel_count :: u32
  cfg_timing :: hbm_timing_spec
  cfg_standard :: "hbm_standard option"
  cfg_data_rate :: bandwidth_rate
  cfg_scheduler :: scheduler_kind
  cfg_row_policy :: row_policy
  cfg_refresh_policy :: refresh_policy
  cfg_write_drain_high_watermark :: size_t
  cfg_write_drain_low_watermark :: size_t
  cfg_read_queue_capacity :: size_t
  cfg_write_queue_capacity :: size_t
  cfg_enable_request_merging :: bool
  cfg_starvation_threshold :: sim_time
  cfg_refresh_interval :: sim_time
  cfg_enable_rfm :: bool
  cfg_detailed_stats :: bool
  cfg_rfm_activation_threshold :: u32

record physical_access =
  pa_op :: hbm_op
  pa_address :: hbm_address
  pa_bytes :: u64
  pa_command :: hbm_command
  pa_issued_at :: sim_time
  pa_completion_time :: sim_time
  pa_completions :: "logical_completion list"

record controller_step =
  wake_at :: "sim_time option"
  issued_access :: "physical_access option"

record candidate =
  cand_is_write :: bool
  cand_index :: nat
  cand_command :: hbm_command
  cand_ready_at :: sim_time
  cand_priority :: nat

record maintenance_candidate =
  mc_requested :: hbm_command
  mc_command :: hbm_command
  mc_local_bank :: nat
  mc_ready_at :: sim_time
  mc_final_command :: bool

record hbm_controller =
  config :: hbm_controller_config
  mapper :: address_mapper
  stats :: hbm_stats
  engine :: timing_engine
  read_queue :: "hbm_access list"
  write_queue :: "hbm_access list"
  banks :: "hbm_bank_state list"
  data_bus_ready_at :: "sim_time list"
  unified_command_bus_ready_at :: sim_time
  row_command_bus_ready_at :: sim_time
  column_command_bus_ready_at :: sim_time
  refresh_busy_until :: sim_time
  refresh_stall_accounted_until :: sim_time
  wakeup_at :: "sim_time option"
  refresh_due_at :: "sim_time option"
  next_refresh_due :: "sim_time option"
  draining_writes :: bool
  all_bank_refresh_pending :: bool
  outstanding_accesses :: u64
  next_per_bank_refresh :: u32
  reserved_reads :: size_t
  reserved_writes :: size_t

definition make_controller ::
    "hbm_controller_config \<Rightarrow> address_mapper \<Rightarrow> hbm_stats \<Rightarrow> hbm_controller" where
  "make_controller cfg m st = \<lparr>config = cfg, mapper = m, stats = st,
     engine = make_timing_engine (cfg_timing cfg), read_queue = [], write_queue = [],
     banks = replicate (unat (cfg_bank_count cfg)) initial_bank,
     data_bus_ready_at = replicate (unat (cfg_pseudo_channel_count cfg)) 0,
     unified_command_bus_ready_at = 0, row_command_bus_ready_at = 0,
     column_command_bus_ready_at = 0, refresh_busy_until = 0, refresh_stall_accounted_until = 0,
     wakeup_at = None, refresh_due_at = None, next_refresh_due = None, draining_writes = False,
     all_bank_refresh_pending = False, outstanding_accesses = 0, next_per_bank_refresh = 0,
     reserved_reads = 0, reserved_writes = 0\<rparr>"

section \<open>Counters\<close>

text \<open>\<^verbatim>\<open>stats_.channels.at(config_.channel)\<close>, updated in place.\<close>

definition update_channel ::
    "hbm_controller \<Rightarrow> (channel_stats \<Rightarrow> channel_stats) \<Rightarrow> hbm_controller result" where
  "update_channel c f =
     (let chs = channels (stats c); i = unat (cfg_channel (config c)) in
      ebind (list_at chs i) (\<lambda>ch.
        Inr (c\<lparr>stats := (stats c)\<lparr>channels := chs[i := f ch]\<rparr>\<rparr>)))"

definition update_queue_stats ::
    "hbm_controller \<Rightarrow> (queue_stats \<Rightarrow> queue_stats) \<Rightarrow> hbm_controller result" where
  "update_queue_stats c f =
     update_channel c (\<lambda>ch. ch\<lparr>queue_stats := f (queue_stats ch)\<rparr>)"

definition add_busy :: "sim_time \<Rightarrow> resource_stats \<Rightarrow> resource_stats" where
  "add_busy t r = r\<lparr>rs_busy_time := rs_busy_time r + t\<rparr>"

definition add_issue :: "resource_stats \<Rightarrow> resource_stats" where
  "add_issue r = r\<lparr>rs_issued_commands := rs_issued_commands r + 1\<rparr>"

text \<open>\<^verbatim>\<open>channel.banks.at(i)\<close> and \<^verbatim>\<open>channel.pseudo_channels.at(i)\<close>.\<close>

definition update_bank_stats ::
    "hbm_controller \<Rightarrow> nat \<Rightarrow> (resource_stats \<Rightarrow> resource_stats) \<Rightarrow> hbm_controller result" where
  "update_bank_stats c i f =
     ebind (list_at (channels (stats c)) (unat (cfg_channel (config c)))) (\<lambda>ch.
     ebind (list_at (bank_stats ch) i) (\<lambda>r.
       update_channel c (\<lambda>ch. ch\<lparr>bank_stats := (bank_stats ch)[i := f r]\<rparr>)))"

definition update_pseudo_channel_stats ::
    "hbm_controller \<Rightarrow> nat \<Rightarrow> (resource_stats \<Rightarrow> resource_stats) \<Rightarrow> hbm_controller result" where
  "update_pseudo_channel_stats c i f =
     ebind (list_at (channels (stats c)) (unat (cfg_channel (config c)))) (\<lambda>ch.
     ebind (list_at (pseudo_channel_stats ch) i) (\<lambda>r.
       update_channel c (\<lambda>ch. ch\<lparr>pseudo_channel_stats := (pseudo_channel_stats ch)[i := f r]\<rparr>)))"

definition when_detailed ::
    "hbm_controller \<Rightarrow> (hbm_controller \<Rightarrow> hbm_controller result) \<Rightarrow> hbm_controller result" where
  "when_detailed c f = (if cfg_detailed_stats (config c) then f c else Inr c)"

section \<open>Queue capacity\<close>

definition has_capacity :: "size_t \<Rightarrow> size_t \<Rightarrow> size_t \<Rightarrow> bool" where
  "has_capacity capacity used requested \<longleftrightarrow>
     capacity = 0 \<or> (used \<le> capacity \<and> requested \<le> capacity - used)"

definition can_reserve :: "hbm_controller \<Rightarrow> size_t \<Rightarrow> size_t \<Rightarrow> bool" where
  "can_reserve c reads writes \<longleftrightarrow>
     has_capacity (cfg_read_queue_capacity (config c))
       (size_of (read_queue c) + reserved_reads c) reads \<and>
     has_capacity (cfg_write_queue_capacity (config c))
       (size_of (write_queue c) + reserved_writes c) writes"

definition available_read_slots :: "hbm_controller \<Rightarrow> size_t" where
  "available_read_slots c =
     (if cfg_read_queue_capacity (config c) = 0 then u64_max
      else let used = size_of (read_queue c) + reserved_reads c in
        if used \<ge> cfg_read_queue_capacity (config c) then 0
        else cfg_read_queue_capacity (config c) - used)"

definition available_write_slots :: "hbm_controller \<Rightarrow> size_t" where
  "available_write_slots c =
     (if cfg_write_queue_capacity (config c) = 0 then u64_max
      else let used = size_of (write_queue c) + reserved_writes c in
        if used \<ge> cfg_write_queue_capacity (config c) then 0
        else cfg_write_queue_capacity (config c) - used)"

definition reserve :: "hbm_controller \<Rightarrow> size_t \<Rightarrow> size_t \<Rightarrow> hbm_controller result" where
  "reserve c reads writes =
     ebind (throw_if (\<not> can_reserve c reads writes)
       (LogicError ''controller reservation overflow'')) (\<lambda>_.
     Inr (c\<lparr>reserved_reads := reserved_reads c + reads,
            reserved_writes := reserved_writes c + writes\<rparr>))"

definition cancel_reservation :: "hbm_controller \<Rightarrow> size_t \<Rightarrow> size_t \<Rightarrow> hbm_controller result" where
  "cancel_reservation c reads writes =
     ebind (throw_if (reads > reserved_reads c \<or> writes > reserved_writes c)
       (LogicError ''controller reservation underflow'')) (\<lambda>_.
     Inr (c\<lparr>reserved_reads := reserved_reads c - reads,
            reserved_writes := reserved_writes c - writes\<rparr>))"

section \<open>Wakeups and refresh events\<close>

definition mark_wakeup :: "hbm_controller \<Rightarrow> sim_time \<Rightarrow> bool \<times> hbm_controller" where
  "mark_wakeup c when = (case wakeup_at c of
     Some w \<Rightarrow> if w \<le> when then (False, c) else (True, c\<lparr>wakeup_at := Some when\<rparr>)
   | None \<Rightarrow> (True, c\<lparr>wakeup_at := Some when\<rparr>))"

definition clear_wakeup :: "hbm_controller \<Rightarrow> sim_time \<Rightarrow> hbm_controller" where
  "clear_wakeup c when = (if wakeup_at c = Some when then c\<lparr>wakeup_at := None\<rparr> else c)"

definition claim_refresh_event :: "hbm_controller \<Rightarrow> sim_time option \<times> hbm_controller" where
  "claim_refresh_event c = (case next_refresh_due c of
     None \<Rightarrow> (None, c)
   | Some due \<Rightarrow> if refresh_due_at c = Some due then (None, c)
                 else (Some due, c\<lparr>refresh_due_at := Some due\<rparr>))"

definition has_outstanding :: "hbm_controller \<Rightarrow> bool" where
  "has_outstanding c \<longleftrightarrow> outstanding_accesses c \<noteq> 0"

section \<open>Banks, command buses and transitions\<close>

definition local_bank :: "hbm_controller \<Rightarrow> u32 \<Rightarrow> nat result" where
  "local_bank c flat_bank =
     (let first = cfg_first_flat_bank (config c) in
      ebind (throw_if (flat_bank < first \<or> flat_bank \<ge> first + cfg_bank_count (config c))
        (OutOfRange ''address does not belong to controller''))
        (\<lambda>_. Inr (unat (flat_bank - first))))"

definition controller_bank_address :: "hbm_controller \<Rightarrow> nat \<Rightarrow> hbm_address result" where
  "controller_bank_address c index =
     bank_address (mapper c) (cfg_first_flat_bank (config c) + word_of_nat index)"

definition command_bus_ready :: "hbm_controller \<Rightarrow> hbm_command \<Rightarrow> sim_time" where
  "command_bus_ready c command = (case cfg_standard (config c) of
     None \<Rightarrow> unified_command_bus_ready_at c
   | Some std \<Rightarrow> (case command_bus_of command of
       Unified \<Rightarrow> unified_command_bus_ready_at c
     | Row \<Rightarrow> row_command_bus_ready_at c
     | Column \<Rightarrow> column_command_bus_ready_at c))"

text \<open>The loop over \<^verbatim>\<open>index < banks_.size()\<close>.\<close>

fun all_bank_loop ::
    "hbm_controller \<Rightarrow> hbm_command \<Rightarrow> sim_time \<Rightarrow> nat list \<Rightarrow> sim_time \<Rightarrow> sim_time result" where
  "all_bank_loop c command now [] ready = Inr ready"
| "all_bank_loop c command now (i # is) ready =
     ebind (controller_bank_address c i) (\<lambda>a.
     ebind (earliest_issue (engine c) command a now) (\<lambda>t.
       all_bank_loop c command now is (max ready t)))"

definition earliest_all_bank :: "hbm_controller \<Rightarrow> hbm_command \<Rightarrow> sim_time \<Rightarrow> sim_time result" where
  "earliest_all_bank c command now = all_bank_loop c command now [0..<length (banks c)] now"

definition earliest_command ::
    "hbm_controller \<Rightarrow> hbm_command \<Rightarrow> hbm_address \<Rightarrow> sim_time \<Rightarrow> sim_time result" where
  "earliest_command c command a now =
     ebind (case cfg_standard (config c) of
        Some std \<Rightarrow> ebind (transition_for std command) (\<lambda>t.
          if ct_scope t = command_scope.Channel then earliest_all_bank c command now
          else earliest_issue (engine c) command a now)
      | None \<Rightarrow> earliest_issue (engine c) command a now)
     (\<lambda>timing_ready. Inr (max timing_ready (command_bus_ready c command)))"

text \<open>The transition of every bank of the channel; the row is the same for all.\<close>

fun transition_all ::
    "hbm_standard \<Rightarrow> hbm_command \<Rightarrow> u32 \<Rightarrow> hbm_bank_state list \<Rightarrow> hbm_bank_state list result" where
  "transition_all std command row [] = Inr []"
| "transition_all std command row (b # bs) =
     ebind (std_apply_transition std command row b) (\<lambda>b'.
     ebind (transition_all std command row bs) (\<lambda>bs'. Inr (b' # bs')))"

definition apply_transition ::
    "hbm_controller \<Rightarrow> hbm_command \<Rightarrow> u32 \<Rightarrow> nat \<Rightarrow> hbm_controller result" where
  "apply_transition c command target_row i =
     (case cfg_standard (config c) of
        None \<Rightarrow>
          if command = PreAll \<or> command = hbm_command.RefreshAllBank \<or>
             command = hbm_command.RfmAllBank
          then Inr (c\<lparr>banks := map (\<lambda>b. b\<lparr>open_row := None\<rparr>) (banks c)\<rparr>)
          else ebind (list_at (banks c) i) (\<lambda>b.
            let b' = (if command = Act then b\<lparr>open_row := Some target_row\<rparr>
                      else if command = PreBank \<or> command = hbm_command.RefreshPerBank \<or>
                        command = hbm_command.RfmPerBank then b\<lparr>open_row := None\<rparr>
                      else b)
            in Inr (c\<lparr>banks := (banks c)[i := b']\<rparr>))
      | Some std \<Rightarrow>
          ebind (transition_for std command) (\<lambda>t.
          if ct_scope t = command_scope.Channel
          then ebind (transition_all std command target_row (banks c))
                 (\<lambda>bs. Inr (c\<lparr>banks := bs\<rparr>))
          else ebind (list_at (banks c) i) (\<lambda>b.
            ebind (std_apply_transition std command target_row b) (\<lambda>b'.
              Inr (c\<lparr>banks := (banks c)[i := b']\<rparr>)))))"

end
