(* ===== verification/Controller_Select.thy ===== *)
theory Controller_Select
  imports Controller
begin

text \<open>
  The decisions of a controller (\<^verbatim>\<open>src/controller/hbm_controller.cpp\<close>, lines 208 to
  339): write-drain hysteresis, starvation accounting, the choice of the next command for a
  queued access, and the choice of the next refresh or RFM command.
\<close>

section \<open>Write drain and starvation\<close>

definition update_write_drain :: "hbm_controller \<Rightarrow> hbm_controller" where
  "update_write_drain c =
     (if draining_writes c \<and>
         size_of (write_queue c) \<le> cfg_write_drain_low_watermark (config c)
      then c\<lparr>draining_writes := False\<rparr>
      else if \<not> draining_writes c \<and> write_queue c \<noteq> [] \<and>
         size_of (write_queue c) \<ge> cfg_write_drain_high_watermark (config c)
      then c\<lparr>draining_writes := True\<rparr>
      else c)"

text \<open>
  The loop over one queue: mark the accesses that have just starved and count each of them
  in \<^verbatim>\<open>stats_.channels.at(channel).queue\<close>.
\<close>

definition newly_starved :: "hbm_controller_config \<Rightarrow> sim_time \<Rightarrow> hbm_access \<Rightarrow> bool" where
  "newly_starved cfg now a \<longleftrightarrow> \<not> starvation_reported a \<and> now \<ge> enqueued_at a \<and>
     now - enqueued_at a \<ge> cfg_starvation_threshold cfg"

fun starve_queue ::
    "hbm_controller \<Rightarrow> sim_time \<Rightarrow> hbm_access list \<Rightarrow> (hbm_access list \<times> hbm_controller) result"
where
  "starve_queue c now [] = Inr ([], c)"
| "starve_queue c now (a # as) =
     (if newly_starved (config c) now a then
        ebind (update_queue_stats c (\<lambda>q. q\<lparr>starvation_events := starvation_events q + 1\<rparr>)) (\<lambda>c'.
        ebind (starve_queue c' now as) (\<lambda>(as', c'').
          Inr (a\<lparr>starvation_reported := True\<rparr> # as', c'')))
      else ebind (starve_queue c now as) (\<lambda>(as', c''). Inr (a # as', c'')))"

definition update_starvation :: "hbm_controller \<Rightarrow> sim_time \<Rightarrow> hbm_controller result" where
  "update_starvation c now =
     (if cfg_starvation_threshold (config c) = 0 then Inr c
      else ebind (starve_queue c now (read_queue c)) (\<lambda>(reads, c1).
           ebind (starve_queue c1 now (write_queue c)) (\<lambda>(writes, c2).
             Inr (c2\<lparr>read_queue := reads, write_queue := writes\<rparr>))))"

section \<open>The next command of a queued access\<close>

definition auto_precharge :: "hbm_controller \<Rightarrow> bool" where
  "auto_precharge c \<longleftrightarrow>
     cfg_standard (config c) \<noteq> None \<and> use_auto_precharge (cfg_row_policy (config c))"

text \<open>The planned command of an access and the time it can issue.\<close>

definition planned_command :: "hbm_controller \<Rightarrow> hbm_access \<Rightarrow> hbm_command result" where
  "planned_command c a =
     ebind (local_bank c (a_flat_bank (la_address a))) (\<lambda>k.
     ebind (list_at (banks c) k) (\<lambda>b.
       plan_access (cfg_standard (config c)) (la_op a) (a_row (la_address a)) b
         (auto_precharge c)))"

definition refresh_eligibility :: "sim_time \<Rightarrow> sim_time \<Rightarrow> hbm_access \<Rightarrow> hbm_access" where
  "refresh_eligibility ready now a =
     (if ready \<le> now \<and> \<not> command_eligible a
      then a\<lparr>command_eligible := True, command_eligible_since := now\<rparr>
      else if ready > now then a\<lparr>command_eligible := False\<rparr> else a)"

definition candidate_of ::
    "hbm_controller \<Rightarrow> sim_time \<Rightarrow> bool \<Rightarrow> nat \<Rightarrow> hbm_access \<Rightarrow> (hbm_access \<times> scheduler_candidate) result"
where
  "candidate_of c now w i a =
     ebind (planned_command c a) (\<lambda>command.
     ebind (earliest_command c command (la_address a) now) (\<lambda>ready.
     ebind (to_dram_command command) (\<lambda>d.
       Inr (refresh_eligibility ready now a,
         \<lparr>queue_index = i, is_write = w, sc_command = d, ready_at = ready,
          sc_sequence = la_sequence a,
          row_hit = is_data_command command \<and> \<not> activated a,
          data_command = is_data_command command,
          request_priority = priority (la_metadata a)\<rparr>))))"

fun candidates_from ::
    "hbm_controller \<Rightarrow> sim_time \<Rightarrow> bool \<Rightarrow> nat \<Rightarrow> hbm_access list \<Rightarrow>
     (hbm_access list \<times> scheduler_candidate list) result" where
  "candidates_from c now w i [] = Inr ([], [])"
| "candidates_from c now w i (a # as) =
     ebind (candidate_of c now w i a) (\<lambda>(a', sc).
     ebind (candidates_from c now w (Suc i) as) (\<lambda>(as', scs).
       Inr (a' # as', sc # scs)))"

definition queue_of :: "hbm_controller \<Rightarrow> bool \<Rightarrow> hbm_access list" where
  "queue_of c w = (if w then write_queue c else read_queue c)"

definition set_queue :: "hbm_controller \<Rightarrow> bool \<Rightarrow> hbm_access list \<Rightarrow> hbm_controller" where
  "set_queue c w q = (if w then c\<lparr>write_queue := q\<rparr> else c\<lparr>read_queue := q\<rparr>)"

definition selected_candidate :: "scheduler_candidate \<Rightarrow> candidate" where
  "selected_candidate s = \<lparr>cand_is_write = is_write s, cand_index = queue_index s,
     cand_command = to_hbm_command (sc_command s), cand_ready_at = ready_at s,
     cand_priority = (if row_hit s then 3 else if data_command s then 2 else 1)\<rparr>"

text \<open>
  \<^verbatim>\<open>find_waiting\<close>: before a precharge, the earliest data command of the same bank, older
  accesses first.
\<close>

fun find_waiting ::
    "hbm_controller \<Rightarrow> sim_time \<Rightarrow> u32 \<Rightarrow> bool \<Rightarrow> nat \<Rightarrow> hbm_access list \<Rightarrow> candidate option \<Rightarrow>
     candidate option result" where
  "find_waiting c now target w i [] waiting = Inr waiting"
| "find_waiting c now target w i (a # as) waiting =
     (if a_flat_bank (la_address a) \<noteq> target then find_waiting c now target w (Suc i) as waiting
      else ebind (planned_command c a) (\<lambda>command.
        if \<not> is_data_command command then find_waiting c now target w (Suc i) as waiting
        else ebind (earliest_command c command (la_address a) now) (\<lambda>ready.
          let current = \<lparr>cand_is_write = w, cand_index = i, cand_command = command,
                cand_ready_at = ready, cand_priority = 2\<rparr> in
          case waiting of
            None \<Rightarrow> find_waiting c now target w (Suc i) as (Some current)
          | Some x \<Rightarrow>
              ebind (element (queue_of c (cand_is_write x)) (cand_index x)) (\<lambda>other.
              find_waiting c now target w (Suc i) as
                (if ready < cand_ready_at x \<or>
                    (ready = cand_ready_at x \<and> la_sequence a < la_sequence other)
                 then Some current else waiting)))))"

definition choose_next ::
    "hbm_controller \<Rightarrow> sim_time \<Rightarrow> (candidate option \<times> hbm_controller) result" where
  "choose_next c now =
     (let prefer_writes = draining_writes c;
          w = (if queue_of c prefer_writes = [] then \<not> prefer_writes else prefer_writes)
      in ebind (candidates_from c now w 0 (queue_of c w)) (\<lambda>(q, candidates).
         let c = set_queue c w q in
         case scheduler_choose (cfg_scheduler (config c)) candidates now of
           None \<Rightarrow> Inr (None, c)
         | Some selected \<Rightarrow>
             let cand = selected_candidate selected in
             if cand_ready_at cand > now \<or> cand_command cand \<noteq> PreBank
             then Inr (Some cand, c)
             else ebind (element (queue_of c (cand_is_write cand)) (cand_index cand)) (\<lambda>a.
               let target = a_flat_bank (la_address a) in
               ebind (find_waiting c now target False 0 (read_queue c) None) (\<lambda>waiting.
               ebind (find_waiting c now target True 0 (write_queue c) waiting) (\<lambda>waiting.
                 Inr (case waiting of Some x \<Rightarrow> Some x | None \<Rightarrow> Some cand, c))))))"

section \<open>The next maintenance command\<close>

definition maintenance_for ::
    "hbm_controller \<Rightarrow> sim_time \<Rightarrow> hbm_command \<Rightarrow> nat \<Rightarrow> hbm_bank_state \<Rightarrow> bool \<Rightarrow>
     maintenance_candidate result" where
  "maintenance_for c now requested i b any_open =
     ebind (controller_bank_address c i) (\<lambda>a.
     ebind (plan_command (cfg_standard (config c)) requested 0 b any_open) (\<lambda>d.
     ebind (earliest_command c (cd_command d) a now) (\<lambda>ready.
       Inr \<lparr>mc_requested = requested, mc_command = cd_command d, mc_local_bank = i,
            mc_ready_at = ready, mc_final_command = final_command d\<rparr>)))"

text \<open>The loop over the banks that keeps the earliest candidate.\<close>

fun maintenance_loop ::
    "hbm_controller \<Rightarrow> sim_time \<Rightarrow> bool \<Rightarrow> nat \<Rightarrow> hbm_bank_state list \<Rightarrow>
     maintenance_candidate option \<Rightarrow> maintenance_candidate option result" where
  "maintenance_loop c now any_open i [] earliest = Inr earliest"
| "maintenance_loop c now any_open i (b # bs) earliest =
     (if \<not> rfm_pending b \<and> \<not> refresh_pending b
      then maintenance_loop c now any_open (Suc i) bs earliest
      else ebind (maintenance_for c now
          (if rfm_pending b then hbm_command.RfmPerBank else hbm_command.RefreshPerBank)
          i b any_open) (\<lambda>m.
        maintenance_loop c now any_open (Suc i) bs
          (case earliest of
             None \<Rightarrow> Some m
           | Some e \<Rightarrow> if mc_ready_at m < mc_ready_at e \<or>
               (mc_ready_at m = mc_ready_at e \<and> i < mc_local_bank e) then Some m else earliest)))"

definition choose_maintenance ::
    "hbm_controller \<Rightarrow> sim_time \<Rightarrow> maintenance_candidate option result" where
  "choose_maintenance c now =
     (let any_open = (\<exists>b \<in> set (banks c). bank_open b) in
      if all_bank_refresh_pending c then
        ebind (element (banks c) 0) (\<lambda>b.
        let requested = all_bank_command (cfg_refresh_policy (config c)) in
        ebind (plan_command (cfg_standard (config c)) requested 0 b any_open) (\<lambda>d.
        ebind (controller_bank_address c 0) (\<lambda>a.
        ebind (earliest_command c (cd_command d) a now) (\<lambda>ready.
          Inr (Some \<lparr>mc_requested = requested, mc_command = cd_command d, mc_local_bank = 0,
            mc_ready_at = ready, mc_final_command = final_command d\<rparr>)))))
      else maintenance_loop c now any_open 0 (banks c) None)"

end
