(* ===== verification/Controller_Issue.thy ===== *)
theory Controller_Issue
  imports Controller_Select Bandwidth
begin

text \<open>
  Issuing one command for a queued access (\<^verbatim>\<open>record_command\<close> and
  \<^verbatim>\<open>HbmController::issue\<close> of \<^verbatim>\<open>src/controller/hbm_controller.cpp\<close>, lines
  403 to 564): the counters, the timing record, the bank transition, and for a data command the
  reservation of the data bus, the merging of reads and the latency stages.
\<close>

section \<open>Recording a command\<close>

text \<open>The final switch of \<^verbatim>\<open>record_command\<close>.\<close>

fun count_command :: "hbm_command \<Rightarrow> hbm_stats \<Rightarrow> hbm_stats" where
  "count_command Act s = s\<lparr>act_commands := act_commands s + 1\<rparr>"
| "count_command PreBank s = s\<lparr>pre_commands := pre_commands s + 1\<rparr>"
| "count_command PreAll s = s\<lparr>pre_commands := pre_commands s + 1\<rparr>"
| "count_command hbm_command.Read s = s\<lparr>read_commands := read_commands s + 1\<rparr>"
| "count_command hbm_command.ReadAuto s = s\<lparr>read_commands := read_commands s + 1\<rparr>"
| "count_command hbm_command.Write s = s\<lparr>write_commands := write_commands s + 1\<rparr>"
| "count_command hbm_command.WriteAuto s = s\<lparr>write_commands := write_commands s + 1\<rparr>"
| "count_command _ s = s"

text \<open>The time a command holds its bus.\<close>

definition bus_time :: "hbm_controller_config \<Rightarrow> hbm_command \<Rightarrow> sim_time" where
  "bus_time cfg command = (case cfg_standard cfg of
     Some std \<Rightarrow> command_duration std command
   | None \<Rightarrow> t_command (cfg_timing cfg))"

definition occupy_bus :: "hbm_controller \<Rightarrow> hbm_command \<Rightarrow> sim_time \<Rightarrow> hbm_controller result" where
  "occupy_bus c command now =
     (let duration = bus_time (config c) command;
          ready = now + duration;
          bus = (if cfg_standard (config c) = None then Unified else command_bus_of command)
      in if bus = Unified then Inr (c\<lparr>unified_command_bus_ready_at := ready\<rparr>)
         else if bus = command_bus.Row then
           update_channel (c\<lparr>row_command_bus_ready_at := ready\<rparr>) (\<lambda>ch.
             ch\<lparr>row_command_bus_stats := add_issue (add_busy duration (row_command_bus_stats ch))\<rparr>)
         else
           update_channel (c\<lparr>column_command_bus_ready_at := ready\<rparr>) (\<lambda>ch.
             ch\<lparr>column_command_bus_stats :=
               add_issue (add_busy duration (column_command_bus_stats ch))\<rparr>))"

definition record_command ::
    "hbm_controller \<Rightarrow> hbm_command \<Rightarrow> hbm_address \<Rightarrow> nat \<Rightarrow> sim_time \<Rightarrow> hbm_controller result" where
  "record_command c command a bank now =
     ebind (throw_if
       (case cfg_standard (config c) of None \<Rightarrow> False | Some std \<Rightarrow> \<not> supports std command)
       (LogicError ''controller attempted a command unsupported by standard'')) (\<lambda>_.
     let c0 = c\<lparr>engine := record_issue (engine c) command a now,
                stats := (stats c)\<lparr>issued_commands := issued_commands (stats c) + 1\<rparr>\<rparr> in
     ebind (update_channel c0 (\<lambda>ch.
       ch\<lparr>command_bus_stats := add_issue (command_bus_stats ch)\<rparr>)) (\<lambda>c1.
     ebind (when_detailed c1 (\<lambda>c. update_bank_stats c bank add_issue)) (\<lambda>c2.
     ebind (update_channel c2 (\<lambda>ch.
       ch\<lparr>command_bus_stats := add_busy (bus_time (config c) command) (command_bus_stats ch)\<rparr>)) (\<lambda>c3.
     ebind (occupy_bus c3 command now) (\<lambda>c4.
       Inr (c4\<lparr>stats := count_command command (stats c4)\<rparr>))))))"

section \<open>Activation and precharge\<close>

definition set_access :: "hbm_controller \<Rightarrow> candidate \<Rightarrow> hbm_access \<Rightarrow> hbm_controller" where
  "set_access c cand a =
     set_queue c (cand_is_write cand) ((queue_of c (cand_is_write cand))[cand_index cand := a])"

text \<open>Count an activation of the bank; at the threshold it becomes due for RFM.\<close>

definition count_activation :: "hbm_controller_config \<Rightarrow> hbm_bank_state \<Rightarrow> hbm_bank_state" where
  "count_activation cfg b =
     (let n = activation_count b + 1 in
      if cfg_enable_rfm cfg \<and> n \<ge> cfg_rfm_activation_threshold cfg
      then b\<lparr>rfm_pending := True, activation_count := 0\<rparr> else b\<lparr>activation_count := n\<rparr>)"

definition issue_activate ::
    "hbm_controller \<Rightarrow> candidate \<Rightarrow> hbm_access \<Rightarrow> nat \<Rightarrow> hbm_controller result" where
  "issue_activate c cand a bank =
     ebind (apply_transition c (cand_command cand) (a_row (la_address a)) bank) (\<lambda>c1.
     ebind (list_at (banks c1) bank) (\<lambda>b.
       Inr (set_access (c1\<lparr>banks := (banks c1)[bank := count_activation (config c) b]\<rparr>) cand
         (a\<lparr>activated := True\<rparr>))))"

definition issue_precharge ::
    "hbm_controller \<Rightarrow> candidate \<Rightarrow> hbm_access \<Rightarrow> nat \<Rightarrow> hbm_bank_state \<Rightarrow> hbm_controller result" where
  "issue_precharge c cand a bank b =
     (let a' = (case open_row b of
            None \<Rightarrow> a
          | Some r \<Rightarrow> if r \<noteq> a_row (la_address a) then a\<lparr>ha_access_class := RowConflict\<rparr> else a)
      in apply_transition (set_access c cand a') (cand_command cand) (a_row (la_address a)) bank)"

section \<open>Data commands\<close>

text \<open>
  The test that keeps a read from being merged across a queued write: the same ordering domain
  and overlapping byte ranges.
\<close>

definition overlapping_write :: "hbm_access \<Rightarrow> hbm_access \<Rightarrow> bool" where
  "overlapping_write logical wr \<longleftrightarrow>
     ordering_domain (la_metadata wr) = ordering_domain (la_metadata logical) \<and>
     (if la_byte_address wr \<le> la_byte_address logical
      then la_byte_address logical - la_byte_address wr < la_size_bytes wr
      else la_byte_address wr - la_byte_address logical < la_size_bytes logical)"

text \<open>The loop over the queue: accesses merged with the first one, and those that stay.\<close>

fun merge_loop ::
    "bool \<Rightarrow> hbm_access \<Rightarrow> hbm_access_class \<Rightarrow> hbm_access list \<Rightarrow> hbm_access list \<times> hbm_access list"
where
  "merge_loop policy first cls [] = ([], [])"
| "merge_loop policy first cls (a # as) =
     (let (merged, kept) = merge_loop policy first cls as in
      if can_merge policy first a then (a\<lparr>ha_access_class := cls\<rparr> # merged, kept)
      else (merged, a # kept))"

definition merge_reads ::
    "hbm_controller \<Rightarrow> bool \<Rightarrow> hbm_access \<Rightarrow> (hbm_access list \<times> hbm_controller) result" where
  "merge_reads c w first =
     (if w \<or> (\<exists>wr \<in> set (write_queue c). overlapping_write first wr) then Inr ([first], c)
      else let (merged, kept) = merge_loop (cfg_enable_request_merging (config c)) first
                 (ha_access_class first) (read_queue c)
           in if merged = [] then Inr ([first], c)
              else ebind (update_queue_stats (c\<lparr>read_queue := kept\<rparr>) (\<lambda>q.
                     q\<lparr>merged_accesses := merged_accesses q + size_of merged\<rparr>))
                   (\<lambda>c'. Inr (first # merged, c')))"

text \<open>The latency stages of one completed access, and their sums over the channel.\<close>

definition stage_item ::
    "sim_time \<Rightarrow> sim_time \<Rightarrow> sim_time \<Rightarrow> sim_time \<Rightarrow> hbm_access \<Rightarrow> hbm_access" where
  "stage_item now cas_latency bus_wait duration a =
     (let a1 = (if first_command_issued a then a
                else a\<lparr>first_command_issued := True, first_command_at := now,
                       latency_breakdown := (latency_breakdown a)\<lparr>queue_wait := now - enqueued_at a\<rparr>\<rparr>)
      in a1\<lparr>latency_breakdown := (latency_breakdown a1)\<lparr>
           command_phase := now - first_command_at a1, data_ready := cas_latency,
           data_bus_wait := bus_wait, data_service := duration\<rparr>\<rparr>)"

definition account_item :: "bool \<Rightarrow> hbm_access \<Rightarrow> queue_stats \<Rightarrow> queue_stats" where
  "account_item waited_before a q =
     (let l = latency_breakdown a in
      q\<lparr>queue_wait_time := (if waited_before then queue_wait_time q
                            else queue_wait_time q + queue_wait l),
        command_wait_time := command_wait_time q + command_phase l,
        array_wait_time := array_wait_time q + data_ready l,
        data_bus_wait_time := data_bus_wait_time q + data_bus_wait l,
        data_service_time := data_service_time q + data_service l\<rparr>)"

fun stage_items ::
    "sim_time \<Rightarrow> sim_time \<Rightarrow> sim_time \<Rightarrow> sim_time \<Rightarrow> hbm_access list \<Rightarrow> queue_stats \<Rightarrow>
     hbm_access list \<times> queue_stats" where
  "stage_items now cas_latency bus_wait duration [] q = ([], q)"
| "stage_items now cas_latency bus_wait duration (a # as) q =
     (let a' = stage_item now cas_latency bus_wait duration a;
          (as', q') = stage_items now cas_latency bus_wait duration as
            (account_item (first_command_issued a) a' q)
      in (a' # as', q'))"

definition cas_latency_of :: "hbm_controller_config \<Rightarrow> bool \<Rightarrow> sim_time" where
  "cas_latency_of cfg w =
     (if w \<and> use_extended_hbm_timing (cfg_timing cfg) then t_cwl (cfg_timing cfg)
      else t_cl (cfg_timing cfg))"

text \<open>The bank's transition after a data command, from line 512 on.\<close>

definition close_after_data ::
    "hbm_controller \<Rightarrow> hbm_command \<Rightarrow> u32 \<Rightarrow> nat \<Rightarrow> hbm_controller result" where
  "close_after_data c command row bank =
     (if cfg_standard (config c) \<noteq> None then apply_transition c command row bank
      else if use_auto_precharge (cfg_row_policy (config c)) then
        ebind (list_at (banks c) bank) (\<lambda>b.
          Inr (c\<lparr>banks := (banks c)[bank := b\<lparr>precharge_pending := True\<rparr>]\<rparr>))
      else Inr c)"

text \<open>The counters of a transfer on the data bus, lines 524 to 556.\<close>

definition count_physical :: "bool \<Rightarrow> u64 \<Rightarrow> hbm_stats \<Rightarrow> hbm_stats" where
  "count_physical w bytes s =
     (let s1 = s\<lparr>physical_accesses := physical_accesses s + 1\<rparr>
      in if w then s1\<lparr>physical_write_bytes := physical_write_bytes s1 + bytes\<rparr>
         else s1\<lparr>physical_read_bytes := physical_read_bytes s1 + bytes\<rparr>)"

definition account_transfer ::
    "hbm_controller \<Rightarrow> bool \<Rightarrow> hbm_access \<Rightarrow> hbm_access list \<Rightarrow> nat \<Rightarrow> sim_time \<Rightarrow> sim_time \<Rightarrow>
     sim_time \<Rightarrow> sim_time \<Rightarrow> hbm_controller result" where
  "account_transfer c w first completed bank now cas start duration =
     (let staged = (\<lambda>q. stage_items now cas (start - (now + cas)) duration completed q) in
      ebind (update_channel c (\<lambda>ch.
        ch\<lparr>data_bus_busy_time := data_bus_busy_time ch + duration\<rparr>)) (\<lambda>c2.
      ebind (when_detailed c2 (\<lambda>c. update_pseudo_channel_stats c
        (unat (a_pseudo_channel (la_address first))) (add_busy duration))) (\<lambda>c3.
      ebind (when_detailed c3 (\<lambda>c. update_queue_stats c (\<lambda>q. snd (staged q)))) (\<lambda>c4.
      ebind (element (fst (staged initial_queue_stats)) 0) (\<lambda>front.
      ebind (when_detailed c4 (\<lambda>c. update_bank_stats c bank
        (add_busy (start + duration - first_command_at front)))) (\<lambda>c5.
      Inr (c5\<lparr>stats := count_physical w (la_size_bytes first) (stats c5)\<rparr>)))))))"

text \<open>The transfer itself and the completions, lines 518 to 563.\<close>

definition transfer ::
    "hbm_controller \<Rightarrow> candidate \<Rightarrow> hbm_access \<Rightarrow> hbm_access list \<Rightarrow> nat \<Rightarrow> sim_time \<Rightarrow>
     (physical_access \<times> hbm_controller) result" where
  "transfer c cand first completed bank now =
     (let cfg = config c;
          pseudo = unat (a_pseudo_channel (la_address first));
          w = cand_is_write cand;
          cas = cas_latency_of cfg w;
          ready = now + cas
      in
      ebind (list_at (channels (stats c)) (unat (cfg_channel cfg))) (\<lambda>_.
      ebind (list_at (data_bus_ready_at c) pseudo) (\<lambda>bus_ready.
      let start = max ready bus_ready in
      ebind (transfer_time (cfg_data_rate cfg) (la_size_bytes first)) (\<lambda>duration.
      let completion = start + duration;
          c1 = c\<lparr>data_bus_ready_at := (data_bus_ready_at c)[pseudo := completion]\<rparr>;
          items = fst (stage_items now cas (start - ready) duration completed initial_queue_stats) in
      ebind (account_transfer c1 w first completed bank now cas start duration) (\<lambda>c2.
      Inr (\<lparr>pa_op = (if w then hbm_op.Write else hbm_op.Read),
             pa_address = la_address first, pa_bytes = la_size_bytes first,
             pa_command = cand_command cand, pa_issued_at = now, pa_completion_time = completion,
             pa_completions = map (\<lambda>a. to_completion a
               (if cfg_detailed_stats cfg then latency_breakdown a else initial_latency)) items\<rparr>,
           c2))))))"

definition remove_at :: "nat \<Rightarrow> 'a list \<Rightarrow> 'a list" where
  "remove_at i xs = take i xs @ drop (Suc i) xs"

definition issue_data ::
    "hbm_controller \<Rightarrow> candidate \<Rightarrow> hbm_access \<Rightarrow> nat \<Rightarrow> hbm_bank_state \<Rightarrow> sim_time \<Rightarrow>
     (physical_access \<times> hbm_controller) result" where
  "issue_data c cand a bank b now =
     ebind (throw_if (open_row b \<noteq> Some (a_row (la_address a)))
       (LogicError ''data command issued without target row open'')) (\<lambda>_.
     let w = cand_is_write cand;
         first = (if \<not> activated a \<and> ha_access_class a \<noteq> RowConflict
                  then a\<lparr>ha_access_class := RowHit\<rparr> else a);
         c1 = set_queue c w (remove_at (cand_index cand) (queue_of c w))
     in
     ebind (merge_reads c1 w first) (\<lambda>(completed, c2).
     ebind (close_after_data c2 (cand_command cand) (a_row (la_address first)) bank) (\<lambda>c3.
       transfer c3 cand first completed bank now)))"

section \<open>\<^verbatim>\<open>HbmController::issue\<close>\<close>

text \<open>The bookkeeping before the command is recorded.\<close>

definition begin_access :: "sim_time \<Rightarrow> hbm_access \<Rightarrow> hbm_access" where
  "begin_access now a =
     (let a1 = (if first_command_issued a then a
                else a\<lparr>first_command_issued := True, first_command_at := now,
                       latency_breakdown := (latency_breakdown a)\<lparr>queue_wait := now - enqueued_at a\<rparr>\<rparr>)
      in a1\<lparr>command_eligible := False\<rparr>)"

definition issue ::
    "hbm_controller \<Rightarrow> candidate \<Rightarrow> sim_time \<Rightarrow> (physical_access option \<times> hbm_controller) result"
where
  "issue c cand now =
     (let q = queue_of c (cand_is_write cand); i = cand_index cand; command = cand_command cand in
      ebind (throw_if (i \<ge> length q) (LogicError ''stale scheduler candidate'')) (\<lambda>_.
      let a0 = q ! i in
      ebind (local_bank c (a_flat_bank (la_address a0))) (\<lambda>bank.
      ebind (list_at (banks c) bank) (\<lambda>b.
      let a = begin_access now a0 in
      ebind (if first_command_issued a0 then Inr c
             else when_detailed c (\<lambda>c. update_queue_stats c (\<lambda>q.
               q\<lparr>queue_wait_time := queue_wait_time q + queue_wait (latency_breakdown a)\<rparr>))) (\<lambda>c1.
      ebind (record_command (set_access c1 cand a) command (la_address a) bank now) (\<lambda>c2.
      if command = Act then
        ebind (issue_activate c2 cand a bank) (\<lambda>c3. Inr (None, c3))
      else if command = PreBank \<or> command = PreAll then
        ebind (issue_precharge c2 cand a bank b) (\<lambda>c3. Inr (None, c3))
      else
        ebind (issue_data c2 cand a bank b now) (\<lambda>(p, c3). Inr (Some p, c3))))))))"

end
