(* ===== verification/Controller_Step.thy ===== *)
theory Controller_Step
  imports Controller_Issue
begin

text \<open>
  Maintenance, admission and the step of a controller
  (\<^verbatim>\<open>src/controller/hbm_controller.cpp\<close>, lines 79 to 88, 159 to 179 and 566 to 699).
  The two loops that end only when the state lets them are partial functions; \<open>Diverges\<close> is the
  outcome of one that does not end.
\<close>

section \<open>Maintenance commands\<close>

fun maintenance_duration :: "hbm_command \<Rightarrow> hbm_timing_spec \<Rightarrow> sim_time" where
  "maintenance_duration hbm_command.RefreshAllBank timing = t_rfc timing"
| "maintenance_duration hbm_command.RefreshPerBank timing = t_rfcpb timing"
| "maintenance_duration hbm_command.RfmAllBank timing = t_rfmab timing"
| "maintenance_duration hbm_command.RfmPerBank timing = t_rfmpb timing"
| "maintenance_duration _ timing = 0"

definition count_rfm :: "hbm_controller \<Rightarrow> hbm_controller result" where
  "count_rfm c = update_channel (c\<lparr>stats := (stats c)\<lparr>rfm_events := rfm_events (stats c) + 1\<rparr>\<rparr>)
     (\<lambda>ch. ch\<lparr>ch_rfm_events := ch_rfm_events ch + 1\<rparr>)"

text \<open>The switch on the maintenance command whose last step has just been issued.\<close>

definition finish_maintenance ::
    "hbm_controller \<Rightarrow> hbm_command \<Rightarrow> nat \<Rightarrow> hbm_controller result" where
  "finish_maintenance c requested i =
     (if requested = hbm_command.RefreshAllBank then
        ebind (update_channel (c\<lparr>all_bank_refresh_pending := False\<rparr>)
          (\<lambda>ch. ch\<lparr>refreshes := refreshes ch + 1\<rparr>)) (\<lambda>c.
        Inr (c\<lparr>banks := map (\<lambda>b. b\<lparr>refresh_pending := False, activation_count := 0\<rparr>) (banks c)\<rparr>))
      else if requested = hbm_command.RefreshPerBank then
        ebind (list_at (banks c) i) (\<lambda>b.
        update_channel
          (c\<lparr>banks := (banks c)[i := b\<lparr>refresh_pending := False, activation_count := 0\<rparr>]\<rparr>)
          (\<lambda>ch. ch\<lparr>per_bank_refreshes := per_bank_refreshes ch + 1\<rparr>))
      else if requested = hbm_command.RfmAllBank then
        ebind (count_rfm (c\<lparr>all_bank_refresh_pending := False\<rparr>)) (\<lambda>c.
        Inr (c\<lparr>banks := map (\<lambda>b. b\<lparr>rfm_pending := False, activation_count := 0\<rparr>) (banks c)\<rparr>))
      else if requested = hbm_command.RfmPerBank then
        ebind (list_at (banks c) i) (\<lambda>b.
        count_rfm (c\<lparr>banks := (banks c)[i := b\<lparr>rfm_pending := False, activation_count := 0\<rparr>]\<rparr>))
      else Inl (LogicError ''invalid maintenance final command''))"

definition issue_maintenance ::
    "hbm_controller \<Rightarrow> maintenance_candidate \<Rightarrow> sim_time \<Rightarrow> hbm_controller result" where
  "issue_maintenance c m now =
     ebind (controller_bank_address c (mc_local_bank m)) (\<lambda>a.
     ebind (record_command c (mc_command m) a (mc_local_bank m) now) (\<lambda>c1.
     ebind (apply_transition c1 (mc_command m) 0 (mc_local_bank m)) (\<lambda>c2.
     if \<not> mc_final_command m then Inr c2
     else ebind (list_at (channels (stats c2)) (unat (cfg_channel (config c2)))) (\<lambda>_.
          ebind (finish_maintenance c2 (mc_requested m) (mc_local_bank m)) (\<lambda>c3.
          Inr (c3\<lparr>refresh_busy_until :=
            now + maintenance_duration (mc_requested m) (cfg_timing (config c3))\<rparr>))))))"

section \<open>Refresh of an idle channel\<close>

text \<open>Mark the channel or the next bank in turn for refresh (lines 611 to 616 and 656 to 661).\<close>

definition request_refresh :: "hbm_controller \<Rightarrow> hbm_controller result" where
  "request_refresh c =
     (if uses_all_bank_refresh (cfg_refresh_policy (config c))
      then Inr (c\<lparr>all_bank_refresh_pending := True\<rparr>)
      else let i = unat (next_per_bank_refresh c) in
        ebind (list_at (banks c) i) (\<lambda>b.
        Inr (c\<lparr>banks := (banks c)[i := b\<lparr>refresh_pending := True\<rparr>],
          next_per_bank_refresh :=
            ucast ((ucast (next_per_bank_refresh c + 1) :: u64) mod size_of (banks c))\<rparr>)))"

definition refresh_outstanding :: "hbm_controller \<Rightarrow> bool" where
  "refresh_outstanding c \<longleftrightarrow>
     all_bank_refresh_pending c \<or> (\<exists>b \<in> set (banks c). refresh_pending b)"

text \<open>One iteration of \<^verbatim>\<open>while (pending())\<close>.\<close>

definition idle_refresh_round ::
    "hbm_controller \<times> sim_time \<Rightarrow> (hbm_controller \<times> sim_time) result" where
  "idle_refresh_round s = (case s of (c, cursor) \<Rightarrow>
     ebind (choose_maintenance c cursor) (\<lambda>cand. case cand of
       None \<Rightarrow> Inl (LogicError ''refresh pending without maintenance candidate'')
     | Some m \<Rightarrow>
         let cursor1 = max cursor (mc_ready_at m) in
         ebind (issue_maintenance c m cursor1) (\<lambda>c1.
           Inr (c1, max cursor1 (command_bus_ready c1 (mc_command m))))))"

partial_function (option) idle_refresh_loop ::
    "hbm_controller \<times> sim_time \<Rightarrow> (hbm_controller result) option" where
  "idle_refresh_loop s =
     (if refresh_outstanding (fst s)
      then (case idle_refresh_round s of
              Inl e \<Rightarrow> Some (Inl e)
            | Inr s' \<Rightarrow> idle_refresh_loop s')
      else Some (Inr (fst s)))"

declare idle_refresh_loop.simps [code]

definition apply_idle_refresh :: "hbm_controller \<Rightarrow> sim_time \<Rightarrow> hbm_controller result" where
  "apply_idle_refresh c when =
     ebind (request_refresh c) (\<lambda>c1.
       outcome (idle_refresh_loop (c1, max when (refresh_busy_until c1))))"

text \<open>The loop of \<^verbatim>\<open>prepare_refresh_for_arrival\<close>, which catches up with missed intervals.\<close>

partial_function (option) catch_up ::
    "sim_time \<Rightarrow> hbm_controller \<times> sim_time \<Rightarrow> (hbm_controller result) option" where
  "catch_up now s =
     (if snd s \<le> now
      then (case apply_idle_refresh (fst s) (snd s) of
              Inl e \<Rightarrow> Some (Inl e)
            | Inr c' \<Rightarrow> catch_up now (c', snd s + cfg_refresh_interval (config c')))
      else Some (Inr ((fst s)\<lparr>next_refresh_due := Some (snd s)\<rparr>)))"

declare catch_up.simps [code]

definition prepare_refresh_for_arrival :: "hbm_controller \<Rightarrow> sim_time \<Rightarrow> hbm_controller result" where
  "prepare_refresh_for_arrival c now =
     (if cfg_refresh_interval (config c) = 0 then Inr c
      else let due = (case next_refresh_due c of
               None \<Rightarrow> now + cfg_refresh_interval (config c) | Some d \<Rightarrow> d)
           in outcome (catch_up now (c\<lparr>next_refresh_due := Some due\<rparr>, due)))"

section \<open>Admission\<close>

definition admit_reserved :: "hbm_controller \<Rightarrow> hbm_access \<Rightarrow> sim_time \<Rightarrow> hbm_controller result" where
  "admit_reserved c access0 now =
     ebind (prepare_refresh_for_arrival c now) (\<lambda>c.
     let access = access0\<lparr>enqueued_at := la_arrival_time access0\<rparr> in
     ebind (if la_op access = hbm_op.Read
       then ebind (throw_if (reserved_reads c = 0) (LogicError ''missing read reservation'')) (\<lambda>_.
         Inr (c\<lparr>reserved_reads := reserved_reads c - 1,
                read_queue := read_queue c @ [access]\<rparr>))
       else ebind (throw_if (reserved_writes c = 0) (LogicError ''missing write reservation'')) (\<lambda>_.
         Inr (c\<lparr>reserved_writes := reserved_writes c - 1,
                write_queue := write_queue c @ [access]\<rparr>))) (\<lambda>c1.
     let c2 = c1\<lparr>outstanding_accesses := outstanding_accesses c1 + 1\<rparr> in
     update_queue_stats c2 (\<lambda>q. q\<lparr>
       max_read_depth := max (max_read_depth q) (size_of (read_queue c2)),
       max_write_depth := max (max_write_depth q) (size_of (write_queue c2))\<rparr>)))"

section \<open>Refresh events, the step and completions\<close>

definition handle_refresh_event :: "hbm_controller \<Rightarrow> sim_time \<Rightarrow> hbm_controller result" where
  "handle_refresh_event c now =
     (if refresh_due_at c \<noteq> Some now then Inr c
      else let c1 = c\<lparr>refresh_due_at := None\<rparr> in
      if next_refresh_due c1 \<noteq> Some now then Inr c1
      else let c2 = c1\<lparr>next_refresh_due := Some (now + cfg_refresh_interval (config c1))\<rparr> in
      if outstanding_accesses c2 = 0 then apply_idle_refresh c2 now
      else request_refresh c2)"

definition step_result :: "sim_time option \<Rightarrow> physical_access option \<Rightarrow> controller_step" where
  "step_result w p = \<lparr>wake_at = w, issued_access = p\<rparr>"

text \<open>The branch of \<^verbatim>\<open>drive\<close> while a refresh occupies the channel.\<close>

definition stall_on_refresh :: "hbm_controller \<Rightarrow> sim_time \<Rightarrow> hbm_controller result" where
  "stall_on_refresh c now =
     (let from = max now (refresh_stall_accounted_until c) in
      if refresh_busy_until c > from then
        ebind (when_detailed c (\<lambda>c. update_queue_stats c (\<lambda>q.
          q\<lparr>refresh_stall_time := refresh_stall_time q + (refresh_busy_until c - from)\<rparr>))) (\<lambda>c.
        Inr (c\<lparr>refresh_stall_accounted_until := refresh_busy_until c\<rparr>))
      else Inr c)"

definition drive :: "hbm_controller \<Rightarrow> sim_time \<Rightarrow> (controller_step \<times> hbm_controller) result" where
  "drive c now =
     ebind (update_starvation c now) (\<lambda>c.
     if now < refresh_busy_until c then
       ebind (stall_on_refresh c now) (\<lambda>c.
         Inr (step_result (Some (refresh_busy_until c)) None, c))
     else
     ebind (choose_maintenance c now) (\<lambda>maintenance. case maintenance of
       Some m \<Rightarrow>
         if mc_ready_at m > now then Inr (step_result (Some (mc_ready_at m)) None, c)
         else ebind (issue_maintenance c m now) (\<lambda>c1.
           Inr (step_result
             (Some (if mc_final_command m then refresh_busy_until c1 else now)) None, c1))
     | None \<Rightarrow>
         ebind (choose_next (update_write_drain c) now) (\<lambda>(cand, c). case cand of
           None \<Rightarrow> Inr (step_result None None, c)
         | Some k \<Rightarrow>
             if cand_ready_at k > now then Inr (step_result (Some (cand_ready_at k)) None, c)
             else ebind (issue c k now) (\<lambda>(completed, c).
               Inr (step_result (Some now) completed, c)))))"

fun count_class :: "hbm_access_class \<Rightarrow> hbm_stats \<Rightarrow> hbm_stats" where
  "count_class RowHit s = s\<lparr>row_hits := row_hits s + 1\<rparr>"
| "count_class RowClosed s = s\<lparr>row_closed := row_closed s + 1\<rparr>"
| "count_class RowConflict s = s\<lparr>row_conflicts := row_conflicts s + 1\<rparr>"

definition complete_access :: "hbm_controller \<Rightarrow> logical_completion \<Rightarrow> hbm_controller result" where
  "complete_access c a =
     ebind (throw_if (outstanding_accesses c = 0) (LogicError ''access completion underflow'')) (\<lambda>_.
     ebind (update_channel (c\<lparr>outstanding_accesses := outstanding_accesses c - 1\<rparr>)
       (\<lambda>ch. ch\<lparr>completed_bytes := completed_bytes ch + la_size_bytes a\<rparr>)) (\<lambda>c1.
     Inr (c1\<lparr>stats := count_class (lc_access_class a) (stats c1)\<rparr>)))"

end
