(* ===== verification/Controller_Invariant.thy ===== *)
theory Controller_Invariant
  imports Controller_Step
begin

text \<open>
  The invariant of a controller and the frame of its operations: what each one may change, that
  each preserves the invariant and that none throws anything but an overflow of simulated time.
\<close>

section \<open>The invariant\<close>

text \<open>What the system's constructor establishes of a controller's configuration.\<close>

definition config_ok :: "hbm_controller_config \<Rightarrow> address_mapper \<Rightarrow> bool" where
  "config_ok cfg m \<longleftrightarrow> mapper_ok m \<and> cfg_bank_count cfg \<noteq> 0 \<and>
     unat (cfg_first_flat_bank cfg) + unat (cfg_bank_count cfg) \<le> unat (bank_count m) \<and>
     br_bytes (cfg_data_rate cfg) \<noteq> 0 \<and> br_interval (cfg_data_rate cfg) \<noteq> 0 \<and>
     (cfg_enable_rfm cfg \<longrightarrow>
       (\<exists>std. cfg_standard cfg = Some std \<and> supports std hbm_command.RfmPerBank))"

text \<open>The address belongs to a bank and a pseudo channel of the controller.\<close>

definition owns :: "hbm_controller_config \<Rightarrow> hbm_address \<Rightarrow> bool" where
  "owns cfg a \<longleftrightarrow> unat (cfg_first_flat_bank cfg) \<le> unat (a_flat_bank a) \<and>
     unat (a_flat_bank a) < unat (cfg_first_flat_bank cfg) + unat (cfg_bank_count cfg) \<and>
     unat (a_pseudo_channel a) < unat (cfg_pseudo_channel_count cfg)"

text \<open>
  What no controller changes of the counters: how many there are in each channel, and the totals
  the system keeps.
\<close>

type_synonym stats_frame = "(nat \<times> nat) list \<times> u64 \<times> u64 \<times> u64 \<times> u64 \<times> u64"

definition stats_shape :: "hbm_stats \<Rightarrow> stats_frame" where
  "stats_shape s =
     (map (\<lambda>ch. (length (bank_stats ch), length (pseudo_channel_stats ch))) (channels s),
      submitted_transactions s, rejected_transactions s, completed_transactions s,
      read_bytes s, write_bytes s)"

definition shape_ok :: "hbm_controller_config \<Rightarrow> stats_frame \<Rightarrow> bool" where
  "shape_ok cfg sh \<longleftrightarrow> unat (cfg_channel cfg) < length (fst sh) \<and>
     (cfg_detailed_stats cfg \<longrightarrow>
       fst sh ! unat (cfg_channel cfg) = (unat (cfg_bank_count cfg), unat (cfg_pseudo_channel_count cfg)))"

definition bank_ok :: "hbm_controller_config \<Rightarrow> hbm_bank_state \<Rightarrow> bool" where
  "bank_ok cfg b \<longleftrightarrow> (rfm_pending b \<longrightarrow> cfg_enable_rfm cfg)"

text \<open>
  A queued access was enqueued at its arrival, and its queue wait is settled by its first command.
\<close>

definition access_ok :: "hbm_controller_config \<Rightarrow> hbm_op \<Rightarrow> hbm_access \<Rightarrow> bool" where
  "access_ok cfg op a \<longleftrightarrow> la_op a = op \<and> owns cfg (la_address a) \<and>
     enqueued_at a = la_arrival_time a \<and>
     (first_command_issued a \<longrightarrow>
       queue_wait (latency_breakdown a) = first_command_at a - enqueued_at a)"

definition queue_ok :: "hbm_controller_config \<Rightarrow> hbm_op \<Rightarrow> hbm_access list \<Rightarrow> bool" where
  "queue_ok cfg op q \<longleftrightarrow> (\<forall>a \<in> set q. access_ok cfg op a)"

definition controller_ok :: "hbm_controller \<Rightarrow> bool" where
  "controller_ok c \<longleftrightarrow> config_ok (config c) (mapper c) \<and>
     shape_ok (config c) (stats_shape (stats c)) \<and> regular_engine (engine c) \<and>
     length (banks c) = unat (cfg_bank_count (config c)) \<and>
     (\<forall>b \<in> set (banks c). bank_ok (config c) b) \<and>
     length (data_bus_ready_at c) = unat (cfg_pseudo_channel_count (config c)) \<and>
     unat (next_per_bank_refresh c) < unat (cfg_bank_count (config c)) \<and>
     queue_ok (config c) hbm_op.Read (read_queue c) \<and>
     queue_ok (config c) hbm_op.Write (write_queue c)"

lemma controller_okD:
  assumes "controller_ok c"
  shows "config_ok (config c) (mapper c)" "shape_ok (config c) (stats_shape (stats c))"
    "regular_engine (engine c)" "length (banks c) = unat (cfg_bank_count (config c))"
    "\<And>b. b \<in> set (banks c) \<Longrightarrow> bank_ok (config c) b"
    "length (data_bus_ready_at c) = unat (cfg_pseudo_channel_count (config c))"
    "unat (next_per_bank_refresh c) < unat (cfg_bank_count (config c))"
    "queue_ok (config c) hbm_op.Read (read_queue c)"
    "queue_ok (config c) hbm_op.Write (write_queue c)"
  using assms by (simp_all add: controller_ok_def)

text \<open>The counters are shared: the other channels and the system may change them in between.\<close>

lemma controller_ok_shared:
  "fst (stats_shape s) = fst (stats_shape (stats c)) \<Longrightarrow> controller_ok (c\<lparr>stats := s\<rparr>) = controller_ok c"
  by (simp add: controller_ok_def shape_ok_def)

text \<open>A fresh controller satisfies it.\<close>

lemma controller_ok_make:
  assumes "config_ok cfg m" and "shape_ok cfg (stats_shape st)"
  shows "controller_ok (make_controller cfg m st)"
  using assms
  by (simp add: controller_ok_def make_controller_def queue_ok_def bank_ok_def initial_bank_def
      config_ok_def unat_gt_0)

section \<open>Steps that only count\<close>

definition counted :: "hbm_controller \<Rightarrow> hbm_controller \<Rightarrow> bool" where
  "counted c c' \<longleftrightarrow> (\<exists>s. c' = c\<lparr>stats := s\<rparr> \<and> stats_shape s = stats_shape (stats c))"

lemma counted_refl [simp]: "counted c c"
  unfolding counted_def by (intro exI [of _ "stats c"]) simp

lemma counted_trans: "counted a b \<Longrightarrow> counted b c \<Longrightarrow> counted a c"
  by (auto simp: counted_def)

lemma counted_fields:
  assumes "counted c c'"
  shows "config c' = config c" "mapper c' = mapper c" "engine c' = engine c"
    "read_queue c' = read_queue c" "write_queue c' = write_queue c" "banks c' = banks c"
    "data_bus_ready_at c' = data_bus_ready_at c"
    "stats_shape (stats c') = stats_shape (stats c)" "c' = c\<lparr>stats := stats c'\<rparr>"
  using assms by (auto simp: counted_def)

lemma counted_ok: "counted c c' \<Longrightarrow> controller_ok c' = controller_ok c"
  by (auto simp: counted_def controller_ok_def)

text \<open>The counters of the controller's own channel are there.\<close>

definition counters_ok :: "hbm_controller \<Rightarrow> bool" where
  "counters_ok c \<longleftrightarrow> shape_ok (config c) (stats_shape (stats c))"

lemma counters_ok_D: "controller_ok c \<Longrightarrow> counters_ok c"
  by (simp add: counters_ok_def controller_ok_def)

lemma counted_counters_ok: "counted c c' \<Longrightarrow> counters_ok c' = counters_ok c"
  by (auto simp: counted_def counters_ok_def)

definition keeps_shape :: "(channel_stats \<Rightarrow> channel_stats) \<Rightarrow> bool" where
  "keeps_shape f \<longleftrightarrow> (\<forall>ch. length (bank_stats (f ch)) = length (bank_stats ch) \<and>
     length (pseudo_channel_stats (f ch)) = length (pseudo_channel_stats ch))"

lemma stats_shape_update:
  "keeps_shape f \<Longrightarrow> i < length (channels s) \<Longrightarrow>
   stats_shape (s\<lparr>channels := (channels s)[i := f (channels s ! i)]\<rparr>) = stats_shape s"
  by (auto simp: stats_shape_def keeps_shape_def list_eq_iff_nth_eq nth_list_update)

lemma update_channel_eq:
  assumes "counters_ok c"
  shows "update_channel c f = Inr (c\<lparr>stats := (stats c)\<lparr>channels :=
    (channels (stats c))[unat (cfg_channel (config c)) :=
      f (channels (stats c) ! unat (cfg_channel (config c)))]\<rparr>\<rparr>)"
  using assms by (simp add: update_channel_def Let_def counters_ok_def shape_ok_def stats_shape_def)

lemma own_channel: "counters_ok c \<Longrightarrow> unat (cfg_channel (config c)) < length (channels (stats c))"
  by (simp add: counters_ok_def shape_ok_def stats_shape_def)

lemma update_channel_counted:
  assumes "counters_ok c" and "keeps_shape f"
  shows "delivers (counted c) (update_channel c f)"
  unfolding update_channel_eq [OF assms(1)] delivers_Inr counted_def
  by (intro exI conjI, rule refl) (rule stats_shape_update [OF assms(2) own_channel [OF assms(1)]])

lemma update_queue_stats_counted:
  "counters_ok c \<Longrightarrow> delivers (counted c) (update_queue_stats c f)"
  unfolding update_queue_stats_def by (rule update_channel_counted) (simp_all add: keeps_shape_def)

lemma detailed_counters:
  assumes "counters_ok c" and "cfg_detailed_stats (config c)"
  shows "unat (cfg_channel (config c)) < length (channels (stats c))"
    "length (bank_stats (channels (stats c) ! unat (cfg_channel (config c)))) =
       unat (cfg_bank_count (config c))"
    "length (pseudo_channel_stats (channels (stats c) ! unat (cfg_channel (config c)))) =
       unat (cfg_pseudo_channel_count (config c))"
  using assms by (auto simp: counters_ok_def shape_ok_def stats_shape_def)

lemma when_detailed_counted:
  "(cfg_detailed_stats (config c) \<Longrightarrow> delivers (counted c) (f c)) \<Longrightarrow>
   delivers (counted c) (when_detailed c f)"
  by (simp add: when_detailed_def)

lemma update_bank_stats_counted:
  assumes "counters_ok c" and "cfg_detailed_stats (config c)" and "i < unat (cfg_bank_count (config c))"
  shows "delivers (counted c) (update_bank_stats c i f)"
  using detailed_counters [OF assms(1,2)] assms(3) update_channel_counted [OF assms(1)]
  by (simp add: update_bank_stats_def keeps_shape_def)

lemma update_pseudo_channel_stats_counted:
  assumes "counters_ok c" and "cfg_detailed_stats (config c)"
    and "i < unat (cfg_pseudo_channel_count (config c))"
  shows "delivers (counted c) (update_pseudo_channel_stats c i f)"
  using detailed_counters [OF assms(1,2)] assms(3) update_channel_counted [OF assms(1)]
  by (simp add: update_pseudo_channel_stats_def keeps_shape_def)


text \<open>Counting steps compose.\<close>

lemma counted_bindI:
  "delivers (counted c) m \<Longrightarrow>
   (\<And>c'. counted c c' \<Longrightarrow> delivers Q (f c')) \<Longrightarrow> delivers Q (ebind m f)"
  by (rule delivers_bindI)

lemma counted_stepI: "counted a b \<Longrightarrow> delivers (counted b) m \<Longrightarrow> delivers (counted a) m"
  by (auto intro: delivers_mono counted_trans)

section \<open>Recording a command\<close>

text \<open>
  What \<open>record_command\<close> changes: the counters, the engine and the time the command buses are
  free again.
\<close>

definition sans_buses :: "hbm_controller \<Rightarrow> hbm_controller" where
  "sans_buses c = c\<lparr>stats := initial_stats, unified_command_bus_ready_at := 0,
     row_command_bus_ready_at := 0, column_command_bus_ready_at := 0\<rparr>"

definition recorded :: "hbm_controller \<Rightarrow> hbm_command \<Rightarrow> hbm_address \<Rightarrow> sim_time \<Rightarrow> hbm_controller \<Rightarrow> bool"
where
  "recorded c command a now c' \<longleftrightarrow>
     sans_buses c' = sans_buses (c\<lparr>engine := record_issue (engine c) command a now\<rparr>) \<and>
     stats_shape (stats c') = stats_shape (stats c) \<and>
     command_bus_ready c' command = now + bus_time (config c) command"

definition command_supported :: "hbm_controller \<Rightarrow> hbm_command \<Rightarrow> bool" where
  "command_supported c command \<longleftrightarrow>
     (case cfg_standard (config c) of None \<Rightarrow> True | Some std \<Rightarrow> supports std command)"

lemma sans_buses_fields:
  assumes "sans_buses c' = sans_buses c"
  shows "config c' = config c" "mapper c' = mapper c" "banks c' = banks c"
    "engine c' = engine c" "read_queue c' = read_queue c" "write_queue c' = write_queue c"
    "data_bus_ready_at c' = data_bus_ready_at c"
    "next_per_bank_refresh c' = next_per_bank_refresh c"
    "all_bank_refresh_pending c' = all_bank_refresh_pending c"
    "refresh_busy_until c' = refresh_busy_until c"
    "reserved_reads c' = reserved_reads c" "reserved_writes c' = reserved_writes c"
    "outstanding_accesses c' = outstanding_accesses c"
    "next_refresh_due c' = next_refresh_due c" "wakeup_at c' = wakeup_at c"
  using assms by (cases c; cases c'; simp add: sans_buses_def)+

lemma recorded_fields:
  assumes "recorded c command a now c'"
  shows "config c' = config c" "mapper c' = mapper c" "banks c' = banks c"
    "engine c' = record_issue (engine c) command a now"
    "read_queue c' = read_queue c" "write_queue c' = write_queue c"
    "data_bus_ready_at c' = data_bus_ready_at c" "stats_shape (stats c') = stats_shape (stats c)"
    "next_per_bank_refresh c' = next_per_bank_refresh c"
    "all_bank_refresh_pending c' = all_bank_refresh_pending c"
    "refresh_busy_until c' = refresh_busy_until c"
    "reserved_reads c' = reserved_reads c" "reserved_writes c' = reserved_writes c"
    "outstanding_accesses c' = outstanding_accesses c"
    "next_refresh_due c' = next_refresh_due c" "wakeup_at c' = wakeup_at c"
    "command_bus_ready c' command = now + bus_time (config c) command"
  using assms unfolding recorded_def
  by (simp_all add: sans_buses_fields [of c' "c\<lparr>engine := record_issue (engine c) command a now\<rparr>"])

lemma recorded_ok: "recorded c command a now c' \<Longrightarrow> controller_ok c' = controller_ok c"
  by (simp add: controller_ok_def recorded_fields)

lemma command_bus_ready_stats [simp]:
  "command_bus_ready (c\<lparr>stats := s\<rparr>) command = command_bus_ready c command"
  by (simp add: command_bus_ready_def split: option.split command_bus.split)

lemma occupy_bus_cases:
  assumes "counters_ok c"
  shows "delivers (\<lambda>c'. sans_buses c' = sans_buses c \<and> stats_shape (stats c') = stats_shape (stats c) \<and>
      command_bus_ready c' command = now + bus_time (config c) command) (occupy_bus c command now)"
    (is "delivers ?P _")
proof -
  let ?t = "now + bus_time (config c) command"
  consider "cfg_standard (config c) = None"
    | "cfg_standard (config c) \<noteq> None" "command_bus_of command = command_bus.Row"
    | "cfg_standard (config c) \<noteq> None" "command_bus_of command = command_bus.Column"
    by (cases "cfg_standard (config c) = None"; cases "command_bus_of command")
      (simp_all add: command_bus_of_def split: if_splits)
  then show ?thesis
  proof cases
    case 1
    then show ?thesis
      by (simp add: occupy_bus_def command_bus_ready_def sans_buses_def)
  next
    case 2
    let ?c = "c\<lparr>row_command_bus_ready_at := ?t\<rparr>"
    have c: "counters_ok ?c" using assms by (simp add: counters_ok_def)
    have e: "occupy_bus c command now = update_channel ?c (\<lambda>ch. ch\<lparr>row_command_bus_stats :=
        add_issue (add_busy (bus_time (config c) command) (row_command_bus_stats ch))\<rparr>)"
      using 2 by (auto simp: occupy_bus_def Let_def)
    from 2 show ?thesis unfolding e
      by (intro delivers_mono [OF update_channel_counted [OF c]])
        (auto simp: keeps_shape_def counted_def sans_buses_def command_bus_ready_def)
  next
    case 3
    let ?c = "c\<lparr>column_command_bus_ready_at := ?t\<rparr>"
    have c: "counters_ok ?c" using assms by (simp add: counters_ok_def)
    have e: "occupy_bus c command now = update_channel ?c (\<lambda>ch. ch\<lparr>column_command_bus_stats :=
        add_issue (add_busy (bus_time (config c) command) (column_command_bus_stats ch))\<rparr>)"
      using 3 by (auto simp: occupy_bus_def Let_def)
    from 3 show ?thesis unfolding e
      by (intro delivers_mono [OF update_channel_counted [OF c]])
        (auto simp: keeps_shape_def counted_def sans_buses_def command_bus_ready_def)
  qed
qed

lemma stats_shape_count_command [simp]: "stats_shape (count_command command s) = stats_shape s"
  by (cases command) (simp_all add: stats_shape_def)

lemma record_command_recorded:
  assumes "counters_ok c" and "command_supported c command"
    and "i < unat (cfg_bank_count (config c))"
  shows "delivers (recorded c command a now) (record_command c command a i now)"
proof -
  let ?c0 = "c\<lparr>engine := record_issue (engine c) command a now,
    stats := (stats c)\<lparr>issued_commands := issued_commands (stats c) + 1\<rparr>\<rparr>"
  have c0: "counters_ok ?c0" using assms(1) by (simp add: counters_ok_def stats_shape_def)
  have supp: "\<not> (case cfg_standard (config c) of None \<Rightarrow> False | Some std \<Rightarrow> \<not> supports std command)"
    using assms(2) by (simp add: command_supported_def split: option.splits)
  have c: "counters_ok c'" "config c' = config c" if "counted ?c0 c'" for c'
    using that c0 by (simp_all add: counted_counters_ok counted_fields(1))
  have last: "delivers (recorded c command a now) (ebind (occupy_bus c3 command now) (\<lambda>c4.
       Inr (c4\<lparr>stats := count_command command (stats c4)\<rparr>)))" if c3: "counted ?c0 c3" for c3
  proof (rule delivers_bindI [OF occupy_bus_cases [OF c(1) [OF c3]]])
    fix c4
    assume c4: "sans_buses c4 = sans_buses c3 \<and> stats_shape (stats c4) = stats_shape (stats c3) \<and>
      command_bus_ready c4 command = now + bus_time (config c3) command"
    have "sans_buses c3 = sans_buses (c\<lparr>engine := record_issue (engine c) command a now\<rparr>)"
      "stats_shape (stats c3) = stats_shape (stats c)"
      using c3 by (auto simp: counted_def sans_buses_def stats_shape_def)
    with c4 show "delivers (recorded c command a now)
        (Inr (c4\<lparr>stats := count_command command (stats c4)\<rparr>))"
      using c(2) [OF c3] by (simp add: recorded_def sans_buses_def)
  qed
  show ?thesis
    unfolding record_command_def throw_if_def Let_def if_not_P [OF supp] ebind_Inr
  proof (rule counted_bindI [OF update_channel_counted [OF c0]], simp add: keeps_shape_def)
    fix c1 assume c1: "counted ?c0 c1"
    show "delivers (recorded c command a now) (ebind (when_detailed c1 (\<lambda>c. update_bank_stats c i add_issue)) (\<lambda>c2.
     ebind (update_channel c2 (\<lambda>ch.
       ch\<lparr>command_bus_stats := add_busy (bus_time (config c) command) (command_bus_stats ch)\<rparr>)) (\<lambda>c3.
     ebind (occupy_bus c3 command now) (\<lambda>c4.
       Inr (c4\<lparr>stats := count_command command (stats c4)\<rparr>)))))"
    proof (rule counted_bindI [OF counted_stepI [OF c1 when_detailed_counted]])
      show "delivers (counted c1) (update_bank_stats c1 i add_issue)"
        if "cfg_detailed_stats (config c1)"
        using that assms(3) c [OF c1] by (simp add: update_bank_stats_counted)
      fix c2 assume c2: "counted ?c0 c2"
      show "delivers (recorded c command a now) (ebind (update_channel c2 (\<lambda>ch.
         ch\<lparr>command_bus_stats := add_busy (bus_time (config c) command) (command_bus_stats ch)\<rparr>)) (\<lambda>c3.
         ebind (occupy_bus c3 command now) (\<lambda>c4.
         Inr (c4\<lparr>stats := count_command command (stats c4)\<rparr>))))"
        by (rule counted_bindI [OF counted_stepI [OF c2 update_channel_counted]])
          (simp_all add: c [OF c2] keeps_shape_def last)
    qed
  qed
qed

section \<open>Command times\<close>

lemma controller_bank_address_Inr:
  assumes "config_ok (config c) (mapper c)" and "i < unat (cfg_bank_count (config c))"
  shows "\<exists>a. controller_bank_address c i = Inr a"
proof -
  let ?f = "cfg_first_flat_bank (config c)"
  have i: "unat (word_of_nat i :: u32) = i"
    using assms(2) unat_u32_lt [of "cfg_bank_count (config c)"] by (simp add: unat_of_nat)
  have "unat ?f + i < unat (bank_count (mapper c))" using assms by (simp add: config_ok_def)
  moreover have "unat (bank_count (mapper c)) < 2 ^ 32" by (rule unat_u32_lt)
  ultimately have "unat (?f + word_of_nat i) < unat (bank_count (mapper c))"
    using unat_add_u32_small [of ?f "word_of_nat i"] by (simp add: i)
  then show ?thesis by (simp add: controller_bank_address_def bank_address_Inr)
qed

lemma all_bank_loop_delivers:
  assumes "\<And>i. i \<in> set is \<Longrightarrow> \<exists>a. controller_bank_address c i = Inr a" and "regular_engine (engine c)"
  shows "delivers (\<lambda>r. ready \<le> r) (all_bank_loop c command now is ready)"
  using assms(1)
proof (induction "is" arbitrary: ready)
  case (Cons i "is")
  then obtain a where a: "controller_bank_address c i = Inr a" by (meson list.set_intros(1))
  show ?case
  proof (cases "earliest_issue (engine c) command a now")
    case (Inl e)
    then show ?thesis using earliest_issue_Inl [OF Inl assms(2)] by (simp add: a)
  next
    case (Inr t)
    have "delivers (\<lambda>r. max ready t \<le> r) (all_bank_loop c command now is (max ready t))"
      by (rule Cons.IH) (use Cons.prems in simp)
    then have "delivers (\<lambda>r. ready \<le> r) (all_bank_loop c command now is (max ready t))"
      by (rule delivers_mono) simp
    then show ?thesis by (simp add: a Inr)
  qed
qed simp

lemma all_bank_loop_value:
  "all_bank_loop c command now is ready = Inr r \<Longrightarrow>
   ready \<le> r \<and> (\<forall>i \<in> set is. \<exists>a t. controller_bank_address c i = Inr a \<and>
     earliest_issue (engine c) command a now = Inr t \<and> t \<le> r)"
proof (induction "is" arbitrary: ready)
  case (Cons i "is")
  from Cons.prems obtain a t where a: "controller_bank_address c i = Inr a"
    "earliest_issue (engine c) command a now = Inr t"
    "all_bank_loop c command now is (max ready t) = Inr r"
    by (auto simp: ebind_eq_Inr)
  with Cons.IH [OF a(3)] show ?case by auto
qed simp

text \<open>Commands of channel scope; without a standard every command has bank scope.\<close>

definition channel_wide :: "hbm_controller \<Rightarrow> hbm_command \<Rightarrow> bool" where
  "channel_wide c command \<longleftrightarrow> cfg_standard (config c) \<noteq> None \<and> channel_command command"

text \<open>
  A command may issue at a time when its bus is free and the timing engine allows it then, for a
  channel-wide command on every bank of the channel.
\<close>

definition issuable :: "hbm_controller \<Rightarrow> hbm_command \<Rightarrow> hbm_address \<Rightarrow> sim_time \<Rightarrow> bool" where
  "issuable c command a t \<longleftrightarrow> command_bus_ready c command \<le> t \<and>
     (if channel_wide c command
      then \<forall>i < length (banks c). \<exists>b. controller_bank_address c i = Inr b \<and>
        earliest_issue (engine c) command b t = Inr t
      else earliest_issue (engine c) command a t = Inr t)"

lemma earliest_command_scope:
  assumes "command_supported c command"
  shows "earliest_command c command a now =
    ebind (if channel_wide c command then earliest_all_bank c command now
           else earliest_issue (engine c) command a now)
      (\<lambda>r. Inr (max r (command_bus_ready c command)))"
  using assms
  by (cases "cfg_standard (config c)")
    (auto simp: earliest_command_def channel_wide_def command_supported_def
      transition_for_supported scope_of_def)

lemma earliest_issue_delivers:
  "regular_engine e \<Longrightarrow> delivers (\<lambda>r. True) (earliest_issue e command a now)"
  by (cases "earliest_issue e command a now") (auto dest: earliest_issue_Inl)

lemma earliest_command_delivers:
  assumes "controller_ok c" and "command_supported c command"
  shows "delivers (\<lambda>r. True) (earliest_command c command a now)"
proof -
  have "delivers (\<lambda>r. now \<le> r) (earliest_all_bank c command now)"
    unfolding earliest_all_bank_def using controller_okD [OF assms(1)]
    by (intro all_bank_loop_delivers) (auto intro: controller_bank_address_Inr)
  moreover have "delivers (\<lambda>r. True) (earliest_issue (engine c) command a now)"
    using controller_okD(3) [OF assms(1)] by (rule earliest_issue_delivers)
  ultimately show ?thesis
    unfolding earliest_command_scope [OF assms(2)] delivers_ebind
    by (auto elim: delivers_mono)
qed

lemma earliest_command_issuable:
  assumes "controller_ok c" and "command_supported c command"
    and "earliest_command c command a now = Inr r" and "r \<le> t"
  shows "issuable c command a t"
proof -
  from assms(3) obtain u where u: "(if channel_wide c command then earliest_all_bank c command now
      else earliest_issue (engine c) command a now) = Inr u"
    and r: "r = max u (command_bus_ready c command)"
    unfolding earliest_command_scope [OF assms(2)] by (auto simp: ebind_eq_Inr)
  have reg: "regular_engine (engine c)" using assms(1) by (rule controller_okD)
  have ut: "u \<le> t" "command_bus_ready c command \<le> t" using r assms(4) by auto
  show ?thesis
  proof (cases "channel_wide c command")
    case True
    with u have "\<forall>i \<in> set [0..<length (banks c)]. \<exists>b v. controller_bank_address c i = Inr b \<and>
        earliest_issue (engine c) command b now = Inr v \<and> v \<le> u"
      using all_bank_loop_value by (auto simp: earliest_all_bank_def)
    then have "\<exists>b. controller_bank_address c i = Inr b \<and> earliest_issue (engine c) command b t = Inr t"
      if "i < length (banks c)" for i
      using that ut(1) earliest_issue_later [OF _ reg, of command _ now _ t] by fastforce
    with True ut show ?thesis by (simp add: issuable_def)
  next
    case False
    with u ut show ?thesis by (simp add: issuable_def earliest_issue_later [OF _ reg])
  qed
qed

section \<open>Planned commands\<close>

lemma local_bank_owned:
  assumes "config_ok cfg m" and "owns cfg a" and "config c = cfg"
  shows "local_bank c (a_flat_bank a) =
      Inr (unat (a_flat_bank a) - unat (cfg_first_flat_bank cfg))"
    and "unat (a_flat_bank a) - unat (cfg_first_flat_bank cfg) < unat (cfg_bank_count cfg)"
proof -
  let ?f = "cfg_first_flat_bank cfg" and ?n = "cfg_bank_count cfg"
  have "unat (?f + ?n) = unat ?f + unat ?n"
    using assms(1) unat_u32_lt [of "bank_count m"] by (intro unat_add_u32_small) (simp add: config_ok_def)
  with assms show "local_bank c (a_flat_bank a) = Inr (unat (a_flat_bank a) - unat ?f)"
    by (auto simp: local_bank_def Let_def owns_def word_less_nat_alt word_le_nat_alt not_less
        throw_if_def intro!: unat_sub)
  show "unat (a_flat_bank a) - unat ?f < unat ?n" using assms(2) by (auto simp: owns_def)
qed

text \<open>The bank of an address.\<close>

definition bank_of :: "hbm_controller \<Rightarrow> hbm_address \<Rightarrow> nat" where
  "bank_of c a = unat (a_flat_bank a) - unat (cfg_first_flat_bank (config c))"

lemma bank_of_owned:
  assumes "controller_ok c" and "owns (config c) a"
  shows "local_bank c (a_flat_bank a) = Inr (bank_of c a)" and "bank_of c a < length (banks c)"
    and "bank_of c a < unat (cfg_bank_count (config c))"
  using local_bank_owned [OF controller_okD(1) [OF assms(1)] assms(2) refl] controller_okD(4) [OF assms(1)]
  by (simp_all add: bank_of_def)

lemma planned_command_value:
  assumes "controller_ok c" and "owns (config c) (la_address a)"
  defines "b \<equiv> banks c ! bank_of c (la_address a)"
  shows "planned_command c a = plan_access (cfg_standard (config c)) (la_op a)
    (a_row (la_address a)) b (auto_precharge c)"
  using bank_of_owned [OF assms(1,2)] by (simp add: planned_command_def b_def)

lemma planned_command_kind:
  assumes "planned_command c a = Inr command"
  shows "command = PreBank \<or> command = Act \<or> command = requested_command (la_op a) (auto_precharge c)"
    and "command_supported c command" and "\<not> channel_wide c command" and "command \<noteq> Count"
proof -
  show k: "command = PreBank \<or> command = Act \<or>
      command = requested_command (la_op a) (auto_precharge c)"
    using assms by (auto simp: planned_command_def ebind_eq_Inr plan_access_cases split: if_splits)
  have s: "supports std PreBank" "supports std Act" for std
    by (simp_all add: supports_common common_support_def)
  have d: "supports std (requested_command op auto)" for std op auto by (simp add: supports_data)
  from k show "command_supported c command"
    by (auto simp: command_supported_def s d split: option.split)
  from k show "\<not> channel_wide c command" "command \<noteq> Count"
    by (auto simp: channel_wide_def channel_command_def requested_command_def split: if_splits)
qed


end
