(* ===== verification/Controller_Choice.thy ===== *)
theory Controller_Choice
  imports Controller_Invariant "HOL-Library.Multiset"
begin

text \<open>
  The commands a controller chooses: the candidates it offers to the scheduler, the search for a
  waiting data command before a precharge, and the proof that the result is the planned command of
  a queued access together with the time that command can issue.
\<close>

section \<open>Frames\<close>

text \<open>An access up to the fields that offering it to the scheduler may change.\<close>

definition plain :: "hbm_access \<Rightarrow> hbm_access" where
  "plain a = a\<lparr>command_eligible := False, command_eligible_since := 0\<rparr>"

lemma plain_fields:
  assumes "plain a = plain a'"
  shows "la_address a = la_address a'" "la_op a = la_op a'" "la_sequence a = la_sequence a'"
    "la_byte_address a = la_byte_address a'" "la_size_bytes a = la_size_bytes a'"
    "la_metadata a = la_metadata a'" "la_arrival_time a = la_arrival_time a'"
    "activated a = activated a'" "first_command_issued a = first_command_issued a'"
    "enqueued_at a = enqueued_at a'" "first_command_at a = first_command_at a'"
    "latency_breakdown a = latency_breakdown a'" "ha_access_class a = ha_access_class a'"
    "starvation_reported a = starvation_reported a'" "la_parent_id a = la_parent_id a'"
  using assms by (cases a; cases a'; simp add: plain_def)+

lemma plain_refresh_eligibility [simp]: "plain (refresh_eligibility ready now a) = plain a"
  by (simp add: refresh_eligibility_def plain_def)

lemma access_ok_plain: "plain a = plain a' \<Longrightarrow> access_ok cfg op a = access_ok cfg op a'"
  using plain_fields [of a a'] by (simp add: access_ok_def)

lemma queue_ok_plain: "map plain q = map plain q' \<Longrightarrow> queue_ok cfg op q = queue_ok cfg op q'"
proof -
  assume eq: "map plain q = map plain q'"
  then have len: "length q = length q'" by (metis length_map)
  have "plain (q ! i) = plain (q' ! i)" if "i < length q" for i
    using eq that by (metis len nth_map)
  then show ?thesis
    unfolding queue_ok_def all_set_conv_all_nth len by (metis access_ok_plain len)
qed

text \<open>The queues changed, in those fields only.\<close>

definition requeued :: "hbm_controller \<Rightarrow> hbm_controller \<Rightarrow> bool" where
  "requeued c c' \<longleftrightarrow> c'\<lparr>read_queue := [], write_queue := []\<rparr> = c\<lparr>read_queue := [], write_queue := []\<rparr> \<and>
     map plain (read_queue c') = map plain (read_queue c) \<and>
     map plain (write_queue c') = map plain (write_queue c)"

lemma requeued_refl [simp]: "requeued c c"
  by (simp add: requeued_def)

lemma requeued_fields:
  assumes "requeued c c'"
  shows "config c' = config c" "mapper c' = mapper c" "banks c' = banks c" "engine c' = engine c"
    "stats c' = stats c" "data_bus_ready_at c' = data_bus_ready_at c"
    "next_per_bank_refresh c' = next_per_bank_refresh c"
    "command_bus_ready c' command = command_bus_ready c command"
    "reserved_reads c' = reserved_reads c" "reserved_writes c' = reserved_writes c"
    "length (read_queue c') = length (read_queue c)"
    "length (write_queue c') = length (write_queue c)"
    "refresh_busy_until c' = refresh_busy_until c"
    "outstanding_accesses c' = outstanding_accesses c" "wakeup_at c' = wakeup_at c"
proof -
  have eq: "c'\<lparr>read_queue := [], write_queue := []\<rparr> = c\<lparr>read_queue := [], write_queue := []\<rparr>"
    using assms by (simp add: requeued_def)
  show fields: "config c' = config c" "mapper c' = mapper c" "banks c' = banks c"
    "engine c' = engine c" "stats c' = stats c" "data_bus_ready_at c' = data_bus_ready_at c"
    "next_per_bank_refresh c' = next_per_bank_refresh c"
    "reserved_reads c' = reserved_reads c" "reserved_writes c' = reserved_writes c"
    "refresh_busy_until c' = refresh_busy_until c"
    "outstanding_accesses c' = outstanding_accesses c" "wakeup_at c' = wakeup_at c"
    using arg_cong [OF eq, of config] arg_cong [OF eq, of mapper] arg_cong [OF eq, of banks]
      arg_cong [OF eq, of engine] arg_cong [OF eq, of stats] arg_cong [OF eq, of data_bus_ready_at]
      arg_cong [OF eq, of next_per_bank_refresh] arg_cong [OF eq, of reserved_reads]
      arg_cong [OF eq, of reserved_writes] arg_cong [OF eq, of refresh_busy_until]
      arg_cong [OF eq, of outstanding_accesses] arg_cong [OF eq, of wakeup_at]
    by simp_all
  show "command_bus_ready c' command = command_bus_ready c command"
    using fields arg_cong [OF eq, of unified_command_bus_ready_at]
      arg_cong [OF eq, of row_command_bus_ready_at] arg_cong [OF eq, of column_command_bus_ready_at]
    by (simp add: command_bus_ready_def split: option.split command_bus.split)
  show "length (read_queue c') = length (read_queue c)"
    "length (write_queue c') = length (write_queue c)"
    using assms unfolding requeued_def by (metis length_map)+
qed

lemma requeued_ok: "requeued c c' \<Longrightarrow> controller_ok c' = controller_ok c"
proof -
  assume r: "requeued c c'"
  then have "map plain (read_queue c') = map plain (read_queue c)"
    "map plain (write_queue c') = map plain (write_queue c)" by (simp_all add: requeued_def)
  then show ?thesis
    using queue_ok_plain [of "read_queue c'" "read_queue c"]
      queue_ok_plain [of "write_queue c'" "write_queue c"] requeued_fields [OF r]
    by (simp add: controller_ok_def)
qed

lemma requeued_trans: "requeued a b \<Longrightarrow> requeued b c \<Longrightarrow> requeued a c"
  by (simp add: requeued_def)

lemma set_queue_requeued:
  "map plain q = map plain (queue_of c w) \<Longrightarrow> requeued c (set_queue c w q)"
  by (simp add: requeued_def set_queue_def queue_of_def split: if_splits)

lemma set_queue_simps [simp]:
  "queue_of (set_queue c w q) w = q" "queue_of (set_queue c w q) (\<not> w) = queue_of c (\<not> w)"
  "config (set_queue c w q) = config c" "banks (set_queue c w q) = banks c"
  "engine (set_queue c w q) = engine c" "mapper (set_queue c w q) = mapper c"
  "stats (set_queue c w q) = stats c" "data_bus_ready_at (set_queue c w q) = data_bus_ready_at c"
  "next_per_bank_refresh (set_queue c w q) = next_per_bank_refresh c"
  by (simp_all add: queue_of_def set_queue_def)

text \<open>What the time of a command depends on.\<close>

lemma all_bank_loop_cong:
  assumes "config c' = config c" "mapper c' = mapper c" "engine c' = engine c"
  shows "all_bank_loop c' command now is ready = all_bank_loop c command now is ready"
  using assms
  by (induction "is" arbitrary: ready) (simp_all add: controller_bank_address_def cong: ebind_cong)

lemma earliest_command_cong:
  assumes "config c' = config c" "mapper c' = mapper c" "engine c' = engine c"
    "length (banks c') = length (banks c)"
    "\<And>command. command_bus_ready c' command = command_bus_ready c command"
  shows "earliest_command c' command a now = earliest_command c command a now"
proof -
  have eq: "earliest_all_bank c' command now = earliest_all_bank c command now"
    unfolding earliest_all_bank_def all_bank_loop_cong [OF assms(1-3)] assms(4) by (rule refl)
  show ?thesis unfolding earliest_command_def assms(1,3,5) eq by (rule refl)
qed

lemma planned_command_cong:
  assumes "config c' = config c" "banks c' = banks c" "plain a = plain a'"
  shows "planned_command c' a = planned_command c a'"
  unfolding planned_command_def local_bank_def auto_precharge_def assms(1,2)
    plain_fields(1,2) [OF assms(3)] by (rule refl)

section \<open>Candidates\<close>

text \<open>The candidate of an access carries its planned command and the time that can issue.\<close>

definition offers :: "hbm_controller \<Rightarrow> sim_time \<Rightarrow> hbm_access \<Rightarrow> hbm_command \<Rightarrow> sim_time \<Rightarrow> bool" where
  "offers c now a command ready \<longleftrightarrow> planned_command c a = Inr command \<and>
     earliest_command c command (la_address a) now = Inr ready"

lemma offers_cong:
  assumes "requeued c c'" and "plain a = plain a'"
  shows "offers c' now a = offers c now a'"
proof -
  have "planned_command c' a = planned_command c a'"
    using assms by (intro planned_command_cong) (simp_all add: requeued_fields)
  moreover have "earliest_command c' command x now = earliest_command c command x now" for command x
    using assms by (intro earliest_command_cong) (simp_all add: requeued_fields)
  ultimately show ?thesis
    by (intro ext) (simp add: offers_def plain_fields(1) [OF assms(2)])
qed

definition sched_ok ::
    "hbm_controller \<Rightarrow> sim_time \<Rightarrow> bool \<Rightarrow> nat \<Rightarrow> hbm_access \<Rightarrow> scheduler_candidate \<Rightarrow> bool" where
  "sched_ok c now w i a s \<longleftrightarrow> queue_index s = i \<and> is_write s = w \<and>
     offers c now a (to_hbm_command (sc_command s)) (ready_at s) \<and>
     sc_sequence s = la_sequence a \<and> request_priority s = priority (la_metadata a) \<and>
     data_command s = is_data_command (to_hbm_command (sc_command s)) \<and>
     row_hit s = (data_command s \<and> \<not> activated a)"

lemma planned_command_owned:
  assumes "controller_ok c" and "owns (config c) (la_address a)"
  obtains command where "planned_command c a = Inr command" "command_supported c command"
    "\<not> channel_wide c command" "command \<noteq> Count"
proof -
  obtain command where "planned_command c a = Inr command"
    using planned_command_value [OF assms] by (simp add: plan_access_cases)
  with planned_command_kind [OF this] that show ?thesis by blast
qed

lemma candidate_of_delivers:
  assumes "controller_ok c" and "owns (config c) (la_address a)"
  shows "delivers (\<lambda>(a', s). plain a' = plain a \<and> sched_ok c now w i a s) (candidate_of c now w i a)"
proof -
  obtain command where p: "planned_command c a = Inr command" "command_supported c command"
    "command \<noteq> Count" using planned_command_owned [OF assms] .
  then obtain d where d: "to_dram_command command = Inr d" using to_dram_command_Inr by blast
  have "delivers (\<lambda>r. True) (earliest_command c command (la_address a) now)"
    by (rule earliest_command_delivers [OF assms(1) p(2)])
  then show ?thesis
    using p d to_hbm_to_dram [OF d]
    by (cases "earliest_command c command (la_address a) now")
      (simp_all add: candidate_of_def sched_ok_def offers_def)
qed

lemma candidates_from_delivers:
  assumes "controller_ok c" and "\<forall>a \<in> set as. owns (config c) (la_address a)"
  shows "delivers (\<lambda>(as', ss). map plain as' = map plain as \<and> length ss = length as \<and>
    (\<forall>k < length as. sched_ok c now w (i + k) (as ! k) (ss ! k))) (candidates_from c now w i as)"
  using assms(2)
proof (induction as arbitrary: i)
  case (Cons a as)
  show ?case
    unfolding candidates_from.simps
  proof (rule delivers_bindI [OF candidate_of_delivers [OF assms(1)]])
    show "owns (config c) (la_address a)" using Cons.prems by simp
    fix x assume x: "case x of (a', s) \<Rightarrow> plain a' = plain a \<and> sched_ok c now w i a s"
    have IH: "delivers (\<lambda>(as', ss). map plain as' = map plain as \<and> length ss = length as \<and>
        (\<forall>k < length as. sched_ok c now w (Suc i + k) (as ! k) (ss ! k)))
        (candidates_from c now w (Suc i) as)"
      by (rule Cons.IH) (use Cons.prems in simp)
    obtain a' s where "x = (a', s)" by fastforce
    with x IH show "delivers (\<lambda>(as', ss). map plain as' = map plain (a # as) \<and>
        length ss = length (a # as) \<and>
        (\<forall>k < length (a # as). sched_ok c now w (i + k) ((a # as) ! k) (ss ! k)))
        (case x of (a', sc) \<Rightarrow> ebind (candidates_from c now w (Suc i) as)
          (\<lambda>(as', scs). Inr (a' # as', sc # scs)))"
      by (auto simp: delivers_ebind nth_Cons split: nat.split elim!: delivers_mono)
  qed
qed simp

section \<open>The chosen command\<close>

definition chosen :: "hbm_controller \<Rightarrow> sim_time \<Rightarrow> candidate \<Rightarrow> bool" where
  "chosen c now k \<longleftrightarrow> cand_index k < length (queue_of c (cand_is_write k)) \<and>
     offers c now (queue_of c (cand_is_write k) ! cand_index k) (cand_command k) (cand_ready_at k)"

definition queue_op :: "bool \<Rightarrow> hbm_op" where
  "queue_op w = (if w then hbm_op.Write else hbm_op.Read)"

lemma queue_of_ok: "controller_ok c \<Longrightarrow> queue_ok (config c) (queue_op w) (queue_of c w)"
  using controller_okD(8,9) [of c] by (simp add: queue_of_def queue_op_def)

lemma queued_owned: "controller_ok c \<Longrightarrow> a \<in> set (queue_of c w) \<Longrightarrow> owns (config c) (la_address a)"
  using queue_of_ok [of c w] by (auto simp: queue_ok_def access_ok_def)

lemma find_waiting_delivers:
  assumes "controller_ok c"
  shows "queue_of c w = pre @ as \<Longrightarrow> i = length pre \<Longrightarrow> (\<forall>k. waiting = Some k \<longrightarrow> chosen c now k) \<Longrightarrow>
    delivers (\<lambda>r. \<forall>k. r = Some k \<longrightarrow> chosen c now k \<and> (waiting = Some k \<or> is_data_command (cand_command k)))
      (find_waiting c now target w i as waiting)"
proof (induction as arbitrary: pre i waiting)
  case Nil
  then show ?case by simp
next
  case (Cons a as)
  have a: "a \<in> set (queue_of c w)" and at: "queue_of c w ! i = a" "i < length (queue_of c w)"
    using Cons.prems by (simp_all add: nth_append)
  note rest = Cons.IH [of "pre @ [a]" "Suc i"]
  have own: "owns (config c) (la_address a)" by (rule queued_owned [OF assms a])
  obtain command where p: "planned_command c a = Inr command" "command_supported c command"
    using planned_command_owned [OF assms own] by blast
  have skip: "delivers (\<lambda>r. \<forall>k. r = Some k \<longrightarrow> chosen c now k \<and>
      (waiting = Some k \<or> is_data_command (cand_command k)))
      (find_waiting c now target w (Suc i) as waiting)"
    by (rule rest) (use Cons.prems in simp_all)
  show ?case
  proof (cases "a_flat_bank (la_address a) = target \<and> is_data_command command")
    case False
    with p skip show ?thesis by auto
  next
    case True
    have "delivers (\<lambda>r. True) (earliest_command c command (la_address a) now)"
      by (rule earliest_command_delivers [OF assms p(2)])
    then consider s where "earliest_command c command (la_address a) now = Inl (OverflowError s)"
      | ready where "earliest_command c command (la_address a) now = Inr ready"
      by (cases "earliest_command c command (la_address a) now") auto
    then show ?thesis
    proof cases
      case 1
      with True p show ?thesis by simp
    next
      case 2
      let ?k = "\<lparr>cand_is_write = w, cand_index = i, cand_command = command,
        cand_ready_at = ready, cand_priority = 2\<rparr>"
      have k: "chosen c now ?k" using 2 p at by (simp add: chosen_def offers_def)
      have take: "delivers (\<lambda>r. \<forall>k. r = Some k \<longrightarrow> chosen c now k \<and>
          (waiting = Some k \<or> is_data_command (cand_command k)))
          (find_waiting c now target w (Suc i) as (Some ?k))"
        by (rule delivers_mono [OF rest]) (use Cons.prems k True in auto)
      show ?thesis
      proof (cases waiting)
        case None
        with 2 True p take show ?thesis by (simp add: Let_def)
      next
        case (Some x)
        then have "cand_index x < length (queue_of c (cand_is_write x))"
          using Cons.prems(3) by (simp add: chosen_def)
        with Some 2 True p take skip show ?thesis by (simp add: Let_def)
      qed
    qed
  qed
qed

text \<open>The command chosen is the planned command of a queued access, with the time it can issue.\<close>

lemma choose_next_delivers:
  assumes "controller_ok c"
  shows "delivers (\<lambda>(k, c'). requeued c c' \<and> controller_ok c' \<and>
      (k = None \<longleftrightarrow> read_queue c = [] \<and> write_queue c = []) \<and>
      (\<forall>k'. k = Some k' \<longrightarrow> chosen c' now k')) (choose_next c now)"
proof -
  define w where "w = (if queue_of c (draining_writes c) = [] then \<not> draining_writes c
    else draining_writes c)"
  let ?Q = "\<lambda>(k, c'). requeued c c' \<and> controller_ok c' \<and>
      (k = None \<longleftrightarrow> read_queue c = [] \<and> write_queue c = []) \<and>
      (\<forall>k'. k = Some k' \<longrightarrow> chosen c' now k')"
  have empty: "queue_of c w = [] \<longleftrightarrow> read_queue c = [] \<and> write_queue c = []"
    by (auto simp: w_def queue_of_def)
  have "delivers (\<lambda>(as', ss). map plain as' = map plain (queue_of c w) \<and>
      length ss = length (queue_of c w) \<and>
      (\<forall>k < length (queue_of c w). sched_ok c now w (0 + k) (queue_of c w ! k) (ss ! k)))
      (candidates_from c now w 0 (queue_of c w))"
    using queued_owned [OF assms] by (intro candidates_from_delivers assms ballI)
  then show ?thesis
    unfolding choose_next_def Let_def w_def [symmetric]
  proof (rule delivers_bindI)
    fix x
    assume "case x of (as', ss) \<Rightarrow> map plain as' = map plain (queue_of c w) \<and>
      length ss = length (queue_of c w) \<and>
      (\<forall>k < length (queue_of c w). sched_ok c now w (0 + k) (queue_of c w ! k) (ss ! k))"
    then obtain q ss where x: "x = (q, ss)" and q: "map plain q = map plain (queue_of c w)"
      and len: "length ss = length (queue_of c w)"
      and ss: "\<And>k. k < length ss \<Longrightarrow> sched_ok c now w k (queue_of c w ! k) (ss ! k)"
      by (auto split: prod.splits)
    let ?c = "set_queue c w q"
    have r: "requeued c ?c" by (rule set_queue_requeued [OF q])
    then have ok: "controller_ok ?c" using assms by (simp add: requeued_ok)
    have "config ?c = config c" by simp
    show "delivers ?Q (case x of (q, candidates) \<Rightarrow>
         case scheduler_choose (cfg_scheduler (config (set_queue c w q))) candidates now of
           None \<Rightarrow> Inr (None, set_queue c w q)
         | Some selected \<Rightarrow>
             if cand_ready_at (selected_candidate selected) > now \<or>
                cand_command (selected_candidate selected) \<noteq> PreBank
             then Inr (Some (selected_candidate selected), set_queue c w q)
             else ebind (element (queue_of (set_queue c w q) (cand_is_write (selected_candidate selected)))
                 (cand_index (selected_candidate selected))) (\<lambda>a.
               ebind (find_waiting (set_queue c w q) now (a_flat_bank (la_address a)) False 0
                 (read_queue (set_queue c w q)) None) (\<lambda>waiting.
               ebind (find_waiting (set_queue c w q) now (a_flat_bank (la_address a)) True 0
                 (write_queue (set_queue c w q)) waiting) (\<lambda>waiting.
                 Inr (case waiting of Some x \<Rightarrow> Some x | None \<Rightarrow> Some (selected_candidate selected),
                   set_queue c w q)))))"
    proof (cases "scheduler_choose (cfg_scheduler (config ?c)) ss now")
      case None
      then have "queue_of c w = []" using len by simp
      with None r ok empty show ?thesis by (simp add: x del: choose_None)
    next
      case (Some s)
      then have "s \<in> set ss" by (rule choose_member)
      then obtain i where i: "i < length ss" "s = ss ! i" by (auto simp: in_set_conv_nth)
      then have s: "sched_ok c now w i (queue_of c w ! i) s" using ss by simp
      let ?k = "selected_candidate s"
      have lenq: "length q = length ss" using q len by (metis length_map)
      have ne: "\<not> (read_queue c = [] \<and> write_queue c = [])" using empty i len by auto
      have "plain (q ! i) = plain (queue_of c w ! i)"
        using q i(1) lenq len by (metis nth_map)
      then have k: "chosen ?c now ?k"
        using s i lenq offers_cong [OF r] by (simp add: chosen_def sched_ok_def selected_candidate_def)
      then have idx: "cand_index ?k < length (queue_of ?c (cand_is_write ?k))" by (simp add: chosen_def)
      let ?t = "a_flat_bank (la_address (queue_of ?c (cand_is_write ?k) ! cand_index ?k))"
      have q0: "read_queue ?c = queue_of ?c False" "write_queue ?c = queue_of ?c True"
        by (simp_all add: queue_of_def)
      have f1: "delivers (\<lambda>v. \<forall>k. v = Some k \<longrightarrow> chosen ?c now k)
          (find_waiting ?c now ?t False 0 (read_queue ?c) None)"
        unfolding q0 by (rule delivers_mono [OF find_waiting_delivers [OF ok, of False "[]"]]) simp_all
      have f2: "delivers (\<lambda>v. \<forall>k. v = Some k \<longrightarrow> chosen ?c now k)
          (find_waiting ?c now ?t True 0 (write_queue ?c) v)" if "\<forall>k. v = Some k \<longrightarrow> chosen ?c now k" for v
        unfolding q0 by (rule delivers_mono [OF find_waiting_delivers [OF ok, of True "[]"]])
          (use that in simp_all)
      have "delivers ?Q (ebind (find_waiting ?c now ?t False 0 (read_queue ?c) None) (\<lambda>waiting.
          ebind (find_waiting ?c now ?t True 0 (write_queue ?c) waiting) (\<lambda>waiting.
            Inr (case waiting of Some x \<Rightarrow> Some x | None \<Rightarrow> Some ?k, ?c))))"
        using r ok ne k
        by (intro delivers_bindI [OF f1] delivers_bindI [OF f2]) (auto split: option.split)
      with Some r ok ne k idx show ?thesis by (simp add: x)
    qed
  qed
qed

end
