(* ===== verification/Controller_Safety.thy ===== *)
theory Controller_Safety
  imports Controller_Choice
begin

text \<open>
  Issuing the chosen command: transitions in closed form, the latency stages of a completed access,
  merging, and the proof that issuing keeps the invariant, loses no access and respects the timing
  engine.
\<close>

section \<open>Transitions in closed form\<close>

text \<open>What one command does to a bank it addresses.\<close>

definition transition_bank :: "hbm_controller \<Rightarrow> hbm_command \<Rightarrow> u32 \<Rightarrow> hbm_bank_state \<Rightarrow> hbm_bank_state" where
  "transition_bank c command row b =
     (if cfg_standard (config c) = None then
        (if command = Act then b\<lparr>open_row := Some row\<rparr>
         else if channel_command command \<or> command = PreBank \<or> bank_maintenance command
         then b\<lparr>open_row := None\<rparr> else b)
      else apply_rule (ct command (scope_of command) (effect_of command)) row b)"

lemma transition_bank_flags [simp]:
  "refresh_pending (transition_bank c command row b) = refresh_pending b"
  "rfm_pending (transition_bank c command row b) = rfm_pending b"
  "activation_count (transition_bank c command row b) = activation_count b"
  by (simp_all add: transition_bank_def apply_rule_def split: bank_transition.split)

lemma bank_ok_transition [simp]: "bank_ok cfg (transition_bank c command row b) = bank_ok cfg b"
  by (simp add: bank_ok_def)

lemma transition_all_value:
  assumes "supports std command"
  shows "transition_all std command row bs =
    Inr (map (apply_rule (ct command (scope_of command) (effect_of command)) row) bs)"
  using assms by (induction bs) (simp_all add: std_apply_transition_def transition_for_supported)

lemma apply_transition_value:
  assumes "command_supported c command" and "i < length (banks c)"
  shows "apply_transition c command row i = Inr (c\<lparr>banks :=
    (if channel_command command then map (transition_bank c command row) (banks c)
     else (banks c)[i := transition_bank c command row (banks c ! i)])\<rparr>)"
proof (cases "cfg_standard (config c)")
  case None
  then have t: "transition_bank c command row = (\<lambda>b.
      if command = Act then b\<lparr>open_row := Some row\<rparr>
      else if channel_command command \<or> command = PreBank \<or> bank_maintenance command
      then b\<lparr>open_row := None\<rparr> else b)" by (intro ext) (simp add: transition_bank_def)
  have u: "banks c ! i = b \<Longrightarrow> (banks c)[i := b] = banks c" for b by auto
  show ?thesis
  proof (cases "channel_command command")
    case True
    then have "command = PreAll \<or> command = hbm_command.RefreshAllBank \<or>
      command = hbm_command.RfmAllBank" by (simp add: channel_command_def)
    with None True show ?thesis unfolding t by (auto simp: apply_transition_def)
  next
    case False
    then have n: "\<not> (command = PreAll \<or> command = hbm_command.RefreshAllBank \<or>
      command = hbm_command.RfmAllBank)" by (simp add: channel_command_def)
    have m: "bank_maintenance command \<longleftrightarrow>
      command = hbm_command.RefreshPerBank \<or> command = hbm_command.RfmPerBank"
      by (simp add: bank_maintenance_def)
    show ?thesis
      unfolding apply_transition_def None option.case if_not_P [OF n] if_not_P [OF False]
        list_at_Inr [OF assms(2)] ebind_Inr Let_def t m
      using False by (auto simp: channel_command_def)
  qed
next
  case (Some std)
  then have s: "supports std command" using assms(1) by (simp add: command_supported_def)
  have t: "transition_bank c command row = apply_rule (ct command (scope_of command) (effect_of command)) row"
    using Some by (intro ext) (simp add: transition_bank_def)
  show ?thesis
    using s assms(2) unfolding t
    by (simp add: apply_transition_def Some transition_for_supported transition_all_value
        scope_of_def std_apply_transition_def)
qed

text \<open>A new state of the banks that keeps the invariant.\<close>

lemma controller_ok_banks:
  assumes "controller_ok c" and "length bs = length (banks c)" and "\<And>b. b \<in> set bs \<Longrightarrow> bank_ok (config c) b"
  shows "controller_ok (c\<lparr>banks := bs\<rparr>)"
  using assms by (simp add: controller_ok_def)

lemma apply_transition_ok:
  assumes "controller_ok c" and "command_supported c command" and "i < length (banks c)"
  shows "delivers (\<lambda>c'. controller_ok c' \<and> (\<exists>bs. c' = c\<lparr>banks := bs\<rparr> \<and> length bs = length (banks c)))
    (apply_transition c command row i)"
proof -
  let ?bs = "if channel_command command then map (transition_bank c command row) (banks c)
    else (banks c)[i := transition_bank c command row (banks c ! i)]"
  have len: "length ?bs = length (banks c)" by simp
  have "bank_ok (config c) b" if "b \<in> set ?bs" for b
    using that controller_okD(5) [OF assms(1)] assms(3)
    by (auto split: if_splits dest!: set_update_subset_insert [THEN subsetD])
  then have "controller_ok (c\<lparr>banks := ?bs\<rparr>)"
    by (rule controller_ok_banks [OF assms(1) len])
  with len show ?thesis
    unfolding apply_transition_value [OF assms(2,3)] delivers_Inr by blast
qed

section \<open>Bookkeeping of an access\<close>

abbreviation logical :: "'a logical_access_scheme \<Rightarrow> logical_access" where
  "logical \<equiv> logical_access.truncate"

lemma logical_to_completion [simp]: "logical (to_completion a l) = logical a"
  by (simp add: to_completion_def logical_access.defs)

lemma logical_fields:
  assumes "logical a = logical b"
  shows "la_address a = la_address b" "la_op a = la_op b" "la_arrival_time a = la_arrival_time b"
    "la_size_bytes a = la_size_bytes b" "la_parent_id a = la_parent_id b"
    "la_sequence a = la_sequence b" "la_metadata a = la_metadata b"
    "la_byte_address a = la_byte_address b"
  using assms by (simp_all add: logical_access.defs)

lemma logical_updates [simp]:
  "logical (a\<lparr>ha_access_class := x\<rparr>) = logical a" "logical (a\<lparr>activated := p\<rparr>) = logical a"
  "logical (a\<lparr>first_command_issued := p\<rparr>) = logical a" "logical (a\<lparr>starvation_reported := p\<rparr>) = logical a"
  "logical (a\<lparr>enqueued_at := t\<rparr>) = logical a" "logical (a\<lparr>first_command_at := t\<rparr>) = logical a"
  "logical (a\<lparr>command_eligible := p\<rparr>) = logical a" "logical (a\<lparr>command_eligible_since := t\<rparr>) = logical a"
  "logical (a\<lparr>latency_breakdown := l\<rparr>) = logical a"
  by (simp_all add: logical_access.defs)

lemma logical_plain: "plain a = plain a' \<Longrightarrow> logical a = logical a'"
  by (metis logical_updates(7,8) plain_def)

lemma begin_access_props [simp]:
  "logical (begin_access now a) = logical a" "first_command_issued (begin_access now a)"
  "enqueued_at (begin_access now a) = enqueued_at a" "activated (begin_access now a) = activated a"
  "ha_access_class (begin_access now a) = ha_access_class a"
  "la_address (begin_access now a) = la_address a" "la_op (begin_access now a) = la_op a"
  by (simp_all add: begin_access_def Let_def)

lemma begin_access_ok: "access_ok cfg op a \<Longrightarrow> access_ok cfg op (begin_access now a)"
  by (auto simp: access_ok_def begin_access_def Let_def)

lemma queue_ok_update:
  "queue_ok cfg op q \<Longrightarrow> access_ok cfg op a \<Longrightarrow> queue_ok cfg op (q[i := a])"
  unfolding queue_ok_def using set_update_subset_insert [of q i a] by blast

lemma queue_ok_subset: "queue_ok cfg op q \<Longrightarrow> set q' \<subseteq> set q \<Longrightarrow> queue_ok cfg op q'"
  by (auto simp: queue_ok_def)

lemma controller_ok_set_queue:
  assumes "controller_ok c" and "queue_ok (config c) (queue_op w) q"
  shows "controller_ok (set_queue c w q)"
  using assms by (cases w) (simp_all add: controller_ok_def set_queue_def queue_op_def)

text \<open>The accesses a controller holds.\<close>

definition held :: "hbm_controller \<Rightarrow> logical_access multiset" where
  "held c = mset (map logical (read_queue c)) + mset (map logical (write_queue c))"

lemma held_set_queue:
  "held (set_queue c w q) = mset (map logical q) + mset (map logical (queue_of c (\<not> w)))"
  by (cases w) (simp_all add: held_def set_queue_def queue_of_def)

lemma held_split: "held c = mset (map logical (queue_of c w)) + mset (map logical (queue_of c (\<not> w)))"
  by (cases w) (simp_all add: held_def queue_of_def)

lemma held_cong: "read_queue c = read_queue d \<Longrightarrow> write_queue c = write_queue d \<Longrightarrow> held c = held d"
  by (simp add: held_def)

lemma map_list_update_same: "i < length q \<Longrightarrow> f a = f (q ! i) \<Longrightarrow> map f (q[i := a]) = map f q"
  by (simp add: map_update list_update_same_conv)

lemma set_access_ok:
  assumes "controller_ok c" and "cand_index k < length (queue_of c (cand_is_write k))"
    and "access_ok (config c) (queue_op (cand_is_write k)) a"
    and "logical a = logical (queue_of c (cand_is_write k) ! cand_index k)"
  shows "controller_ok (set_access c k a)" and "held (set_access c k a) = held c"
proof -
  show "controller_ok (set_access c k a)"
    using assms queue_of_ok [OF assms(1)]
    by (simp add: set_access_def controller_ok_set_queue queue_ok_update)
  show "held (set_access c k a) = held c"
    unfolding set_access_def held_set_queue held_split [of c "cand_is_write k"]
    by (simp only: map_list_update_same [of _ _ logical, OF assms(2,4)])
qed

lemma set_access_simps [simp]:
  "config (set_access c k a) = config c" "banks (set_access c k a) = banks c"
  "engine (set_access c k a) = engine c" "mapper (set_access c k a) = mapper c"
  "stats (set_access c k a) = stats c"
  "queue_of (set_access c k a) (cand_is_write k) = (queue_of c (cand_is_write k))[cand_index k := a]"
  by (simp_all add: set_access_def)

section \<open>The data transfer\<close>

lemma stage_items_map: "fst (stage_items now cas w d as q) = map (stage_item now cas w d) as"
proof (induction as arbitrary: q)
  case (Cons a as)
  show ?case by (simp add: Let_def case_prod_unfold Cons.IH)
qed simp

lemma stage_item_logical [simp]: "logical (stage_item now cas w d a) = logical a"
  by (simp add: stage_item_def Let_def)

text \<open>The stages of a completed access add up to the time from its arrival to the end of the transfer.\<close>

lemma stage_item_total:
  assumes "access_ok cfg op a"
  shows "latency_total (latency_breakdown (stage_item now cas (start - (now + cas)) d a)) =
    start + d - la_arrival_time a"
  using assms by (auto simp: stage_item_def latency_total_def access_ok_def Let_def)

definition transferred ::
    "hbm_controller \<Rightarrow> candidate \<Rightarrow> hbm_access \<Rightarrow> hbm_access list \<Rightarrow> sim_time \<Rightarrow> physical_access \<Rightarrow>
     hbm_controller \<Rightarrow> bool" where
  "transferred c k first completed now p c' \<longleftrightarrow>
     c'\<lparr>stats := initial_stats, data_bus_ready_at := []\<rparr> =
       c\<lparr>stats := initial_stats, data_bus_ready_at := []\<rparr> \<and>
     stats_shape (stats c') = stats_shape (stats c) \<and>
     (\<exists>start duration. transfer_time (cfg_data_rate (config c)) (la_size_bytes first) = Inr duration \<and>
       start = max (now + cas_latency_of (config c) (cand_is_write k))
         (data_bus_ready_at c ! unat (a_pseudo_channel (la_address first))) \<and>
       pa_completion_time p = start + duration \<and>
       data_bus_ready_at c' =
         (data_bus_ready_at c)[unat (a_pseudo_channel (la_address first)) := start + duration] \<and>
       pa_completions p = map (\<lambda>a. to_completion a
         (if cfg_detailed_stats (config c) then latency_breakdown a else initial_latency))
         (map (stage_item now (cas_latency_of (config c) (cand_is_write k))
           (start - (now + cas_latency_of (config c) (cand_is_write k))) duration) completed)) \<and>
     pa_op p = queue_op (cand_is_write k) \<and> pa_address p = la_address first \<and>
     pa_bytes p = la_size_bytes first \<and> pa_command p = cand_command k \<and> pa_issued_at p = now"

lemma transferred_fields:
  assumes "transferred c k first completed now p c'"
  shows "config c' = config c" "mapper c' = mapper c" "banks c' = banks c" "engine c' = engine c"
    "read_queue c' = read_queue c" "write_queue c' = write_queue c"
    "next_per_bank_refresh c' = next_per_bank_refresh c"
    "reserved_reads c' = reserved_reads c" "reserved_writes c' = reserved_writes c"
    "outstanding_accesses c' = outstanding_accesses c"
    "stats_shape (stats c') = stats_shape (stats c)"
    "length (data_bus_ready_at c') = length (data_bus_ready_at c)" "wakeup_at c' = wakeup_at c"
proof -
  have eq: "c'\<lparr>stats := initial_stats, data_bus_ready_at := []\<rparr> =
      c\<lparr>stats := initial_stats, data_bus_ready_at := []\<rparr>"
    using assms by (simp add: transferred_def)
  show "config c' = config c" "mapper c' = mapper c" "banks c' = banks c" "engine c' = engine c"
    "read_queue c' = read_queue c" "write_queue c' = write_queue c"
    "next_per_bank_refresh c' = next_per_bank_refresh c"
    "reserved_reads c' = reserved_reads c" "reserved_writes c' = reserved_writes c"
    "outstanding_accesses c' = outstanding_accesses c" "wakeup_at c' = wakeup_at c"
    using arg_cong [OF eq, of config] arg_cong [OF eq, of mapper] arg_cong [OF eq, of banks]
      arg_cong [OF eq, of engine] arg_cong [OF eq, of read_queue] arg_cong [OF eq, of write_queue]
      arg_cong [OF eq, of next_per_bank_refresh] arg_cong [OF eq, of reserved_reads]
      arg_cong [OF eq, of reserved_writes] arg_cong [OF eq, of outstanding_accesses]
      arg_cong [OF eq, of wakeup_at]
    by simp_all
  show "stats_shape (stats c') = stats_shape (stats c)"
    "length (data_bus_ready_at c') = length (data_bus_ready_at c)"
    using assms by (auto simp: transferred_def)
qed

lemma transferred_ok: "transferred c k first completed now p c' \<Longrightarrow> controller_ok c \<Longrightarrow> controller_ok c'"
  using transferred_fields [of c k first completed now p c'] by (simp add: controller_ok_def)

lemma transfer_time_delivers:
  assumes "br_bytes r \<noteq> 0" and "br_interval r \<noteq> 0"
  shows "delivers (\<lambda>d. transfer_time r n = Inr d) (transfer_time r n)"
  unfolding transfer_time_cases [OF assms] by simp

lemma detailed_queue_counted:
  "counters_ok c \<Longrightarrow> delivers (counted c) (when_detailed c (\<lambda>c. update_queue_stats c f))"
  by (rule when_detailed_counted) (rule update_queue_stats_counted)

lemma detailed_bank_counted:
  "counters_ok c \<Longrightarrow> i < unat (cfg_bank_count (config c)) \<Longrightarrow>
   delivers (counted c) (when_detailed c (\<lambda>c. update_bank_stats c i f))"
  by (rule when_detailed_counted) (rule update_bank_stats_counted)

lemma detailed_pseudo_counted:
  "counters_ok c \<Longrightarrow> i < unat (cfg_pseudo_channel_count (config c)) \<Longrightarrow>
   delivers (counted c) (when_detailed c (\<lambda>c. update_pseudo_channel_stats c i f))"
  by (rule when_detailed_counted) (rule update_pseudo_channel_stats_counted)

lemma counted_stats: "stats_shape s = stats_shape (stats c) \<Longrightarrow> counted c (c\<lparr>stats := s\<rparr>)"
  by (auto simp: counted_def)

lemma counted_seq:
  assumes "delivers (counted c) m"
    and "\<And>c'. counted c c' \<Longrightarrow> counters_ok c' = counters_ok c \<Longrightarrow> config c' = config c \<Longrightarrow>
      delivers (counted c') (f c')"
  shows "delivers (counted c) (ebind m f)"
  using assms(1)
proof (rule counted_bindI)
  fix c' assume c': "counted c c'"
  show "delivers (counted c) (f c')"
    by (rule counted_stepI [OF c'], rule assms(2))
      (use c' in \<open>simp_all add: counted_counters_ok counted_fields(1)\<close>)
qed

lemma stats_shape_count_physical [simp]: "stats_shape (count_physical w n s) = stats_shape s"
  by (simp add: count_physical_def Let_def stats_shape_def)

lemma account_transfer_counted:
  assumes c: "counters_ok c" and i: "i < unat (cfg_bank_count (config c))"
    and p: "unat (a_pseudo_channel (la_address first)) < unat (cfg_pseudo_channel_count (config c))"
    and "completed \<noteq> []"
  shows "delivers (counted c) (account_transfer c w first completed i now cas start d)"
proof -
  have front: "element (map (stage_item now cas (start - (now + cas)) d) completed) 0 =
      Inr (map (stage_item now cas (start - (now + cas)) d) completed ! 0)"
    using assms(4) by simp
  show ?thesis
    unfolding account_transfer_def Let_def stage_items_map front ebind_Inr
    apply (rule counted_seq [OF update_channel_counted [OF c]], simp add: keeps_shape_def)
    subgoal for c2
      apply (rule counted_seq [OF detailed_pseudo_counted], simp add: c, simp add: p)
      subgoal for c3
        apply (rule counted_seq [OF detailed_queue_counted], simp add: c)
        subgoal for c4
          apply (rule counted_seq [OF detailed_bank_counted], simp add: c, simp add: i)
          apply (simp add: counted_stats)
          done
        done
      done
    done
qed

lemma transfer_delivers:
  assumes ok: "controller_ok c" and own: "owns (config c) (la_address first)"
    and i: "i < unat (cfg_bank_count (config c))" and "completed \<noteq> []"
  shows "delivers (\<lambda>(p, c'). transferred c k first completed now p c') (transfer c k first completed i now)"
proof -
  let ?ps = "unat (a_pseudo_channel (la_address first))"
  have cnt: "counters_ok c" using ok by (rule counters_ok_D)
  have ps: "?ps < length (data_bus_ready_at c)" "?ps < unat (cfg_pseudo_channel_count (config c))"
    using own controller_okD(6) [OF ok] by (simp_all add: owns_def)
  have rate: "br_bytes (cfg_data_rate (config c)) \<noteq> 0" "br_interval (cfg_data_rate (config c)) \<noteq> 0"
    using controller_okD(1) [OF ok] by (simp_all add: config_ok_def)
  show ?thesis
    unfolding transfer_def Let_def list_at_Inr [OF own_channel [OF cnt]] list_at_Inr [OF ps(1)] ebind_Inr
      stage_items_map
  proof (rule delivers_bindI [OF transfer_time_delivers [OF rate]], rule delivers_bindI [OF account_transfer_counted])
    fix d c'
    let ?start = "max (now + cas_latency_of (config c) (cand_is_write k)) (data_bus_ready_at c ! ?ps)"
    let ?c1 = "c\<lparr>data_bus_ready_at := (data_bus_ready_at c)[?ps := ?start + d]\<rparr>"
    assume "transfer_time (cfg_data_rate (config c)) (la_size_bytes first) = Inr d"
      and "counted ?c1 c'"
    then show "delivers (\<lambda>(p, c'). transferred c k first completed now p c')
      (Inr (\<lparr>pa_op = if cand_is_write k then hbm_op.Write else hbm_op.Read,
             pa_address = la_address first, pa_bytes = la_size_bytes first,
             pa_command = cand_command k, pa_issued_at = now, pa_completion_time = ?start + d,
             pa_completions = map (\<lambda>a. to_completion a
               (if cfg_detailed_stats (config c) then latency_breakdown a else initial_latency))
               (map (stage_item now (cas_latency_of (config c) (cand_is_write k))
                 (?start - (now + cas_latency_of (config c) (cand_is_write k))) d) completed)\<rparr>, c'))"
      by (auto simp: transferred_def counted_def queue_op_def)
  qed (use cnt ps i assms(4) in \<open>simp_all add: counters_ok_def\<close>)
qed

section \<open>Merging reads\<close>

lemma merge_loop_spec:
  assumes "merge_loop policy first cls q = (merged, kept)"
  shows "mset (map logical q) = mset (map logical merged) + mset (map logical kept)"
    and "set kept \<subseteq> set q"
    and "\<forall>m \<in> set merged. \<exists>a \<in> set q. m = a\<lparr>ha_access_class := cls\<rparr> \<and> can_merge policy first a"
    and "kept = filter (\<lambda>a. \<not> can_merge policy first a) q"
  using assms
proof (induction q arbitrary: merged kept)
  case (Cons a q)
  obtain m k where mk: "merge_loop policy first cls q = (m, k)" by fastforce
  note IH = Cons.IH [OF mk]
  case 1
  then show ?case using mk IH(1) by (auto split: if_splits)
  case 2
  then show ?case using mk IH(2) by (auto split: if_splits)
  case 3
  then show ?case using mk IH(3) by (fastforce split: if_splits)
  case 4
  then show ?case using mk IH(4) by (auto split: if_splits)
qed simp_all

lemma access_ok_class [simp]: "access_ok cfg op (a\<lparr>ha_access_class := x\<rparr>) = access_ok cfg op a"
  by (simp add: access_ok_def)

text \<open>
  The completed accesses: the first, and with merging the reads of the queue that name the same
  bytes; none is lost.
\<close>

lemma merge_reads_delivers:
  assumes ok: "controller_ok c" and first: "access_ok (config c) (queue_op w) first"
  shows "delivers (\<lambda>(completed, c'). controller_ok c' \<and>
      (\<exists>rest. completed = first # rest \<and> (rest \<noteq> [] \<longrightarrow> \<not> w \<and> cfg_enable_request_merging (config c))) \<and>
      (\<forall>a \<in> set completed. access_ok (config c) (queue_op w) a) \<and>
      (\<exists>s q. c' = c\<lparr>stats := s, read_queue := q\<rparr> \<and> stats_shape s = stats_shape (stats c) \<and> length q \<le> length (read_queue c)) \<and>
      held c + {#logical first#} = held c' + mset (map logical completed))
    (merge_reads c w first)"
proof (cases "w \<or> (\<exists>wr \<in> set (write_queue c). overlapping_write first wr)")
  case True
  have "c = c\<lparr>stats := stats c, read_queue := read_queue c\<rparr>" by simp
  then have "\<exists>s q. c = c\<lparr>stats := s, read_queue := q\<rparr> \<and> stats_shape s = stats_shape (stats c) \<and>
      length q \<le> length (read_queue c)" by blast
  with True ok first show ?thesis by (simp add: merge_reads_def)
next
  case False
  obtain merged kept where m: "merge_loop (cfg_enable_request_merging (config c)) first
      (ha_access_class first) (read_queue c) = (merged, kept)" by fastforce
  note spec = merge_loop_spec [OF m]
  show ?thesis
  proof (cases "merged = []")
    case True
    have "c = c\<lparr>stats := stats c, read_queue := read_queue c\<rparr>" by simp
    then have "\<exists>s q. c = c\<lparr>stats := s, read_queue := q\<rparr> \<and> stats_shape s = stats_shape (stats c) \<and>
      length q \<le> length (read_queue c)" by blast
    with True False m ok first show ?thesis by (simp add: merge_reads_def)
  next
    case merging: False
    let ?c1 = "c\<lparr>read_queue := kept\<rparr>"
    have rq: "queue_ok (config c) hbm_op.Read (read_queue c)" using ok by (rule controller_okD)
    have c1: "controller_ok ?c1"
      using ok queue_ok_subset [OF rq spec(2)] by (simp add: controller_ok_def)
    have policy: "cfg_enable_request_merging (config c)"
      using merging spec(3) by (cases merged) (auto simp: can_merge_def split: if_splits)
    have accs: "access_ok (config c) (queue_op w) a" if "a \<in> set (first # merged)" for a
      using that False first spec(3) rq by (auto simp: queue_ok_def queue_op_def)
    have h: "held c + {#logical first#} = held ?c1 + mset (map logical (first # merged))"
      using spec(1) by (simp add: held_def)
    have len: "length kept \<le> length (read_queue c)" using spec(4) by simp
    have "delivers (counted ?c1) (update_queue_stats ?c1 (\<lambda>q.
        q\<lparr>merged_accesses := merged_accesses q + size_of merged\<rparr>))"
      by (rule update_queue_stats_counted [OF counters_ok_D [OF c1]])
    then have "delivers (\<lambda>c'. controller_ok c' \<and> (\<exists>s. c' = ?c1\<lparr>stats := s\<rparr> \<and> stats_shape s = stats_shape (stats c)) \<and>
        held c + {#logical first#} = held c' + mset (map logical (first # merged)))
        (update_queue_stats ?c1 (\<lambda>q. q\<lparr>merged_accesses := merged_accesses q + size_of merged\<rparr>))"
    proof (rule delivers_mono)
      fix c' assume c': "counted ?c1 c'"
      have "controller_ok c'" using c1 counted_ok [OF c'] by simp
      moreover have "\<exists>s. c' = ?c1\<lparr>stats := s\<rparr> \<and> stats_shape s = stats_shape (stats c)"
        using c' by (auto simp: counted_def)
      moreover have "held c' = held ?c1"
        by (rule held_cong) (use counted_fields [OF c'] in simp_all)
      ultimately show "controller_ok c' \<and> (\<exists>s. c' = ?c1\<lparr>stats := s\<rparr> \<and> stats_shape s = stats_shape (stats c)) \<and>
          held c + {#logical first#} = held c' + mset (map logical (first # merged))"
        using h by simp
    qed
    then have "delivers (\<lambda>(completed, c'). controller_ok c' \<and>
        (\<exists>rest. completed = first # rest \<and> (rest \<noteq> [] \<longrightarrow> \<not> w \<and> cfg_enable_request_merging (config c))) \<and>
        (\<forall>a \<in> set completed. access_ok (config c) (queue_op w) a) \<and>
        (\<exists>s q. c' = c\<lparr>stats := s, read_queue := q\<rparr> \<and> stats_shape s = stats_shape (stats c) \<and> length q \<le> length (read_queue c)) \<and>
        held c + {#logical first#} = held c' + mset (map logical completed))
      (ebind (update_queue_stats ?c1 (\<lambda>q. q\<lparr>merged_accesses := merged_accesses q + size_of merged\<rparr>))
        (\<lambda>c'. Inr (first # merged, c')))"
      unfolding delivers_ebind
    proof (rule delivers_mono)
      fix c' assume a: "controller_ok c' \<and> (\<exists>s. c' = ?c1\<lparr>stats := s\<rparr> \<and> stats_shape s = stats_shape (stats c)) \<and>
        held c + {#logical first#} = held c' + mset (map logical (first # merged))"
      then obtain s where "c' = ?c1\<lparr>stats := s\<rparr>" and shape: "stats_shape s = stats_shape (stats c)"
        by blast
      then have "c' = c\<lparr>stats := s, read_queue := kept\<rparr>" by simp
      with len shape have "\<exists>s q. c' = c\<lparr>stats := s, read_queue := q\<rparr> \<and>
          stats_shape s = stats_shape (stats c) \<and> length q \<le> length (read_queue c)"
        by blast
      with a accs policy False show "delivers (\<lambda>(completed, c'). controller_ok c' \<and>
        (\<exists>rest. completed = first # rest \<and> (rest \<noteq> [] \<longrightarrow> \<not> w \<and> cfg_enable_request_merging (config c))) \<and>
        (\<forall>a \<in> set completed. access_ok (config c) (queue_op w) a) \<and>
        (\<exists>s q. c' = c\<lparr>stats := s, read_queue := q\<rparr> \<and> stats_shape s = stats_shape (stats c) \<and> length q \<le> length (read_queue c)) \<and>
        held c + {#logical first#} = held c' + mset (map logical completed)) (Inr (first # merged, c'))"
        by simp
    qed
    with False m merging show ?thesis by (simp add: merge_reads_def)
  qed
qed

section \<open>What a step leaves alone\<close>

definition confined :: "hbm_controller \<Rightarrow> hbm_controller \<Rightarrow> bool" where
  "confined c c' \<longleftrightarrow> config c' = config c \<and> mapper c' = mapper c \<and>
     reserved_reads c' = reserved_reads c \<and> reserved_writes c' = reserved_writes c \<and>
     outstanding_accesses c' = outstanding_accesses c \<and> wakeup_at c' = wakeup_at c \<and>
     stats_shape (stats c') = stats_shape (stats c) \<and>
     length (read_queue c') \<le> length (read_queue c) \<and>
     length (write_queue c') \<le> length (write_queue c)"

lemma confined_refl [simp]: "confined c c"
  by (simp add: confined_def)

lemma confined_trans [trans]: "confined a b \<Longrightarrow> confined b c \<Longrightarrow> confined a c"
  by (auto simp: confined_def)

lemma confinedD: "confined c c' \<Longrightarrow> config c' = config c" "confined c c' \<Longrightarrow> mapper c' = mapper c"
  by (simp_all add: confined_def)

lemma confined_counted: "counted c c' \<Longrightarrow> confined c c'"
  by (auto simp: counted_def confined_def)

lemma confined_requeued: "requeued c c' \<Longrightarrow> confined c c'"
  by (simp add: confined_def requeued_fields)

lemma confined_recorded: "recorded c command a now c' \<Longrightarrow> confined c c'"
  by (simp add: confined_def recorded_fields)

lemma confined_transferred: "transferred c k first completed now p c' \<Longrightarrow> confined c c'"
  by (simp add: confined_def transferred_fields)

lemma confined_banks [simp]: "confined c (c\<lparr>banks := bs\<rparr>)"
  by (simp add: confined_def)

lemma confined_set_queue: "length q \<le> length (queue_of c w) \<Longrightarrow> confined c (set_queue c w q)"
  by (cases w) (simp_all add: confined_def set_queue_def queue_of_def)

lemma confined_set_access [simp]: "confined c (set_access c k a)"
  unfolding set_access_def by (rule confined_set_queue) simp

section \<open>Issuing a data command\<close>

text \<open>
  The physical access of a data command: its completions are served accesses of the queue, and
  each one's latency stages add up to the time from its arrival to the end of the transfer.
\<close>

definition serves :: "hbm_controller_config \<Rightarrow> bool \<Rightarrow> physical_access \<Rightarrow> bool" where
  "serves cfg w p \<longleftrightarrow> pa_completions p \<noteq> [] \<and> pa_op p = queue_op w \<and>
     (\<forall>x \<in> set (pa_completions p). la_op x = queue_op w \<and> owns cfg (la_address x) \<and>
       (cfg_detailed_stats cfg \<longrightarrow>
         latency_total (lc_latency_breakdown x) = pa_completion_time p - la_arrival_time x)) \<and>
     (length (pa_completions p) > 1 \<longrightarrow> \<not> w \<and> cfg_enable_request_merging cfg)"

lemma close_after_data_ok:
  assumes ok: "controller_ok c" and "command_supported c command" and i: "i < length (banks c)"
  shows "delivers (\<lambda>c'. controller_ok c' \<and> (\<exists>bs. c' = c\<lparr>banks := bs\<rparr> \<and> length bs = length (banks c)))
    (close_after_data c command row i)"
proof -
  have "controller_ok (c\<lparr>banks := (banks c)[i := (banks c ! i)\<lparr>precharge_pending := True\<rparr>]\<rparr>)"
    using controller_okD(5) [OF ok] controller_okD(5) [OF ok nth_mem [OF i]]
    by (intro controller_ok_banks ok)
      (auto simp: bank_ok_def dest!: set_update_subset_insert [THEN subsetD])
  moreover have "\<exists>bs. c = c\<lparr>banks := bs\<rparr> \<and> length bs = length (banks c)"
    by (intro exI [of _ "banks c"]) simp
  moreover have "\<exists>bs. c\<lparr>banks := (banks c)[i := (banks c ! i)\<lparr>precharge_pending := True\<rparr>]\<rparr> =
      c\<lparr>banks := bs\<rparr> \<and> length bs = length (banks c)"
    by (intro exI [of _ "(banks c)[i := (banks c ! i)\<lparr>precharge_pending := True\<rparr>]"]) simp
  ultimately show ?thesis
    using ok i apply_transition_ok [OF assms] by (simp add: close_after_data_def)
qed

lemma mset_remove_at:
  "i < length q \<Longrightarrow> mset (map f q) = mset (map f (remove_at i q)) + {#f (q ! i)#}"
  by (subst id_take_nth_drop [of i q]) (simp_all add: remove_at_def)

lemma lc_to_completion [simp]: "lc_latency_breakdown (to_completion a l) = l"
  by (simp add: to_completion_def logical_access.defs logical_completion.defs)

lemma la_to_completion [simp]:
  "la_op (to_completion a l) = la_op a" "la_address (to_completion a l) = la_address a"
  "la_arrival_time (to_completion a l) = la_arrival_time a"
  by (simp_all add: logical_fields [OF logical_to_completion])

lemma la_stage_item [simp]:
  "la_op (stage_item now cas w d a) = la_op a" "la_address (stage_item now cas w d a) = la_address a"
  "la_arrival_time (stage_item now cas w d a) = la_arrival_time a"
  by (simp_all add: logical_fields [OF stage_item_logical])

lemma transferred_serves:
  assumes "transferred c k first completed now p c'"
    and "\<forall>a \<in> set completed. access_ok (config c) (queue_op (cand_is_write k)) a" and "completed \<noteq> []"
    and "length completed > 1 \<longrightarrow> \<not> cand_is_write k \<and> cfg_enable_request_merging (config c)"
  shows "serves (config c) (cand_is_write k) p" and "map logical (pa_completions p) = map logical completed"
proof -
  obtain start d where c: "pa_completions p = map (\<lambda>a. to_completion a
       (if cfg_detailed_stats (config c) then latency_breakdown a else initial_latency))
       (map (stage_item now (cas_latency_of (config c) (cand_is_write k))
         (start - (now + cas_latency_of (config c) (cand_is_write k))) d) completed)"
    and t: "pa_completion_time p = start + d" and op: "pa_op p = queue_op (cand_is_write k)"
    using assms(1) by (auto simp: transferred_def)
  show "serves (config c) (cand_is_write k) p"
    using assms(2-4) by (auto simp: serves_def c t op stage_item_total access_ok_def)
  show "map logical (pa_completions p) = map logical completed" by (simp add: c comp_def)
qed

lemma issue_data_delivers:
  assumes ok: "controller_ok c" and k: "cand_index k < length (queue_of c (cand_is_write k))"
    and a: "queue_of c (cand_is_write k) ! cand_index k = a"
    and open_a: "open_row b = Some (a_row (la_address a))"
    and supp: "command_supported c (cand_command k)" and i: "i < length (banks c)"
  shows "delivers (\<lambda>(p, c'). controller_ok c' \<and> confined c c' \<and> engine c' = engine c \<and>
      held c = held c' + mset (map logical (pa_completions p)) \<and>
      serves (config c) (cand_is_write k) p \<and> pa_command p = cand_command k \<and> pa_issued_at p = now)
    (issue_data c k a i b now)"
proof -
  let ?w = "cand_is_write k" and ?q = "queue_of c (cand_is_write k)"
  define first where "first = (if \<not> activated a \<and> ha_access_class a \<noteq> RowConflict
      then a\<lparr>ha_access_class := RowHit\<rparr> else a)"
  let ?c1 = "set_queue c ?w (remove_at (cand_index k) ?q)"
  let ?Q = "\<lambda>(p, c'). controller_ok c' \<and> confined c c' \<and> engine c' = engine c \<and>
      held c = held c' + mset (map logical (pa_completions p)) \<and>
      serves (config c) ?w p \<and> pa_command p = cand_command k \<and> pa_issued_at p = now"
  have set1: "set (remove_at (cand_index k) ?q) \<subseteq> set ?q"
    by (auto simp: remove_at_def dest: in_set_takeD in_set_dropD)
  have qok: "queue_ok (config c) (queue_op ?w) ?q" by (rule queue_of_ok [OF ok])
  then have aok: "access_ok (config c) (queue_op ?w) a" using k a by (auto simp: queue_ok_def)
  have c1: "controller_ok ?c1" by (rule controller_ok_set_queue [OF ok queue_ok_subset [OF qok set1]])
  have conf1: "confined c ?c1" by (rule confined_set_queue) (simp add: remove_at_def)
  have held1: "held c = held ?c1 + {#logical a#}"
    unfolding held_set_queue held_split [of c ?w] using mset_remove_at [OF k, of logical] a by simp
  have first: "access_ok (config ?c1) (queue_op ?w) first" "logical first = logical a"
    "la_address first = la_address a" using aok by (simp_all add: first_def)
  have own: "owns (config c) (la_address first)" using aok by (simp add: access_ok_def first)
  have e: "issue_data c k a i b now = ebind (merge_reads ?c1 ?w first) (\<lambda>(completed, c2).
     ebind (close_after_data c2 (cand_command k) (a_row (la_address first)) i) (\<lambda>c3.
       transfer c3 k first completed i now))"
    by (simp only: issue_data_def Let_def open_a throw_if_def first_def [symmetric] simp_thms
        if_False ebind_Inr)
  show ?thesis unfolding e
  proof (rule delivers_bindI [OF merge_reads_delivers [OF c1 first(1)]], clarify)
    fix completed rest c2 s q
    assume shape: "stats_shape s = stats_shape (stats ?c1)" and c2: "controller_ok (?c1\<lparr>stats := s, read_queue := q\<rparr>)"
      and rest: "rest \<noteq> [] \<longrightarrow> \<not> ?w \<and> cfg_enable_request_merging (config ?c1)"
      and accs: "\<forall>a \<in> set (first # rest). access_ok (config ?c1) (queue_op ?w) a"
      and len: "length q \<le> length (read_queue ?c1)"
      and held2: "held ?c1 + {#logical first#} =
        held (?c1\<lparr>stats := s, read_queue := q\<rparr>) + mset (map logical (first # rest))"
    let ?c2 = "?c1\<lparr>stats := s, read_queue := q\<rparr>"
    have supp2: "command_supported ?c2 (cand_command k)" and i2: "i < length (banks ?c2)"
      using supp i by (simp_all add: command_supported_def)
    show "delivers ?Q (ebind (close_after_data ?c2 (cand_command k) (a_row (la_address first)) i)
        (\<lambda>c3. transfer c3 k first (first # rest) i now))"
    proof (rule delivers_bindI [OF close_after_data_ok [OF c2 supp2 i2]], elim conjE exE)
      fix c3 bs assume c3: "controller_ok c3" "c3 = ?c2\<lparr>banks := bs\<rparr>"
      have f3: "config c3 = config c" "engine c3 = engine c" "held c3 = held ?c2"
        by (simp_all add: c3(2) held_def)
      have conf3: "confined c c3"
        using conf1 shape len by (simp add: c3(2) confined_def)
      show "delivers ?Q (transfer c3 k first (first # rest) i now)"
      proof (rule delivers_mono [OF transfer_delivers [OF c3(1)]], goal_cases)
        case (4 x)
        then obtain p c4 where x: "x = (p, c4)" and t: "transferred c3 k first (first # rest) now p c4"
          by (auto split: prod.splits)
        have len': "length (first # rest) > 1 \<longrightarrow> \<not> ?w \<and> cfg_enable_request_merging (config c3)"
          using rest by (cases rest) (simp_all add: f3)
        have accs': "\<forall>a \<in> set (first # rest). access_ok (config c3) (queue_op ?w) a"
          using accs by (simp add: f3)
        note sv = transferred_serves [OF t accs' _ len']
        have "mset (map logical (pa_completions p)) = mset (map logical (first # rest))"
          by (simp only: sv(2) list.distinct not_False_eq_True)
        moreover have "held c4 = held c3" by (rule held_cong) (simp_all add: transferred_fields [OF t])
        ultimately have "held c = held c4 + mset (map logical (pa_completions p))"
          using held1 held2 by (simp only: f3 first(2) mset_map)
        moreover have "confined c c4" by (rule confined_trans [OF conf3 confined_transferred [OF t]])
        moreover have "engine c4 = engine c" by (simp add: transferred_fields [OF t] f3)
        moreover have "pa_command p = cand_command k \<and> pa_issued_at p = now"
          using t by (simp add: transferred_def)
        ultimately show ?case
          using sv(1) transferred_ok [OF t c3(1)] by (simp add: x f3)
      qed (use own i controller_okD(4) [OF ok] in \<open>simp_all add: f3\<close>)
    qed
  qed
qed

section \<open>Issuing the chosen command\<close>

text \<open>The accesses a step hands over.\<close>

definition served :: "physical_access option \<Rightarrow> logical_access multiset" where
  "served p = (case p of None \<Rightarrow> {#} | Some p \<Rightarrow> mset (map logical (pa_completions p)))"

lemma served_simps [simp]: "served None = {#}" "served (Some p) = mset (map logical (pa_completions p))"
  by (simp_all add: served_def)

definition issue_ok ::
    "hbm_controller \<Rightarrow> candidate \<Rightarrow> sim_time \<Rightarrow> physical_access option \<Rightarrow> hbm_controller \<Rightarrow> bool" where
  "issue_ok c k now p c' \<longleftrightarrow>
     (let a = queue_of c (cand_is_write k) ! cand_index k in
      controller_ok c' \<and> confined c c' \<and>
      issuable c (cand_command k) (la_address a) now \<and>
      engine c' = record_issue (engine c) (cand_command k) (la_address a) now \<and>
      held c = held c' + served p \<and>
      (p \<noteq> None \<longleftrightarrow> is_data_command (cand_command k)) \<and>
      (\<forall>x. p = Some x \<longrightarrow> serves (config c) (cand_is_write k) x \<and>
         pa_command x = cand_command k \<and> pa_issued_at x = now))"

lemma issue_activate_delivers:
  assumes ok: "controller_ok c" and k: "cand_index k < length (queue_of c (cand_is_write k))"
    and a: "queue_of c (cand_is_write k) ! cand_index k = a" and act: "cand_command k = Act"
    and i: "i < length (banks c)"
  shows "delivers (\<lambda>c'. controller_ok c' \<and> confined c c' \<and> engine c' = engine c \<and> held c = held c')
    (issue_activate c k a i)"
proof -
  have supp: "command_supported c Act"
    by (simp add: command_supported_def supports_common common_support_def split: option.split)
  show ?thesis
    unfolding issue_activate_def act
  proof (rule delivers_bindI [OF apply_transition_ok [OF ok supp i]], elim conjE exE)
    fix c1 bs assume c1: "controller_ok c1" "c1 = c\<lparr>banks := bs\<rparr>" "length bs = length (banks c)"
    have i1: "i < length (banks c1)" using c1 i by simp
    let ?b = "banks c1 ! i"
    let ?b' = "count_activation (config c) ?b"
    let ?c2 = "c1\<lparr>banks := (banks c1)[i := ?b']\<rparr>"
    have b: "bank_ok (config c1) ?b" by (rule controller_okD(5) [OF c1(1) nth_mem [OF i1]])
    then have b': "bank_ok (config c1) ?b'" using c1(2)
      by (auto simp: bank_ok_def count_activation_def Let_def)
    have c2: "controller_ok ?c2"
      using b' controller_okD(5) [OF c1(1)]
      by (intro controller_ok_banks c1(1)) (auto dest!: set_update_subset_insert [THEN subsetD])
    have q: "queue_of ?c2 w = queue_of c w" for w by (simp add: c1(2) queue_of_def)
    have "a \<in> set (queue_of c (cand_is_write k))" using k a by auto
    then have "access_ok (config ?c2) (queue_op (cand_is_write k)) (a\<lparr>activated := True\<rparr>)"
      using queue_of_ok [OF ok, of "cand_is_write k"] c1(2) by (simp add: queue_ok_def access_ok_def)
    note sa = set_access_ok [OF c2 _ this, unfolded q, OF k]
    have "held ?c2 = held c" by (simp add: c1(2) held_def)
    moreover have "confined c ?c2" by (simp add: c1(2) confined_def)
    ultimately show "delivers (\<lambda>c'. controller_ok c' \<and> confined c c' \<and> engine c' = engine c \<and> held c = held c')
      (ebind (list_at (banks c1) i) (\<lambda>b. Inr (set_access
        (c1\<lparr>banks := (banks c1)[i := count_activation (config c) b]\<rparr>) k (a\<lparr>activated := True\<rparr>))))"
      using sa a i1 confined_trans [OF _ confined_set_access, of c ?c2 k "a\<lparr>activated := True\<rparr>"]
      by (simp add: c1(2))
  qed
qed

lemma issue_precharge_delivers:
  assumes ok: "controller_ok c" and k: "cand_index k < length (queue_of c (cand_is_write k))"
    and a: "queue_of c (cand_is_write k) ! cand_index k = a" and "command_supported c (cand_command k)"
    and i: "i < length (banks c)"
  shows "delivers (\<lambda>c'. controller_ok c' \<and> confined c c' \<and> engine c' = engine c \<and> held c = held c')
    (issue_precharge c k a i b)"
proof -
  define a' where "a' = (case open_row b of None \<Rightarrow> a
     | Some r \<Rightarrow> if r \<noteq> a_row (la_address a) then a\<lparr>ha_access_class := RowConflict\<rparr> else a)"
  have "a \<in> set (queue_of c (cand_is_write k))" using k a by auto
  then have "access_ok (config c) (queue_op (cand_is_write k)) a"
    using queue_of_ok [OF ok, of "cand_is_write k"] by (simp add: queue_ok_def)
  then have a': "access_ok (config c) (queue_op (cand_is_write k)) a'" "logical a' = logical a"
    by (simp_all add: a'_def split: option.split)
  let ?c1 = "set_access c k a'"
  have "logical a' = logical (queue_of c (cand_is_write k) ! cand_index k)" using a a' by simp
  note c1 = set_access_ok [OF ok k a'(1) this]
  have supp: "command_supported ?c1 (cand_command k)" and i1: "i < length (banks ?c1)"
    using assms(4) i by (simp_all add: command_supported_def)
  show ?thesis
    unfolding issue_precharge_def Let_def a'_def [symmetric]
  proof (rule delivers_mono [OF apply_transition_ok [OF c1(1) supp i1]], elim conjE exE)
    fix c' bs assume c': "controller_ok c'" "c' = ?c1\<lparr>banks := bs\<rparr>"
    have "confined c c'" unfolding c'(2) by (rule confined_trans [OF confined_set_access confined_banks])
    with c' show "controller_ok c' \<and> confined c c' \<and> engine c' = engine c \<and> held c = held c'"
      using c1(2) by (simp add: held_def)
  qed
qed

lemma chosen_data_open:
  assumes ok: "controller_ok c" and "chosen c now k" and "is_data_command (cand_command k)"
  defines "a \<equiv> queue_of c (cand_is_write k) ! cand_index k"
  shows "open_row (banks c ! bank_of c (la_address a)) = Some (a_row (la_address a))"
proof -
  have "a \<in> set (queue_of c (cand_is_write k))" using assms(2) by (auto simp: chosen_def a_def)
  then have own: "owns (config c) (la_address a)" by (rule queued_owned [OF ok])
  have "planned_command c a = Inr (cand_command k)"
    using assms(2) by (simp add: chosen_def offers_def a_def)
  then show ?thesis
    using planned_command_value [OF ok own] plan_access_data_iff assms(3) by simp
qed

lemma issue_delivers:
  assumes ok: "controller_ok c" and ch: "chosen c now k" and ready: "cand_ready_at k \<le> now"
  shows "delivers (\<lambda>(p, c'). issue_ok c k now p c') (issue c k now)"
proof -
  let ?w = "cand_is_write k" and ?cmd = "cand_command k"
  define a0 where "a0 = queue_of c ?w ! cand_index k"
  define a where "a = begin_access now a0"
  have k: "cand_index k < length (queue_of c ?w)"
    and plan: "planned_command c a0 = Inr ?cmd"
    and early: "earliest_command c ?cmd (la_address a0) now = Inr (cand_ready_at k)"
    using ch by (simp_all add: chosen_def offers_def a0_def)
  note kind = planned_command_kind [OF plan]
  have mem: "a0 \<in> set (queue_of c ?w)" using k by (simp add: a0_def)
  have own: "owns (config c) (la_address a0)" by (rule queued_owned [OF ok mem])
  note bank = bank_of_owned [OF ok own]
  let ?i = "bank_of c (la_address a0)"
  have a0_ok: "access_ok (config c) (queue_op ?w) a0"
    using queue_of_ok [OF ok, of ?w] mem by (simp add: queue_ok_def)
  have a_ok: "access_ok (config c) (queue_op ?w) a" unfolding a_def by (rule begin_access_ok [OF a0_ok])
  have la: "la_address a = la_address a0" "logical a = logical a0" by (simp_all add: a_def)
  have iss: "issuable c ?cmd (la_address a0) now"
    by (rule earliest_command_issuable [OF ok kind(2) early ready])
  have wait: "delivers (counted c) (if first_command_issued a0 then Inr c
      else when_detailed c (\<lambda>c. update_queue_stats c (\<lambda>q.
        q\<lparr>queue_wait_time := queue_wait_time q + queue_wait (latency_breakdown a)\<rparr>)))"
    using detailed_queue_counted [OF counters_ok_D [OF ok]] by simp
  show ?thesis
    unfolding issue_def Let_def a0_def [symmetric] a_def [symmetric] bank(1) ebind_Inr
      list_at_Inr [OF bank(2)] throw_if_def if_not_P [OF iffD2 [OF not_le k]]
  proof (rule counted_bindI [OF wait])
    fix c1 assume c1: "counted c c1"
    note f1 = counted_fields(1-8) [OF c1]
    have q1: "queue_of c1 ?w = queue_of c ?w" by (simp add: queue_of_def f1)
    have ok1: "controller_ok c1" using ok counted_ok [OF c1] by simp
    let ?c1 = "set_access c1 k a"
    have sa: "controller_ok ?c1" "held ?c1 = held c1"
      using set_access_ok [OF ok1, of k a] a_ok k la(2) by (simp_all add: q1 f1 a0_def)
    have h1: "held c1 = held c" by (rule held_cong) (simp_all add: f1)
    have supp1: "command_supported ?c1 ?cmd" using kind(2) by (simp add: command_supported_def f1)
    have rc: "delivers (recorded ?c1 ?cmd (la_address a) now) (record_command ?c1 ?cmd (la_address a) ?i now)"
      using counters_ok_D [OF sa(1)] supp1 bank(3) by (intro record_command_recorded) (simp_all add: f1)
    show "delivers (\<lambda>(p, c'). issue_ok c k now p c')
      (ebind (record_command ?c1 ?cmd (la_address a) ?i now) (\<lambda>c2.
        if ?cmd = Act then ebind (issue_activate c2 k a ?i) (\<lambda>c3. Inr (None, c3))
        else if ?cmd = PreBank \<or> ?cmd = PreAll
        then ebind (issue_precharge c2 k a ?i (banks c ! ?i)) (\<lambda>c3. Inr (None, c3))
        else ebind (issue_data c2 k a ?i (banks c ! ?i) now) (\<lambda>(p, c3). Inr (Some p, c3))))"
    proof (rule delivers_bindI [OF rc])
      fix c2 assume c2: "recorded ?c1 ?cmd (la_address a) now c2"
      note f2 = recorded_fields [OF c2]
      have ok2: "controller_ok c2" using sa(1) recorded_ok [OF c2] by simp
      have "queue_of c2 ?w = queue_of ?c1 ?w" unfolding queue_of_def f2 by (rule refl)
      then have q2: "queue_of c2 ?w = (queue_of c ?w)[cand_index k := a]" by (simp add: q1)
      have k2: "cand_index k < length (queue_of c2 ?w)" "queue_of c2 ?w ! cand_index k = a"
        using k by (simp_all add: q2)
      have h2: "held c2 = held c" using h1 sa(2) held_cong [OF f2(5,6)] by simp
      have e2: "engine c2 = record_issue (engine c) ?cmd (la_address a0) now"
        by (simp add: f2 f1 la)
      have b2: "?i < length (banks c2)" using bank(2) by (simp add: f2 f1)
      have supp2: "command_supported c2 ?cmd" using kind(2) by (simp add: command_supported_def f2 f1)
      have cfg2: "config c2 = config c" by (simp add: f2 f1)
      have conf2: "confined c c2"
        by (rule confined_trans [OF confined_counted [OF c1]
            confined_trans [OF confined_set_access confined_recorded [OF c2]]])
      have fin: "issue_ok c k now None c'"
        if "controller_ok c' \<and> confined c2 c' \<and> engine c' = engine c2 \<and> held c2 = held c'"
          and "\<not> is_data_command ?cmd" for c'
        using that confined_trans [OF conf2] iss e2 h2
        by (auto simp: issue_ok_def Let_def a0_def [symmetric])
      show "delivers (\<lambda>(p, c'). issue_ok c k now p c')
        (if ?cmd = Act then ebind (issue_activate c2 k a ?i) (\<lambda>c3. Inr (None, c3))
         else if ?cmd = PreBank \<or> ?cmd = PreAll
         then ebind (issue_precharge c2 k a ?i (banks c ! ?i)) (\<lambda>c3. Inr (None, c3))
         else ebind (issue_data c2 k a ?i (banks c ! ?i) now) (\<lambda>(p, c3). Inr (Some p, c3)))"
      proof (cases "is_data_command ?cmd")
        case False
        then have "?cmd = Act \<or> ?cmd = PreBank" using kind(1) requested_is_data by metis
        then show ?thesis
        proof
          assume act: "?cmd = Act"
          have "delivers (\<lambda>c'. issue_ok c k now None c') (issue_activate c2 k a ?i)"
            by (rule delivers_mono [OF issue_activate_delivers [OF ok2 k2 act b2]]) (rule fin [OF _ False])
          then show ?thesis by (simp add: act delivers_ebind)
        next
          assume pre: "?cmd = PreBank"
          have "delivers (\<lambda>c'. issue_ok c k now None c') (issue_precharge c2 k a ?i (banks c ! ?i))"
            by (rule delivers_mono [OF issue_precharge_delivers [OF ok2 k2 supp2 b2]]) (rule fin [OF _ False])
          then show ?thesis by (simp add: pre delivers_ebind)
        qed
      next
        case True
        then have ncmd: "?cmd \<noteq> Act" "\<not> (?cmd = PreBank \<or> ?cmd = PreAll)" by auto
        have row: "open_row (banks c ! ?i) = Some (a_row (la_address a))"
          using chosen_data_open [OF ok ch True] by (simp add: a0_def [symmetric] la)
        have "delivers (\<lambda>(p, c'). issue_ok c k now (Some p) c') (issue_data c2 k a ?i (banks c ! ?i) now)"
        proof (rule delivers_mono [OF issue_data_delivers [OF ok2 k2 row supp2 b2]])
          fix x assume "case x of (p, c') \<Rightarrow> controller_ok c' \<and> confined c2 c' \<and> engine c' = engine c2 \<and>
            held c2 = held c' + mset (map logical (pa_completions p)) \<and>
            serves (config c2) ?w p \<and> pa_command p = ?cmd \<and> pa_issued_at p = now"
          then show "case x of (p, c') \<Rightarrow> issue_ok c k now (Some p) c'"
            using True confined_trans [OF conf2] iss e2 h2 cfg2
            by (cases x) (simp add: issue_ok_def Let_def a0_def [symmetric])
        qed
        then show ?thesis using ncmd by (simp add: delivers_ebind case_prod_unfold)
      qed
    qed
  qed
qed

end
