(* ===== verification/Controller_Refresh.thy ===== *)
theory Controller_Refresh
  imports Controller_Safety
begin

text \<open>
  Refresh and RFM: the chosen maintenance command, its effect on the banks, a measure that every
  maintenance command makes smaller and with it the end of the two refresh loops, and the log of
  issued commands that every step continues legally.
\<close>

section \<open>The chosen maintenance command\<close>

definition any_open :: "hbm_controller \<Rightarrow> bool" where
  "any_open c \<longleftrightarrow> (\<exists>b \<in> set (banks c). bank_open b)"

text \<open>The first step towards a maintenance command, and whether it is the command itself.\<close>

definition maintenance_step :: "hbm_command \<Rightarrow> bool \<Rightarrow> hbm_bank_state \<Rightarrow> hbm_command \<times> bool" where
  "maintenance_step requested open_somewhere b =
     (if channel_maintenance requested
      then (if open_somewhere then (PreAll, False) else (requested, True))
      else (if bank_open b then (PreBank, False) else (requested, True)))"

lemma plan_maintenance:
  assumes "command_supported c requested" and "bank_maintenance requested \<or> channel_maintenance requested"
  shows "\<exists>d. plan_command (cfg_standard (config c)) requested row b open_somewhere = Inr d \<and>
    (cd_command d, final_command d) = maintenance_step requested open_somewhere b"
proof (cases "cfg_standard (config c)")
  case None
  with assms(2) show ?thesis
    by (auto simp: plan_command_def maintenance_step_def bank_maintenance_def channel_maintenance_def
        bank_open_def)
next
  case (Some std)
  then have "supports std requested" using assms(1) by (simp add: command_supported_def)
  with Some assms(2) show ?thesis
    by (auto simp: plan_command_def resolve_prerequisite_cases maintenance_step_def
        bank_maintenance_def channel_maintenance_def is_data_command_def bank_open_def)
qed

text \<open>
  A maintenance candidate is the first step towards the pending refresh or RFM command of its
  bank, or of the channel, with the time that step can issue.
\<close>

definition maintains :: "hbm_controller \<Rightarrow> sim_time \<Rightarrow> maintenance_candidate \<Rightarrow> bool" where
  "maintains c now m \<longleftrightarrow>
     (let b = banks c ! mc_local_bank m in
      mc_local_bank m < length (banks c) \<and>
      (if all_bank_refresh_pending c then mc_requested m = hbm_command.RefreshAllBank
       else mc_requested m = (if rfm_pending b then hbm_command.RfmPerBank
              else hbm_command.RefreshPerBank) \<and> (rfm_pending b \<or> refresh_pending b)) \<and>
      (mc_command m, mc_final_command m) = maintenance_step (mc_requested m) (any_open c) b \<and>
      command_supported c (mc_requested m) \<and>
      (\<exists>a. controller_bank_address c (mc_local_bank m) = Inr a \<and>
         earliest_command c (mc_command m) a now = Inr (mc_ready_at m)))"

definition maintenance_pending :: "hbm_controller \<Rightarrow> bool" where
  "maintenance_pending c \<longleftrightarrow> all_bank_refresh_pending c \<or>
     (\<exists>b \<in> set (banks c). rfm_pending b \<or> refresh_pending b)"

lemma maintenance_step_supported:
  assumes "command_supported c requested" and "(command, f) = maintenance_step requested o' b"
  shows "command_supported c command"
  using assms by (auto simp: maintenance_step_def command_supported_def supports_common
      common_support_def split: if_splits option.splits)

lemma refresh_supported:
  "command_supported c hbm_command.RefreshAllBank" "command_supported c hbm_command.RefreshPerBank"
  by (simp_all add: command_supported_def supports_common common_support_def split: option.split)

lemma rfm_supported:
  assumes "controller_ok c" and "b \<in> set (banks c)" and "rfm_pending b"
  shows "command_supported c hbm_command.RfmPerBank"
  using controller_okD(1,5) [OF assms(1)] assms(2,3)
  by (auto simp: bank_ok_def config_ok_def command_supported_def)

lemma maintenance_for_delivers:
  assumes ok: "controller_ok c" and i: "i < length (banks c)" "banks c ! i = b"
    and all: "\<not> all_bank_refresh_pending c" and pend: "rfm_pending b \<or> refresh_pending b"
  shows "delivers (maintains c now) (maintenance_for c now
    (if rfm_pending b then hbm_command.RfmPerBank else hbm_command.RefreshPerBank) i b (any_open c))"
    (is "delivers _ (maintenance_for c now ?r i b _)")
proof -
  have b: "b \<in> set (banks c)" using i by auto
  have supp: "command_supported c ?r" using rfm_supported [OF ok b] refresh_supported by simp
  have kind: "bank_maintenance ?r \<or> channel_maintenance ?r" by (simp add: bank_maintenance_def)
  obtain a where a: "controller_bank_address c i = Inr a"
    using controller_bank_address_Inr [OF controller_okD(1) [OF ok]] i controller_okD(4) [OF ok] by auto
  obtain d where d: "plan_command (cfg_standard (config c)) ?r 0 b (any_open c) = Inr d"
    and dm: "(cd_command d, final_command d) = maintenance_step ?r (any_open c) b"
    using plan_maintenance [OF supp kind] by blast
  have "delivers (\<lambda>r. True) (earliest_command c (cd_command d) a now)"
    by (rule earliest_command_delivers [OF ok maintenance_step_supported [OF supp dm]])
  then show ?thesis
    using i a d dm all pend supp
    by (cases "earliest_command c (cd_command d) a now")
      (simp_all add: maintenance_for_def maintains_def Let_def)
qed

lemma maintenance_loop_delivers:
  assumes ok: "controller_ok c" and all: "\<not> all_bank_refresh_pending c"
  shows "banks c = pre @ bs \<Longrightarrow> i = length pre \<Longrightarrow> (\<forall>m. earliest = Some m \<longrightarrow> maintains c now m) \<Longrightarrow>
    delivers (\<lambda>r. (r = None \<longleftrightarrow> earliest = None \<and> \<not> (\<exists>b \<in> set bs. rfm_pending b \<or> refresh_pending b)) \<and>
      (\<forall>m. r = Some m \<longrightarrow> maintains c now m)) (maintenance_loop c now (any_open c) i bs earliest)"
proof (induction bs arbitrary: pre i earliest)
  case Nil
  then show ?case by simp
next
  case (Cons b bs)
  note rest = Cons.IH [of "pre @ [b]" "Suc i"]
  show ?case
  proof (cases "rfm_pending b \<or> refresh_pending b")
    case False
    have "delivers (\<lambda>r. (r = None \<longleftrightarrow> earliest = None \<and> \<not> (\<exists>b \<in> set bs. rfm_pending b \<or> refresh_pending b)) \<and>
      (\<forall>m. r = Some m \<longrightarrow> maintains c now m)) (maintenance_loop c now (any_open c) (Suc i) bs earliest)"
      by (rule rest) (use Cons.prems in simp_all)
    with False show ?thesis by simp
  next
    case True
    have i: "i < length (banks c)" "banks c ! i = b" using Cons.prems by simp_all
    let ?r = "if rfm_pending b then hbm_command.RfmPerBank else hbm_command.RefreshPerBank"
    let ?Q = "\<lambda>r. (r = None \<longleftrightarrow> earliest = None \<and>
        \<not> (\<exists>b \<in> set (b # bs). rfm_pending b \<or> refresh_pending b)) \<and>
        (\<forall>m. r = Some m \<longrightarrow> maintains c now m)"
    have "delivers ?Q (ebind (maintenance_for c now ?r i b (any_open c)) (\<lambda>m.
        maintenance_loop c now (any_open c) (Suc i) bs
          (case earliest of None \<Rightarrow> Some m
           | Some e \<Rightarrow> if mc_ready_at m < mc_ready_at e \<or>
               (mc_ready_at m = mc_ready_at e \<and> i < mc_local_bank e) then Some m else earliest)))"
    proof (rule delivers_bindI [OF maintenance_for_delivers [OF ok i all True]])
      fix m assume m: "maintains c now m"
      show "delivers ?Q (maintenance_loop c now (any_open c) (Suc i) bs
          (case earliest of None \<Rightarrow> Some m
           | Some e \<Rightarrow> if mc_ready_at m < mc_ready_at e \<or>
               (mc_ready_at m = mc_ready_at e \<and> i < mc_local_bank e) then Some m else earliest))"
        by (rule delivers_mono [OF rest]) (use Cons.prems m True in \<open>auto split: option.splits\<close>)
    qed
    with True show ?thesis by auto
  qed
qed

lemma choose_maintenance_delivers:
  assumes ok: "controller_ok c"
  shows "delivers (\<lambda>r. (r = None \<longleftrightarrow> \<not> maintenance_pending c) \<and> (\<forall>m. r = Some m \<longrightarrow> maintains c now m))
    (choose_maintenance c now)"
proof (cases "all_bank_refresh_pending c")
  case False
  with maintenance_loop_delivers [OF ok False, of "[]" "banks c" 0 None now] show ?thesis
    by (simp add: choose_maintenance_def any_open_def maintenance_pending_def)
next
  case True
  let ?r = "hbm_command.RefreshAllBank"
  have r: "all_bank_command p = ?r" for p by (cases p) simp_all
  have pos: "0 < length (banks c)"
    using controller_okD(1,4) [OF ok] by (simp add: config_ok_def unat_gt_0)
  obtain a where a: "controller_bank_address c 0 = Inr a"
    using controller_bank_address_Inr [OF controller_okD(1) [OF ok]] pos controller_okD(4) [OF ok] by auto
  have kind: "bank_maintenance ?r \<or> channel_maintenance ?r" by (simp add: channel_maintenance_def)
  obtain d where d: "plan_command (cfg_standard (config c)) ?r 0 (banks c ! 0) (any_open c) = Inr d"
    and dm: "(cd_command d, final_command d) = maintenance_step ?r (any_open c) (banks c ! 0)"
    using plan_maintenance [OF refresh_supported(1) kind] by blast
  have "delivers (\<lambda>r. True) (earliest_command c (cd_command d) a now)"
    by (rule earliest_command_delivers [OF ok maintenance_step_supported [OF refresh_supported(1) dm]])
  then show ?thesis
    using True a d dm pos refresh_supported(1) [of c]
    by (cases "earliest_command c (cd_command d) a now")
      (simp_all add: choose_maintenance_def Let_def r any_open_def [symmetric] maintenance_pending_def
        maintains_def)
qed

section \<open>Issuing a maintenance command\<close>

text \<open>Outstanding maintenance work: pending commands and open banks.\<close>

definition bank_work :: "hbm_bank_state \<Rightarrow> nat" where
  "bank_work b = of_bool (bank_open b) + of_bool (rfm_pending b) + of_bool (refresh_pending b)"

definition maintenance_work :: "hbm_controller \<Rightarrow> nat" where
  "maintenance_work c = of_bool (all_bank_refresh_pending c) + sum_list (map bank_work (banks c))"

lemma sum_list_update_less:
  assumes "i < length xs" and "f y < f (xs ! i)"
  shows "sum_list (map f (xs[i := y])) < (sum_list (map f xs) :: nat)"
proof -
  have e: "xs = take i xs @ xs ! i # drop (Suc i) xs" using assms(1) by (rule id_take_nth_drop)
  have "sum_list (map f (xs[i := y])) = sum_list (map f (take i xs)) + f y + sum_list (map f (drop (Suc i) xs))"
    using assms(1) by (simp add: upd_conv_take_nth_drop)
  moreover have "sum_list (map f xs) = sum_list (map f (take i xs)) + f (xs ! i) + sum_list (map f (drop (Suc i) xs))"
    by (subst e) simp
  ultimately show ?thesis using assms(2) by simp
qed

lemma sum_list_map_le: "(\<And>x. x \<in> set xs \<Longrightarrow> f (g x) \<le> (f x :: nat)) \<Longrightarrow> sum_list (map f (map g xs)) \<le> sum_list (map f xs)"
  by (induction xs) (auto intro: add_mono)

lemma sum_list_map_less:
  assumes "\<And>x. x \<in> set xs \<Longrightarrow> f (g x) \<le> (f x :: nat)" and "y \<in> set xs" and "f (g y) < f y"
  shows "sum_list (map f (map g xs)) < sum_list (map f xs)"
  using assms
proof (induction xs)
  case (Cons x xs)
  have "f (g x) \<le> f x" "sum_list (map f (map g xs)) \<le> sum_list (map f xs)"
    using Cons.prems(1) by (simp, intro sum_list_map_le) simp
  moreover have "f (g x) < f x \<or> sum_list (map f (map g xs)) < sum_list (map f xs)"
    using Cons by auto
  ultimately show ?case by auto
qed simp

text \<open>The maintenance commands close the banks they address.\<close>

lemma transition_closes:
  assumes "command = PreBank \<or> command = PreAll \<or> bank_maintenance command \<or> channel_maintenance command"
  shows "open_row (transition_bank c command row b) = None"
  using assms
  by (auto simp: transition_bank_def bank_maintenance_def channel_maintenance_def channel_command_def
      effect_of_def apply_rule_def)

text \<open>
  The whole effect on the banks and on the flag of the channel. A non-final step only closes
  banks; the final one also clears the pending flag.
\<close>

definition clear_refresh :: "hbm_bank_state \<Rightarrow> hbm_bank_state" where
  "clear_refresh b = b\<lparr>refresh_pending := False, activation_count := 0\<rparr>"

definition clear_rfm :: "hbm_bank_state \<Rightarrow> hbm_bank_state" where
  "clear_rfm b = b\<lparr>rfm_pending := False, activation_count := 0\<rparr>"

definition after_maintenance :: "hbm_controller \<Rightarrow> maintenance_candidate \<Rightarrow> hbm_bank_state list" where
  "after_maintenance c m =
     (let i = mc_local_bank m; t = transition_bank c (mc_command m) 0; b = t (banks c ! i) in
      if channel_maintenance (mc_requested m)
      then map (if mc_final_command m then clear_refresh \<circ> t else t) (banks c)
      else (banks c)[i := if \<not> mc_final_command m then b
              else if mc_requested m = hbm_command.RfmPerBank then clear_rfm b else clear_refresh b])"

lemma clear_flags [simp]:
  "open_row (clear_refresh b) = open_row b" "rfm_pending (clear_refresh b) = rfm_pending b"
  "\<not> refresh_pending (clear_refresh b)"
  "open_row (clear_rfm b) = open_row b" "refresh_pending (clear_rfm b) = refresh_pending b"
  "\<not> rfm_pending (clear_rfm b)"
  by (simp_all add: clear_refresh_def clear_rfm_def)

lemma bank_ok_clear [simp]: "bank_ok cfg (clear_rfm b)" "bank_ok cfg (clear_refresh b) = bank_ok cfg b"
  by (simp_all add: bank_ok_def)

lemma maintainsD:
  assumes "maintains c now m"
  shows "mc_local_bank m < length (banks c)"
    and "command_supported c (mc_command m)"
    and "mc_requested m \<in> {hbm_command.RefreshAllBank, hbm_command.RefreshPerBank, hbm_command.RfmPerBank}"
    and "all_bank_refresh_pending c \<longleftrightarrow> mc_requested m = hbm_command.RefreshAllBank"
    and "mc_final_command m \<Longrightarrow> mc_command m = mc_requested m"
    and "\<not> mc_final_command m \<Longrightarrow> mc_command m = (if mc_requested m = hbm_command.RefreshAllBank then PreAll else PreBank)"
    and "mc_final_command m \<longleftrightarrow> (if mc_requested m = hbm_command.RefreshAllBank then \<not> any_open c
       else \<not> bank_open (banks c ! mc_local_bank m))"
proof -
  show "mc_local_bank m < length (banks c)" using assms by (simp add: maintains_def Let_def)
  show "command_supported c (mc_command m)"
    using assms maintenance_step_supported by (auto simp: maintains_def Let_def)
  show r: "mc_requested m \<in> {hbm_command.RefreshAllBank, hbm_command.RefreshPerBank, hbm_command.RfmPerBank}"
    and "all_bank_refresh_pending c \<longleftrightarrow> mc_requested m = hbm_command.RefreshAllBank"
    using assms by (auto simp: maintains_def Let_def split: if_splits)
  have s: "(mc_command m, mc_final_command m) =
      maintenance_step (mc_requested m) (any_open c) (banks c ! mc_local_bank m)"
    using assms by (simp add: maintains_def Let_def)
  show "mc_final_command m \<Longrightarrow> mc_command m = mc_requested m"
    "\<not> mc_final_command m \<Longrightarrow> mc_command m = (if mc_requested m = hbm_command.RefreshAllBank then PreAll else PreBank)"
    "mc_final_command m \<longleftrightarrow> (if mc_requested m = hbm_command.RefreshAllBank then \<not> any_open c
       else \<not> bank_open (banks c ! mc_local_bank m))"
    using s r by (auto simp: maintenance_step_def channel_maintenance_def split: if_splits)
qed

lemma bank_work_transition:
  assumes "open_row (transition_bank c command row b) = None"
  shows "bank_work (transition_bank c command row b) \<le> bank_work b"
    "bank_work (clear_refresh (transition_bank c command row b)) \<le> bank_work b"
    "bank_work (clear_rfm (transition_bank c command row b)) \<le> bank_work b"
    "bank_open b \<Longrightarrow> bank_work (transition_bank c command row b) < bank_work b"
    "refresh_pending b \<Longrightarrow> bank_work (clear_refresh (transition_bank c command row b)) < bank_work b"
    "rfm_pending b \<Longrightarrow> bank_work (clear_rfm (transition_bank c command row b)) < bank_work b"
  using assms by (simp_all add: bank_work_def bank_open_def)

text \<open>Every maintenance command makes the outstanding work smaller.\<close>

lemma after_maintenance_work:
  assumes m: "maintains c now m"
  shows "of_bool (all_bank_refresh_pending c \<and> \<not> mc_final_command m) +
    sum_list (map bank_work (after_maintenance c m)) < maintenance_work c"
proof -
  note D = maintainsD [OF m]
  let ?t = "transition_bank c (mc_command m) 0"
  have "mc_command m = PreBank \<or> mc_command m = PreAll \<or> bank_maintenance (mc_command m) \<or>
      channel_maintenance (mc_command m)"
    using D(3,5,6) by (cases "mc_final_command m")
      (auto simp: bank_maintenance_def channel_maintenance_def)
  then have closed: "open_row (?t b) = None" for b by (rule transition_closes)
  note w = bank_work_transition [OF closed]
  show ?thesis
  proof (cases "all_bank_refresh_pending c")
    case True
    then have r: "channel_maintenance (mc_requested m)" using D(4) by (simp add: channel_maintenance_def)
    show ?thesis
    proof (cases "mc_final_command m")
      case fin: True
      have "sum_list (map bank_work (map (clear_refresh \<circ> ?t) (banks c))) \<le> sum_list (map bank_work (banks c))"
        by (rule sum_list_map_le) (simp add: w)
      with True fin r show ?thesis by (simp add: after_maintenance_def Let_def maintenance_work_def)
    next
      case nonfinal: False
      then have "any_open c" using D(4,7) True by simp
      then obtain b where "b \<in> set (banks c)" "bank_open b" by (auto simp: any_open_def)
      then have "sum_list (map bank_work (map ?t (banks c))) < sum_list (map bank_work (banks c))"
        by (intro sum_list_map_less [of _ bank_work ?t b]) (simp_all add: w)
      with True nonfinal r show ?thesis by (simp add: after_maintenance_def Let_def maintenance_work_def)
    qed
  next
    case False
    then have r: "\<not> channel_maintenance (mc_requested m)" "mc_requested m \<noteq> hbm_command.RefreshAllBank"
      using D(3,4) by (auto simp: channel_maintenance_def)
    let ?b = "banks c ! mc_local_bank m"
    have pend: "mc_requested m = (if rfm_pending ?b then hbm_command.RfmPerBank
        else hbm_command.RefreshPerBank)" "rfm_pending ?b \<or> refresh_pending ?b"
      using m False by (simp_all add: maintains_def Let_def)
    let ?b' = "if \<not> mc_final_command m then ?t ?b
        else if mc_requested m = hbm_command.RfmPerBank then clear_rfm (?t ?b) else clear_refresh (?t ?b)"
    have "bank_work ?b' < bank_work ?b"
      using pend D(7) r w(4-6) by (auto split: if_splits)
    then have "sum_list (map bank_work ((banks c)[mc_local_bank m := ?b'])) < sum_list (map bank_work (banks c))"
      by (rule sum_list_update_less [OF D(1)])
    with False r(1) show ?thesis
      by (simp add: after_maintenance_def Let_def maintenance_work_def)
  qed
qed

definition maintained ::
    "hbm_controller \<Rightarrow> maintenance_candidate \<Rightarrow> sim_time \<Rightarrow> hbm_controller \<Rightarrow> bool" where
  "maintained c m now c' \<longleftrightarrow>
     controller_ok c' \<and> confined c c' \<and> read_queue c' = read_queue c \<and> write_queue c' = write_queue c \<and>
     banks c' = after_maintenance c m \<and>
     all_bank_refresh_pending c' = (all_bank_refresh_pending c \<and> \<not> mc_final_command m) \<and>
     refresh_busy_until c' = (if mc_final_command m
       then now + maintenance_duration (mc_requested m) (cfg_timing (config c)) else refresh_busy_until c) \<and>
     command_bus_ready c' (mc_command m) = now + bus_time (config c) (mc_command m) \<and>
     (\<exists>a. controller_bank_address c (mc_local_bank m) = Inr a \<and>
        issuable c (mc_command m) a now \<and>
        engine c' = record_issue (engine c) (mc_command m) a now)"

lemma transition_bank_config: "config c' = config c \<Longrightarrow> transition_bank c' = transition_bank c"
  by (intro ext) (simp add: transition_bank_def)

lemma count_rfm_counted:
  "counters_ok c \<Longrightarrow> delivers (counted c) (count_rfm c)"
proof -
  assume c: "counters_ok c"
  let ?c = "c\<lparr>stats := (stats c)\<lparr>rfm_events := rfm_events (stats c) + 1\<rparr>\<rparr>"
  have c1: "counted c ?c" by (rule counted_stats) (simp add: stats_shape_def)
  then have "counters_ok ?c" using c by (simp add: counted_counters_ok)
  then show ?thesis
    unfolding count_rfm_def
    by (intro counted_stepI [OF c1] update_channel_counted) (simp_all add: keeps_shape_def)
qed

definition finished_banks :: "hbm_command \<Rightarrow> nat \<Rightarrow> hbm_bank_state list \<Rightarrow> hbm_bank_state list" where
  "finished_banks requested i bs =
     (if requested = hbm_command.RefreshAllBank then map clear_refresh bs
      else bs[i := if requested = hbm_command.RfmPerBank then clear_rfm (bs ! i)
                   else clear_refresh (bs ! i)])"

lemma finish_maintenance_delivers:
  assumes c: "counters_ok c" and i: "i < length (banks c)"
    and r: "requested \<in> {hbm_command.RefreshAllBank, hbm_command.RefreshPerBank, hbm_command.RfmPerBank}"
  shows "delivers (\<lambda>c'. \<exists>s. c' = c\<lparr>stats := s, banks := finished_banks requested i (banks c),
      all_bank_refresh_pending := (requested \<noteq> hbm_command.RefreshAllBank \<and> all_bank_refresh_pending c)\<rparr> \<and>
      stats_shape s = stats_shape (stats c)) (finish_maintenance c requested i)"
proof -
  consider "requested = hbm_command.RefreshAllBank" | "requested = hbm_command.RefreshPerBank"
    | "requested = hbm_command.RfmPerBank" using r by blast
  then show ?thesis
  proof cases
    case 1
    let ?c = "c\<lparr>all_bank_refresh_pending := False\<rparr>"
    have k: "counters_ok ?c" using c by (simp add: counters_ok_def)
    have "delivers (counted ?c) (update_channel ?c (\<lambda>ch. ch\<lparr>refreshes := refreshes ch + 1\<rparr>))"
      by (rule update_channel_counted [OF k]) (simp add: keeps_shape_def)
    then show ?thesis
      unfolding finish_maintenance_def 1 if_P [OF refl]
    proof (rule delivers_bindI)
      fix c' assume "counted ?c c'"
      then obtain s where s: "c' = ?c\<lparr>stats := s\<rparr>" "stats_shape s = stats_shape (stats c)"
        by (auto simp: counted_def)
      then show "delivers (\<lambda>c'. \<exists>s. c' = c\<lparr>stats := s,
          banks := finished_banks hbm_command.RefreshAllBank i (banks c), all_bank_refresh_pending :=
            (hbm_command.RefreshAllBank \<noteq> hbm_command.RefreshAllBank \<and> all_bank_refresh_pending c)\<rparr> \<and>
          stats_shape s = stats_shape (stats c))
        (Inr (c'\<lparr>banks := map (\<lambda>b. b\<lparr>refresh_pending := False, activation_count := 0\<rparr>) (banks c')\<rparr>))"
        unfolding delivers_Inr
        by (intro exI [of _ s]) (simp add: finished_banks_def clear_refresh_def [abs_def])
    qed
  next
    case 2
    let ?c = "c\<lparr>banks := (banks c)[i := clear_refresh (banks c ! i)]\<rparr>"
    have k: "counters_ok ?c" using c by (simp add: counters_ok_def)
    have "delivers (counted ?c) (update_channel ?c (\<lambda>ch. ch\<lparr>per_bank_refreshes := per_bank_refreshes ch + 1\<rparr>))"
      by (rule update_channel_counted [OF k]) (simp add: keeps_shape_def)
    moreover have eq: "finish_maintenance c requested i =
        update_channel ?c (\<lambda>ch. ch\<lparr>per_bank_refreshes := per_bank_refreshes ch + 1\<rparr>)"
      by (simp add: finish_maintenance_def 2 i clear_refresh_def)
    ultimately show ?thesis unfolding eq
    proof (elim delivers_mono)
      fix c' assume "counted ?c c'"
      then obtain s where "c' = ?c\<lparr>stats := s\<rparr>" "stats_shape s = stats_shape (stats c)"
        by (auto simp: counted_def)
      then show "\<exists>s. c' = c\<lparr>stats := s, banks := finished_banks requested i (banks c),
          all_bank_refresh_pending := (requested \<noteq> hbm_command.RefreshAllBank \<and>
            all_bank_refresh_pending c)\<rparr> \<and> stats_shape s = stats_shape (stats c)"
        by (intro exI [of _ s]) (simp add: finished_banks_def 2)
    qed
  next
    case 3
    let ?c = "c\<lparr>banks := (banks c)[i := clear_rfm (banks c ! i)]\<rparr>"
    have k: "counters_ok ?c" using c by (simp add: counters_ok_def)
    then have "delivers (counted ?c) (count_rfm ?c)" by (rule count_rfm_counted)
    moreover have eq: "finish_maintenance c requested i = count_rfm ?c"
      by (simp add: finish_maintenance_def 3 i clear_rfm_def)
    ultimately show ?thesis unfolding eq
    proof (elim delivers_mono)
      fix c' assume "counted ?c c'"
      then obtain s where "c' = ?c\<lparr>stats := s\<rparr>" "stats_shape s = stats_shape (stats c)"
        by (auto simp: counted_def)
      then show "\<exists>s. c' = c\<lparr>stats := s, banks := finished_banks requested i (banks c),
          all_bank_refresh_pending := (requested \<noteq> hbm_command.RefreshAllBank \<and>
            all_bank_refresh_pending c)\<rparr> \<and> stats_shape s = stats_shape (stats c)"
        by (intro exI [of _ s]) (simp add: finished_banks_def 3)
    qed
  qed
qed

lemma issue_maintenance_delivers:
  assumes ok: "controller_ok c" and m: "maintains c t m" and ready: "mc_ready_at m \<le> now"
  shows "delivers (maintained c m now) (issue_maintenance c m now)"
proof -
  note D = maintainsD [OF m]
  let ?i = "mc_local_bank m" and ?cmd = "mc_command m"
  obtain a where a: "controller_bank_address c ?i = Inr a"
    and early: "earliest_command c ?cmd a t = Inr (mc_ready_at m)"
    using m by (auto simp: maintains_def Let_def)
  have iss: "issuable c ?cmd a now" by (rule earliest_command_issuable [OF ok D(2) early ready])
  have i: "?i < unat (cfg_bank_count (config c))" using D(1) controller_okD(4) [OF ok] by simp
  have cm: "channel_maintenance (mc_requested m) \<longleftrightarrow> mc_requested m = hbm_command.RefreshAllBank"
    using D(3) by (auto simp: channel_maintenance_def)
  have cc: "channel_command ?cmd \<longleftrightarrow> mc_requested m = hbm_command.RefreshAllBank"
    using D(3,5,6) by (cases "mc_final_command m") (auto simp: channel_command_def split: if_splits)
  show ?thesis
    unfolding issue_maintenance_def a ebind_Inr
  proof (rule delivers_bindI [OF record_command_recorded [OF counters_ok_D [OF ok] D(2) i]])
    fix c1 assume c1: "recorded c ?cmd a now c1"
    note f1 = recorded_fields [OF c1]
    have ok1: "controller_ok c1" using ok recorded_ok [OF c1] by simp
    have s1: "command_supported c1 ?cmd" and i1: "?i < length (banks c1)"
      using D(1,2) by (simp_all add: command_supported_def f1)
    let ?t = "transition_bank c ?cmd 0"
    let ?bs = "if channel_command ?cmd then map ?t (banks c) else (banks c)[?i := ?t (banks c ! ?i)]"
    let ?c2 = "c1\<lparr>banks := ?bs\<rparr>"
    have e2: "apply_transition c1 ?cmd 0 ?i = Inr ?c2"
      unfolding apply_transition_value [OF s1 i1] transition_bank_config [OF f1(1)] f1(3) ..
    have ok2: "controller_ok ?c2"
      using apply_transition_ok [OF ok1 s1 i1, of 0] unfolding e2 by simp
    have conf: "confined c (?c2\<lparr>stats := s, banks := bs, all_bank_refresh_pending := p, refresh_busy_until := u\<rparr>)"
      if "stats_shape s = stats_shape (stats c)" for s bs p u
      using confined_recorded [OF c1] that by (simp add: confined_def)
    have bus: "command_bus_ready (?c2\<lparr>stats := s, banks := bs, all_bank_refresh_pending := p,
        refresh_busy_until := u\<rparr>) ?cmd = now + bus_time (config c) ?cmd" for s bs p u
      using f1(17) by (simp add: command_bus_ready_def split: option.splits command_bus.splits)
    have result: "maintained c m now (?c2\<lparr>stats := s, banks := bs, all_bank_refresh_pending := p,
        refresh_busy_until := u\<rparr>)"
      if "stats_shape s = stats_shape (stats c)" and "bs = after_maintenance c m"
        and "p = (all_bank_refresh_pending c \<and> \<not> mc_final_command m)"
        and "u = (if mc_final_command m
          then now + maintenance_duration (mc_requested m) (cfg_timing (config c)) else refresh_busy_until c)"
        and "\<And>b. b \<in> set bs \<Longrightarrow> bank_ok (config c) b" for s bs p u
    proof -
      have "length bs = length (banks c)" by (simp add: that(2) after_maintenance_def Let_def)
      then have "controller_ok (?c2\<lparr>stats := s, banks := bs, all_bank_refresh_pending := p,
          refresh_busy_until := u\<rparr>)"
        using ok1 that(1,5) by (simp add: controller_ok_def f1)
      then show ?thesis
        unfolding maintained_def using conf [OF that(1)] bus that(2-4) a iss
        by (simp add: f1)
    qed
    have bok: "bank_ok (config c) b" if "b \<in> set (after_maintenance c m)" for b
      using that controller_okD(5) [OF ok] controller_okD(5) [OF ok nth_mem [OF D(1)]]
      by (auto simp: after_maintenance_def Let_def split: if_splits
          dest!: set_update_subset_insert [THEN subsetD])
    show "delivers (maintained c m now) (ebind (apply_transition c1 ?cmd 0 ?i) (\<lambda>c2.
      if \<not> mc_final_command m then Inr c2
      else ebind (list_at (channels (stats c2)) (unat (cfg_channel (config c2)))) (\<lambda>_.
          ebind (finish_maintenance c2 (mc_requested m) ?i) (\<lambda>c3.
          Inr (c3\<lparr>refresh_busy_until :=
            now + maintenance_duration (mc_requested m) (cfg_timing (config c3))\<rparr>)))))"
    proof (cases "mc_final_command m")
      case False
      have bs: "?bs = after_maintenance c m" using False cc cm by (simp add: after_maintenance_def Let_def)
      have "maintained c m now (?c2\<lparr>stats := stats c1, banks := ?bs,
          all_bank_refresh_pending := all_bank_refresh_pending c1, refresh_busy_until := refresh_busy_until c1\<rparr>)"
        by (rule result) (use False bok in \<open>simp_all add: f1 bs\<close>)
      then show ?thesis using False by (simp add: e2)
    next
      case True
      have k2: "counters_ok ?c2" using ok2 by (rule counters_ok_D)
      have i2: "?i < length (banks ?c2)" using D(1) by simp
      have fin: "finished_banks (mc_requested m) ?i ?bs = after_maintenance c m"
        using True cc cm D(1,3) by (auto simp: finished_banks_def after_maintenance_def Let_def)
      have "delivers (maintained c m now) (ebind (finish_maintenance ?c2 (mc_requested m) ?i) (\<lambda>c3.
          Inr (c3\<lparr>refresh_busy_until :=
            now + maintenance_duration (mc_requested m) (cfg_timing (config c3))\<rparr>)))"
      proof (rule delivers_bindI [OF finish_maintenance_delivers [OF k2 i2 D(3)]], elim exE conjE)
        fix c3 s
        assume c3: "c3 = ?c2\<lparr>stats := s, banks := finished_banks (mc_requested m) ?i (banks ?c2),
            all_bank_refresh_pending := (mc_requested m \<noteq> hbm_command.RefreshAllBank \<and>
              all_bank_refresh_pending ?c2)\<rparr>"
          and s: "stats_shape s = stats_shape (stats ?c2)"
        have "maintained c m now (?c2\<lparr>stats := s, banks := finished_banks (mc_requested m) ?i (banks ?c2),
            all_bank_refresh_pending := (mc_requested m \<noteq> hbm_command.RefreshAllBank \<and>
              all_bank_refresh_pending ?c2),
            refresh_busy_until := now + maintenance_duration (mc_requested m) (cfg_timing (config c3))\<rparr>)"
          by (rule result) (use s True D(4) bok fin in \<open>simp_all add: f1 c3\<close>)
        then show "delivers (maintained c m now) (Inr (c3\<lparr>refresh_busy_until :=
            now + maintenance_duration (mc_requested m) (cfg_timing (config c3))\<rparr>))"
          by (simp add: c3)
      qed
      then show ?thesis
        using True own_channel [OF k2] by (simp add: e2)
    qed
  qed
qed

text \<open>Maintenance makes progress.\<close>

lemma maintained_work:
  "maintains c t m \<Longrightarrow> maintained c m now c' \<Longrightarrow> maintenance_work c' < maintenance_work c"
  using after_maintenance_work [of c t m] by (simp add: maintained_def maintenance_work_def)

section \<open>The log of issued commands is legal\<close>

text \<open>Each command of the log was legal after the commands before it.\<close>

definition legal_log :: "timing_constraint list \<Rightarrow> command_log \<Rightarrow> bool" where
  "legal_log cs log \<longleftrightarrow>
     (\<forall>i < length log. case log ! i of (command, a, t) \<Rightarrow> legal_at cs (take i log) command a t)"

lemma legal_log_Nil [simp]: "legal_log cs []"
  by (simp add: legal_log_def)

lemma legal_log_snoc:
  "legal_log cs (log @ [(command, a, t)]) \<longleftrightarrow> legal_log cs log \<and> legal_at cs log command a t"
  by (auto simp: legal_log_def less_Suc_eq nth_append)

text \<open>One engine continues another by legal commands.\<close>

definition continues :: "timing_engine \<Rightarrow> timing_engine \<Rightarrow> bool" where
  "continues e e' \<longleftrightarrow> te_constraints e' = te_constraints e \<and>
     (\<forall>log. represents e log \<and> legal_log (te_constraints e) log \<longrightarrow>
        (\<exists>more. represents e' (log @ more) \<and> legal_log (te_constraints e) (log @ more)))"

lemma continues_refl [simp]: "continues e e"
  unfolding continues_def by (metis append_Nil2)

lemma continues_trans [trans]: "continues a b \<Longrightarrow> continues b c \<Longrightarrow> continues a c"
  unfolding continues_def by (metis append_assoc)

lemma continues_record:
  assumes "regular_engine e" and "earliest_issue e command a t = Inr t"
  shows "continues e (record_issue e command a t)"
proof -
  have "\<exists>more. represents (record_issue e command a t) (log @ more) \<and>
      legal_log (te_constraints e) (log @ more)"
    if log: "represents e log" "legal_log (te_constraints e) log" for log
  proof (intro exI conjI)
    show "represents (record_issue e command a t) (log @ [(command, a, t)])"
      by (rule represents_record [OF log(1)])
    show "legal_log (te_constraints e) (log @ [(command, a, t)])"
      using earliest_issue_cases [OF log(1) assms(1), of command a t] assms(2) log(2)
      by (simp add: legal_log_snoc)
  qed
  then show ?thesis by (simp add: continues_def)
qed

lemma issuable_continues:
  assumes ok: "controller_ok c" and "issuable c command a t"
    and "channel_wide c command \<Longrightarrow> \<exists>i < length (banks c). controller_bank_address c i = Inr a"
  shows "continues (engine c) (record_issue (engine c) command a t)"
proof (rule continues_record [OF controller_okD(3) [OF ok]])
  show "earliest_issue (engine c) command a t = Inr t"
    using assms(2,3) by (auto simp: issuable_def split: if_splits)
qed

lemma issue_ok_continues:
  assumes ok: "controller_ok c" and ch: "chosen c now k" and iss: "issue_ok c k now p c'"
  shows "continues (engine c) (engine c')"
proof -
  let ?a = "queue_of c (cand_is_write k) ! cand_index k"
  have "\<not> channel_wide c (cand_command k)"
    using planned_command_kind(3) ch by (auto simp: chosen_def offers_def)
  then show ?thesis
    using issuable_continues [OF ok, of "cand_command k" "la_address ?a" now] iss
    by (auto simp: issue_ok_def Let_def)
qed

lemma maintained_continues:
  assumes ok: "controller_ok c" and m: "maintains c t m" and "maintained c m now c'"
  shows "continues (engine c) (engine c')"
proof -
  obtain a where a: "controller_bank_address c (mc_local_bank m) = Inr a"
    and iss: "issuable c (mc_command m) a now"
    and e: "engine c' = record_issue (engine c) (mc_command m) a now"
    using assms(3) by (auto simp: maintained_def)
  show ?thesis
    unfolding e by (rule issuable_continues [OF ok iss]) (use a maintainsD(1) [OF m] in blast)
qed

section \<open>Idle refresh ends\<close>

definition refreshed :: "hbm_controller \<Rightarrow> hbm_controller \<Rightarrow> bool" where
  "refreshed c c' \<longleftrightarrow> controller_ok c' \<and> confined c c' \<and> continues (engine c) (engine c') \<and>
     read_queue c' = read_queue c \<and> write_queue c' = write_queue c"

lemma refreshed_trans: "refreshed a b \<Longrightarrow> refreshed b c \<Longrightarrow> refreshed a c"
  by (auto simp: refreshed_def intro: confined_trans continues_trans)

lemma maintained_refreshed:
  "controller_ok c \<Longrightarrow> maintains c t m \<Longrightarrow> maintained c m now c' \<Longrightarrow> refreshed c c'"
  using maintained_continues [of c t m now c'] by (simp add: refreshed_def maintained_def)

lemma idle_refresh_round_delivers:
  assumes ok: "controller_ok c" and pend: "refresh_outstanding c"
  shows "delivers (\<lambda>(c', cursor'). refreshed c c' \<and> maintenance_work c' < maintenance_work c \<and> cursor \<le> cursor')
    (idle_refresh_round (c, cursor))"
proof -
  have mp: "maintenance_pending c"
    using pend by (auto simp: refresh_outstanding_def maintenance_pending_def)
  show ?thesis
    unfolding idle_refresh_round_def prod.case
  proof (rule delivers_bindI [OF choose_maintenance_delivers [OF ok]], elim conjE)
    fix r assume "(r = None) = (\<not> maintenance_pending c)" and "\<forall>m. r = Some m \<longrightarrow> maintains c cursor m"
    then obtain m where r: "r = Some m" and m: "maintains c cursor m" using mp by auto
    have ready: "mc_ready_at m \<le> max cursor (mc_ready_at m)" by simp
    show "delivers (\<lambda>(c', cursor'). refreshed c c' \<and> maintenance_work c' < maintenance_work c \<and> cursor \<le> cursor')
      (case r of None \<Rightarrow> Inl (LogicError ''refresh pending without maintenance candidate'')
       | Some m \<Rightarrow> let cursor1 = max cursor (mc_ready_at m) in
           ebind (issue_maintenance c m cursor1) (\<lambda>c1.
             Inr (c1, max cursor1 (command_bus_ready c1 (mc_command m)))))"
      unfolding r option.case Let_def delivers_ebind delivers_Inr
      by (rule delivers_mono [OF issue_maintenance_delivers [OF ok m ready]])
        (simp add: maintained_refreshed [OF ok m] maintained_work [OF m] le_max_iff_disj)
  qed
qed

text \<open>
  The loop of \<^verbatim>\<open>apply_idle_refresh\<close> ends: each round makes the outstanding work smaller.
\<close>

lemma idle_refresh_loop_delivers:
  assumes "controller_ok c"
  shows "\<exists>r. idle_refresh_loop (c, cursor) = Some r \<and>
    delivers (\<lambda>c'. refreshed c c' \<and> \<not> refresh_outstanding c') r"
  using assms
proof (induction "maintenance_work c" arbitrary: c cursor rule: less_induct)
  case less
  show ?case
  proof (cases "refresh_outstanding c")
    case False
    with less.prems show ?thesis
      by (subst idle_refresh_loop.simps) (simp add: refreshed_def)
  next
    case True
    note round = idle_refresh_round_delivers [OF less.prems True, of cursor]
    show ?thesis
    proof (cases "idle_refresh_round (c, cursor)")
      case (Inl e)
      with round True show ?thesis by (subst idle_refresh_loop.simps) simp
    next
      case (Inr s)
      obtain c1 cursor1 where s: "s = (c1, cursor1)" by fastforce
      then have c1: "refreshed c c1" "maintenance_work c1 < maintenance_work c"
        using round Inr by simp_all
      then have ok1: "controller_ok c1" by (simp add: refreshed_def)
      then obtain r where r: "idle_refresh_loop (c1, cursor1) = Some r"
        "delivers (\<lambda>c'. refreshed c1 c' \<and> \<not> refresh_outstanding c') r"
        using less.hyps [OF c1(2) ok1, of cursor1] by blast
      have "delivers (\<lambda>c'. refreshed c c' \<and> \<not> refresh_outstanding c') r"
        by (rule delivers_mono [OF r(2)]) (use refreshed_trans [OF c1(1)] in auto)
      with r(1) True Inr s show ?thesis by (subst idle_refresh_loop.simps) simp
    qed
  qed
qed

lemma request_refresh_delivers:
  assumes ok: "controller_ok c"
  shows "delivers (\<lambda>c'. refreshed c c' \<and> refresh_outstanding c') (request_refresh c)"
proof (cases "uses_all_bank_refresh (cfg_refresh_policy (config c))")
  case True
  with ok show ?thesis
    by (simp add: request_refresh_def refreshed_def refresh_outstanding_def controller_ok_def confined_def)
next
  case False
  let ?i = "unat (next_per_bank_refresh c)" and ?n = "cfg_bank_count (config c)"
  have len: "length (banks c) = unat ?n" by (rule controller_okD(4) [OF ok])
  have i: "?i < length (banks c)" using controller_okD(7) [OF ok] len by simp
  have sz: "unat (size_of (banks c)) = unat ?n" "0 < unat ?n"
    using len i unat_u32_lt [of ?n] by (auto simp: unat_size_of)
  let ?next = "ucast ((ucast (next_per_bank_refresh c + 1) :: u64) mod size_of (banks c)) :: u32"
  have "unat ((ucast (next_per_bank_refresh c + 1) :: u64) mod size_of (banks c)) < unat ?n"
    using sz by (simp add: unat_mod)
  then have nx: "unat ?next < unat ?n"
    by (metis mod_less_eq_dividend order_le_less_trans unat_u64_to_u32)
  let ?b = "(banks c ! ?i)\<lparr>refresh_pending := True\<rparr>"
  have "\<And>b. b \<in> set ((banks c)[?i := ?b]) \<Longrightarrow> bank_ok (config c) b"
    using controller_okD(5) [OF ok] controller_okD(5) [OF ok nth_mem [OF i]]
    by (auto simp: bank_ok_def dest!: set_update_subset_insert [THEN subsetD])
  then have "controller_ok (c\<lparr>banks := (banks c)[?i := ?b], next_per_bank_refresh := ?next\<rparr>)"
    using ok nx by (simp add: controller_ok_def)
  moreover have "?b \<in> set ((banks c)[?i := ?b])" using i by (rule set_update_memI)
  then have "\<exists>b \<in> set ((banks c)[?i := ?b]). refresh_pending b" by force
  ultimately show ?thesis
    using False i
    by (simp add: request_refresh_def Let_def refreshed_def refresh_outstanding_def confined_def)
qed

lemma apply_idle_refresh_delivers:
  assumes "controller_ok c"
  shows "delivers (\<lambda>c'. refreshed c c' \<and> \<not> refresh_outstanding c') (apply_idle_refresh c when)"
  unfolding apply_idle_refresh_def
proof (rule delivers_bindI [OF request_refresh_delivers [OF assms]])
  fix c1 assume c1: "refreshed c c1 \<and> refresh_outstanding c1"
  then have "controller_ok c1" by (simp add: refreshed_def)
  then obtain r where "idle_refresh_loop (c1, max when (refresh_busy_until c1)) = Some r"
    "delivers (\<lambda>c'. refreshed c1 c' \<and> \<not> refresh_outstanding c') r"
    using idle_refresh_loop_delivers by blast
  with c1 show "delivers (\<lambda>c'. refreshed c c' \<and> \<not> refresh_outstanding c')
      (outcome (idle_refresh_loop (c1, max when (refresh_busy_until c1))))"
    by (auto elim!: delivers_mono intro: refreshed_trans)
qed

section \<open>Catching up with missed refreshes\<close>

lemma catch_up_delivers:
  assumes "controller_ok c" and "cfg_refresh_interval (config c) \<noteq> 0"
    and "unat now + unat (cfg_refresh_interval (config c)) < 2 ^ 64"
  shows "\<exists>r. catch_up now (c, due) = Some r \<and>
    delivers (\<lambda>c'. refreshed c c' \<and> (\<exists>d. next_refresh_due c' = Some d \<and> now < d)) r"
  using assms
proof (induction "unat now + 1 - unat due" arbitrary: c due rule: less_induct)
  case less
  show ?case
  proof (cases "due \<le> now")
    case False
    have "controller_ok (c\<lparr>next_refresh_due := Some due\<rparr>)"
      using less.prems(1) by (simp add: controller_ok_def)
    then have "refreshed c (c\<lparr>next_refresh_due := Some due\<rparr>)"
      by (simp add: refreshed_def confined_def)
    moreover have "now < due" using False by simp
    ultimately show ?thesis
      using False by (subst catch_up.simps) simp
  next
    case True
    show ?thesis
    proof (cases "apply_idle_refresh c due")
      case (Inl e)
      with apply_idle_refresh_delivers [OF less.prems(1), of due] True show ?thesis
        by (subst catch_up.simps) simp
    next
      case (Inr c1)
      then have c1: "refreshed c c1"
        using apply_idle_refresh_delivers [OF less.prems(1), of due] by simp
      let ?i = "cfg_refresh_interval (config c)"
      have cfg: "config c1 = config c" using c1 by (simp add: refreshed_def confined_def)
      have "unat due \<le> unat now" using True by (simp add: word_le_nat_alt)
      then have due: "unat (due + ?i) = unat due + unat ?i"
        using less.prems(3) by (intro unat_add_u64_small) simp
      have "unat now + 1 - unat (due + ?i) < unat now + 1 - unat due"
        using \<open>unat due \<le> unat now\<close> less.prems(2) due by (simp add: unat_gt_0 diff_less_mono2)
      then obtain r where r: "catch_up now (c1, due + ?i) = Some r"
        "delivers (\<lambda>c'. refreshed c1 c' \<and> (\<exists>d. next_refresh_due c' = Some d \<and> now < d)) r"
        using less.hyps [of "due + ?i" c1] c1 less.prems(2,3) cfg by (auto simp: refreshed_def)
      have "delivers (\<lambda>c'. refreshed c c' \<and> (\<exists>d. next_refresh_due c' = Some d \<and> now < d)) r"
        by (rule delivers_mono [OF r(2)]) (use refreshed_trans [OF c1] in auto)
      with r(1) True Inr cfg show ?thesis by (subst catch_up.simps) simp
    qed
  qed
qed

lemma prepare_refresh_delivers:
  assumes ok: "controller_ok c" and "unat now + unat (cfg_refresh_interval (config c)) < 2 ^ 64"
  shows "delivers (\<lambda>c'. refreshed c c' \<and> (cfg_refresh_interval (config c) \<noteq> 0 \<longrightarrow>
      (\<exists>d. next_refresh_due c' = Some d \<and> now < d))) (prepare_refresh_for_arrival c now)"
proof (cases "cfg_refresh_interval (config c) = 0")
  case True
  with ok show ?thesis by (simp add: prepare_refresh_for_arrival_def refreshed_def)
next
  case False
  let ?due = "case next_refresh_due c of None \<Rightarrow> now + cfg_refresh_interval (config c) | Some d \<Rightarrow> d"
  let ?c = "c\<lparr>next_refresh_due := Some ?due\<rparr>"
  have c: "controller_ok ?c" "refreshed c ?c"
    using ok by (simp_all add: controller_ok_def refreshed_def confined_def)
  then obtain r where "catch_up now (?c, ?due) = Some r"
    "delivers (\<lambda>c'. refreshed ?c c' \<and> (\<exists>d. next_refresh_due c' = Some d \<and> now < d)) r"
    using catch_up_delivers [OF c(1)] False assms(2) by auto
  with False c(2) show ?thesis
    by (auto simp: prepare_refresh_for_arrival_def Let_def elim!: delivers_mono intro: refreshed_trans)
qed

end
