(* ===== verification/Controller_Drive.thy ===== *)
theory Controller_Drive
  imports Controller_Refresh
begin

text \<open>
  The operations the system calls on a controller: the step, refresh events, completions,
  reservations and admission, each with what it keeps and what it changes, and the relation of
  all runs of a controller.
\<close>

section \<open>The step\<close>

lemma controller_ok_queues:
  assumes "controller_ok c" and "queue_ok (config c) hbm_op.Read rq" and "queue_ok (config c) hbm_op.Write wq"
  shows "controller_ok (c\<lparr>read_queue := rq, write_queue := wq\<rparr>)"
  using assms by (simp add: controller_ok_def)

lemma access_ok_starved [simp]: "access_ok cfg op (a\<lparr>starvation_reported := p\<rparr>) = access_ok cfg op a"
  by (simp add: access_ok_def)

lemma starve_queue_delivers:
  assumes "counters_ok c"
  shows "delivers (\<lambda>(as', c'). counted c c' \<and> map logical as' = map logical as \<and>
    (\<forall>cfg op. queue_ok cfg op as' = queue_ok cfg op as)) (starve_queue c now as)"
  using assms
proof (induction as arbitrary: c)
  case Nil
  then show ?case by simp
next
  case (Cons a as)
  let ?Q = "\<lambda>c0 as (as', c'). counted c0 c' \<and> map logical as' = map logical as \<and>
    (\<forall>cfg op. queue_ok cfg op as' = queue_ok cfg op as)"
  show ?case
  proof (cases "newly_starved (config c) now a")
    case False
    from Cons.IH [OF Cons.prems] have "delivers (?Q c (a # as))
        (ebind (starve_queue c now as) (\<lambda>(as', c''). Inr (a # as', c'')))"
      unfolding delivers_ebind by (rule delivers_mono) (auto simp: queue_ok_def)
    with False show ?thesis by simp
  next
    case True
    have "delivers (?Q c (a # as)) (ebind (update_queue_stats c (\<lambda>q. q\<lparr>starvation_events := starvation_events q + 1\<rparr>)) (\<lambda>c'.
        ebind (starve_queue c' now as) (\<lambda>(as', c''). Inr (a\<lparr>starvation_reported := True\<rparr> # as', c''))))"
    proof (rule counted_bindI [OF update_queue_stats_counted [OF Cons.prems]])
      fix c1 assume c1: "counted c c1"
      then have "counters_ok c1" using Cons.prems by (simp add: counted_counters_ok)
      from Cons.IH [OF this] show "delivers (?Q c (a # as)) (ebind (starve_queue c1 now as)
          (\<lambda>(as', c''). Inr (a\<lparr>starvation_reported := True\<rparr> # as', c'')))"
        unfolding delivers_ebind
        by (rule delivers_mono) (auto simp: queue_ok_def intro: counted_trans [OF c1])
    qed
    with True show ?thesis by simp
  qed
qed

lemma confined_trans': "confined a b \<Longrightarrow> confined b c \<Longrightarrow> confined a c"
  by (rule confined_trans)

text \<open>Bookkeeping: neither the engine nor the accesses change.\<close>

definition noted :: "hbm_controller \<Rightarrow> hbm_controller \<Rightarrow> bool" where
  "noted c c' \<longleftrightarrow> controller_ok c' \<and> confined c c' \<and> engine c' = engine c \<and> held c' = held c \<and>
     banks c' = banks c \<and> all_bank_refresh_pending c' = all_bank_refresh_pending c \<and>
     (read_queue c' = [] \<longleftrightarrow> read_queue c = []) \<and> (write_queue c' = [] \<longleftrightarrow> write_queue c = []) \<and>
     refresh_busy_until c' = refresh_busy_until c"

lemma update_starvation_delivers:
  assumes ok: "controller_ok c"
  shows "delivers (noted c) (update_starvation c now)"
proof (cases "cfg_starvation_threshold (config c) = 0")
  case True
  with ok show ?thesis by (simp add: update_starvation_def noted_def)
next
  case False
  show ?thesis
    unfolding update_starvation_def if_not_P [OF False]
  proof (rule delivers_bindI [OF starve_queue_delivers [OF counters_ok_D [OF ok]]])
    fix x assume x: "case x of (as', c') \<Rightarrow> counted c c' \<and> map logical as' = map logical (read_queue c) \<and>
      (\<forall>cfg op. queue_ok cfg op as' = queue_ok cfg op (read_queue c))"
    obtain rq c1 where xx: "x = (rq, c1)" by fastforce
    with x have c1: "counted c c1" and rq: "map logical rq = map logical (read_queue c)"
      "\<And>cfg op. queue_ok cfg op rq = queue_ok cfg op (read_queue c)" by auto
    have k1: "counters_ok c1" using c1 counters_ok_D [OF ok] by (simp add: counted_counters_ok)
    show "delivers (noted c) (case x of (reads, c1) \<Rightarrow> ebind (starve_queue c1 now (write_queue c))
        (\<lambda>(writes, c2). Inr (c2\<lparr>read_queue := reads, write_queue := writes\<rparr>)))"
      unfolding xx prod.case
    proof (rule delivers_bindI [OF starve_queue_delivers [OF k1]])
      fix y assume y: "case y of (as', c') \<Rightarrow> counted c1 c' \<and> map logical as' = map logical (write_queue c) \<and>
        (\<forall>cfg op. queue_ok cfg op as' = queue_ok cfg op (write_queue c))"
      obtain wq c2 where yy: "y = (wq, c2)" by fastforce
      with y have c2: "counted c c2" and wq: "map logical wq = map logical (write_queue c)"
        "\<And>cfg op. queue_ok cfg op wq = queue_ok cfg op (write_queue c)"
        using counted_trans [OF c1] by auto
      note f2 = counted_fields(1-8) [OF c2]
      have len: "length rq = length (read_queue c)" "length wq = length (write_queue c)"
        using rq(1) wq(1) by (metis length_map)+
      have "controller_ok c2" using ok counted_ok [OF c2] by simp
      then have "controller_ok (c2\<lparr>read_queue := rq, write_queue := wq\<rparr>)"
        using controller_okD(8,9) [OF ok] by (intro controller_ok_queues) (simp_all add: rq(2) wq(2) f2)
      moreover have "confined c (c2\<lparr>read_queue := rq, write_queue := wq\<rparr>)"
        using confined_counted [OF c2] by (simp add: confined_def len)
      moreover have "rq = [] \<longleftrightarrow> read_queue c = []" "wq = [] \<longleftrightarrow> write_queue c = []"
        using len by (metis length_0_conv)+
      ultimately show "delivers (noted c) (case y of (writes, c2) \<Rightarrow>
          Inr (c2\<lparr>read_queue := rq, write_queue := writes\<rparr>))"
        using c2 rq(1) wq(1) by (auto simp: yy noted_def held_def f2 counted_def simp flip: mset_map)
    qed
  qed
qed

lemma update_write_drain_noted: "controller_ok c \<Longrightarrow> noted c (update_write_drain c)"
  by (simp add: update_write_drain_def noted_def controller_ok_def confined_def held_def)

lemma stall_on_refresh_noted:
  assumes ok: "controller_ok c"
  shows "delivers (noted c) (stall_on_refresh c now)"
proof -
  have q: "delivers (counted c) (when_detailed c (\<lambda>c. update_queue_stats c (f c)))" for f
    by (rule when_detailed_counted, rule update_queue_stats_counted [OF counters_ok_D [OF ok]])
  have "delivers (noted c) (ebind (when_detailed c (\<lambda>c. update_queue_stats c (f c))) (\<lambda>c.
      Inr (c\<lparr>refresh_stall_accounted_until := refresh_busy_until c\<rparr>)))" for f
  proof (rule counted_bindI [OF q])
    fix c1 assume "counted c c1"
    with ok show "delivers (noted c) (Inr (c1\<lparr>refresh_stall_accounted_until := refresh_busy_until c1\<rparr>))"
      by (auto simp: counted_def noted_def controller_ok_def confined_def held_def)
  qed
  with ok show ?thesis by (simp add: stall_on_refresh_def Let_def noted_def)
qed

text \<open>
  What a step of the controller does: it keeps the invariant, continues the command log legally,
  hands over exactly the accesses that leave the queues, and asks not to be woken again only when
  nothing is queued and no maintenance is due.
\<close>

definition stepped :: "hbm_controller \<Rightarrow> controller_step \<Rightarrow> hbm_controller \<Rightarrow> bool" where
  "stepped c s c' \<longleftrightarrow> controller_ok c' \<and> confined c c' \<and> continues (engine c) (engine c') \<and>
     held c = held c' + served (issued_access s) \<and>
     (\<forall>p. issued_access s = Some p \<longrightarrow> (\<exists>w. serves (config c) w p)) \<and>
     (wake_at s = None \<longrightarrow> read_queue c' = [] \<and> write_queue c' = [] \<and> \<not> maintenance_pending c')"

lemma stepped_noted:
  assumes "noted c c1" and "stepped c1 s c'"
  shows "stepped c s c'"
  using assms confined_trans [of c c1 c'] confinedD(1) [of c c1]
  by (simp add: stepped_def noted_def)

lemma step_result_simps [simp]: "wake_at (step_result w p) = w" "issued_access (step_result w p) = p"
  by (simp_all add: step_result_def)

lemma stepped_noted_step:
  "noted c c' \<Longrightarrow> w \<noteq> None \<Longrightarrow> stepped c (step_result w None) c'"
  by (auto simp: stepped_def noted_def)

lemma held_requeued: "requeued c c' \<Longrightarrow> held c' = held c"
proof -
  assume r: "requeued c c'"
  have map: "map logical q = map logical q'" if "map plain q = map plain q'" for q q' :: "hbm_access list"
  proof -
    have "logical = logical \<circ> plain" by (rule ext) (simp add: plain_def)
    then show ?thesis using that by (metis map_map)
  qed
  from r show ?thesis
    unfolding requeued_def held_def using map by metis
qed

lemma drive_delivers:
  assumes ok: "controller_ok c"
  shows "delivers (\<lambda>(s, c'). stepped c s c') (drive c now)"
  unfolding drive_def
proof (rule delivers_bindI [OF update_starvation_delivers [OF ok]])
  fix c1 assume c1: "noted c c1"
  then have ok1: "controller_ok c1" by (simp add: noted_def)
  let ?Q = "\<lambda>(s, c'). stepped c s c'"
  have ifI: "delivers Q (if b then x else y)"
    if "b \<Longrightarrow> delivers Q x" and "\<not> b \<Longrightarrow> delivers Q y" for Q b and x y :: "(controller_step \<times> hbm_controller) result"
    using that by simp
  have maintain: "delivers ?Q (ebind (issue_maintenance c1 m now) (\<lambda>c2.
      Inr (step_result (Some (if mc_final_command m then refresh_busy_until c2 else now)) None, c2)))"
    if m: "maintains c1 now m" and ready: "mc_ready_at m \<le> now" for m
    unfolding delivers_ebind
  proof (rule delivers_mono [OF issue_maintenance_delivers [OF ok1 m ready]])
    fix c2 assume "maintained c1 m now c2"
    then have "refreshed c1 c2" by (rule maintained_refreshed [OF ok1 m])
    then have "stepped c1 (step_result (Some w) None) c2" for w
      using held_cong [of c1 c2] by (simp add: refreshed_def stepped_def)
    then show "delivers ?Q (Inr (step_result (Some (if mc_final_command m then refresh_busy_until c2
        else now)) None, c2))"
      using stepped_noted [OF c1] by simp
  qed
  have access: "delivers ?Q (ebind (choose_next (update_write_drain c1) now) (\<lambda>(cand, c). case cand of
           None \<Rightarrow> Inr (step_result None None, c)
         | Some k \<Rightarrow>
             if cand_ready_at k > now then Inr (step_result (Some (cand_ready_at k)) None, c)
             else ebind (issue c k now) (\<lambda>(completed, c).
               Inr (step_result (Some now) completed, c))))"
    if idle: "\<not> maintenance_pending c1"
  proof -
    let ?c2 = "update_write_drain c1"
    have n2: "noted c1 ?c2" by (rule update_write_drain_noted [OF ok1])
    then have ok2: "controller_ok ?c2" by (simp add: noted_def)
    show ?thesis
    proof (rule delivers_bindI [OF choose_next_delivers [OF ok2]])
      fix x assume x: "case x of (k, c') \<Rightarrow> requeued ?c2 c' \<and> controller_ok c' \<and>
        (k = None \<longleftrightarrow> read_queue ?c2 = [] \<and> write_queue ?c2 = []) \<and> (\<forall>k'. k = Some k' \<longrightarrow> chosen c' now k')"
      obtain cand c3 where xx: "x = (cand, c3)" by fastforce
      with x have r: "requeued ?c2 c3" and ok3: "controller_ok c3"
        and none: "cand = None \<longleftrightarrow> read_queue ?c2 = [] \<and> write_queue ?c2 = []"
        and ch: "\<And>k. cand = Some k \<Longrightarrow> chosen c3 now k" by auto
      note f3 = requeued_fields [OF r]
      have eq_len: "read_queue c3 = [] \<longleftrightarrow> read_queue ?c2 = []" "write_queue c3 = [] \<longleftrightarrow> write_queue ?c2 = []"
        using f3(11,12) by (metis length_0_conv)+
      have apr: "all_bank_refresh_pending c3 = all_bank_refresh_pending ?c2"
        using r unfolding requeued_def
        by (elim conjE) (drule arg_cong [where f = all_bank_refresh_pending], simp)
      have n3: "noted c1 c3"
        using n2 ok3 confined_trans [OF _ confined_requeued [OF r], of c1] held_requeued [OF r] eq_len apr
        by (simp add: noted_def f3)
      have s3: "stepped c s c'" if "stepped c3 s c'" for s c'
        by (rule stepped_noted [OF c1 stepped_noted [OF n3 that]])
      have idle3: "\<not> maintenance_pending c3"
        using idle n3 by (simp add: maintenance_pending_def noted_def)
      show "delivers ?Q (case x of (cand, c) \<Rightarrow> case cand of
           None \<Rightarrow> Inr (step_result None None, c)
         | Some k \<Rightarrow>
             if cand_ready_at k > now then Inr (step_result (Some (cand_ready_at k)) None, c)
             else ebind (issue c k now) (\<lambda>(completed, c). Inr (step_result (Some now) completed, c)))"
      proof (cases cand)
        case None
        then have "stepped c3 (step_result None None) c3"
          using none ok3 idle3 eq_len by (simp add: stepped_def)
        with None show ?thesis by (simp add: xx s3)
      next
        case (Some k)
        have "delivers ?Q (ebind (issue c3 k now) (\<lambda>(completed, c). Inr (step_result (Some now) completed, c)))"
          if "cand_ready_at k \<le> now"
          unfolding delivers_ebind
        proof (rule delivers_mono [OF issue_delivers [OF ok3 ch [OF Some] that]])
          fix y assume y: "case y of (p, c') \<Rightarrow> issue_ok c3 k now p c'"
          obtain p c4 where yy: "y = (p, c4)" by fastforce
          with y have i: "issue_ok c3 k now p c4" by simp
          have "stepped c3 (step_result (Some now) p) c4"
            using i issue_ok_continues [OF ok3 ch [OF Some] i] by (auto simp: stepped_def issue_ok_def Let_def)
          then show "delivers ?Q (case y of (completed, c) \<Rightarrow> Inr (step_result (Some now) completed, c))"
            by (simp add: yy s3)
        qed
        moreover have "stepped c3 (step_result (Some (cand_ready_at k)) None) c3"
          using ok3 by (simp add: stepped_def)
        ultimately show ?thesis by (simp add: xx Some s3)
      qed
    qed
  qed
  have stall: "delivers ?Q (ebind (stall_on_refresh c1 now) (\<lambda>c.
      Inr (step_result (Some (refresh_busy_until c)) None, c)))"
    unfolding delivers_ebind
    by (rule delivers_mono [OF stall_on_refresh_noted [OF ok1]])
      (simp add: stepped_noted [OF c1] stepped_noted_step)
  show "delivers ?Q (if now < refresh_busy_until c1 then
       ebind (stall_on_refresh c1 now) (\<lambda>c. Inr (step_result (Some (refresh_busy_until c)) None, c))
     else
     ebind (choose_maintenance c1 now) (\<lambda>maintenance. case maintenance of
       Some m \<Rightarrow>
         if mc_ready_at m > now then Inr (step_result (Some (mc_ready_at m)) None, c1)
         else ebind (issue_maintenance c1 m now) (\<lambda>c2.
           Inr (step_result
             (Some (if mc_final_command m then refresh_busy_until c2 else now)) None, c2))
     | None \<Rightarrow>
         ebind (choose_next (update_write_drain c1) now) (\<lambda>(cand, c). case cand of
           None \<Rightarrow> Inr (step_result None None, c)
         | Some k \<Rightarrow>
             if cand_ready_at k > now then Inr (step_result (Some (cand_ready_at k)) None, c)
             else ebind (issue c k now) (\<lambda>(completed, c).
               Inr (step_result (Some now) completed, c)))))"
  proof (rule ifI [OF stall], rule delivers_bindI [OF choose_maintenance_delivers [OF ok1]], elim conjE)
    fix r assume r: "(r = None) = (\<not> maintenance_pending c1)" "\<forall>m. r = Some m \<longrightarrow> maintains c1 now m"
    show "delivers ?Q (case r of Some m \<Rightarrow>
         if mc_ready_at m > now then Inr (step_result (Some (mc_ready_at m)) None, c1)
         else ebind (issue_maintenance c1 m now) (\<lambda>c2.
           Inr (step_result
             (Some (if mc_final_command m then refresh_busy_until c2 else now)) None, c2))
     | None \<Rightarrow>
         ebind (choose_next (update_write_drain c1) now) (\<lambda>(cand, c). case cand of
           None \<Rightarrow> Inr (step_result None None, c)
         | Some k \<Rightarrow>
             if cand_ready_at k > now then Inr (step_result (Some (cand_ready_at k)) None, c)
             else ebind (issue c k now) (\<lambda>(completed, c).
               Inr (step_result (Some now) completed, c))))"
    proof (cases r)
      case None
      with r access show ?thesis by simp
    next
      case (Some m)
      with r(2) maintain show ?thesis
        by (simp add: stepped_noted_step [OF c1])
    qed
  qed
qed

section \<open>Refresh events, completions and reservations\<close>

lemma refreshed_noted: "noted c c' \<Longrightarrow> read_queue c' = read_queue c \<Longrightarrow> write_queue c' = write_queue c \<Longrightarrow> refreshed c c'"
  by (simp add: noted_def refreshed_def)

lemma handle_refresh_event_delivers:
  assumes ok: "controller_ok c"
  shows "delivers (refreshed c) (handle_refresh_event c now)"
proof -
  let ?c1 = "c\<lparr>refresh_due_at := None\<rparr>"
  let ?c2 = "?c1\<lparr>next_refresh_due := Some (now + cfg_refresh_interval (config ?c1))\<rparr>"
  have r: "refreshed c c" "refreshed c ?c1" "refreshed c ?c2"
    using ok by (simp_all add: refreshed_def controller_ok_def confined_def)
  then have ok2: "controller_ok ?c2" by (simp add: refreshed_def)
  have "delivers (refreshed c) (apply_idle_refresh ?c2 now)"
    by (rule delivers_mono [OF apply_idle_refresh_delivers [OF ok2]]) (use refreshed_trans [OF r(3)] in blast)
  moreover have "delivers (refreshed c) (request_refresh ?c2)"
    by (rule delivers_mono [OF request_refresh_delivers [OF ok2]]) (use refreshed_trans [OF r(3)] in blast)
  ultimately show ?thesis
    using r by (simp add: handle_refresh_event_def Let_def)
qed

lemma stats_shape_count_class [simp]: "stats_shape (count_class k s) = stats_shape s"
  by (cases k) (simp_all add: stats_shape_def)

lemma complete_access_delivers:
  assumes ok: "controller_ok c" and "outstanding_accesses c \<noteq> 0"
  shows "delivers (\<lambda>c'. controller_ok c' \<and> engine c' = engine c \<and> held c' = held c \<and>
      config c' = config c \<and> reserved_reads c' = reserved_reads c \<and> reserved_writes c' = reserved_writes c \<and>
      read_queue c' = read_queue c \<and> write_queue c' = write_queue c \<and>
      mapper c' = mapper c \<and> stats_shape (stats c') = stats_shape (stats c) \<and>
      outstanding_accesses c' = outstanding_accesses c - 1) (complete_access c x)"
proof -
  let ?c = "c\<lparr>outstanding_accesses := outstanding_accesses c - 1\<rparr>"
  have k: "counters_ok ?c" using counters_ok_D [OF ok] by (simp add: counters_ok_def)
  have u: "delivers (counted ?c) (update_channel ?c (\<lambda>ch. ch\<lparr>completed_bytes := completed_bytes ch + la_size_bytes x\<rparr>))"
    by (rule update_channel_counted [OF k]) (simp add: keeps_shape_def)
  show ?thesis
    unfolding complete_access_def throw_if_def if_not_P [OF assms(2)] ebind_Inr
  proof (rule counted_bindI [OF u])
    fix c' assume "counted ?c c'"
    then obtain s where "c' = ?c\<lparr>stats := s\<rparr>" "stats_shape s = stats_shape (stats c)"
      by (auto simp: counted_def)
    with ok show "delivers (\<lambda>c'. controller_ok c' \<and> engine c' = engine c \<and> held c' = held c \<and>
      config c' = config c \<and> reserved_reads c' = reserved_reads c \<and> reserved_writes c' = reserved_writes c \<and>
      read_queue c' = read_queue c \<and> write_queue c' = write_queue c \<and>
      mapper c' = mapper c \<and> stats_shape (stats c') = stats_shape (stats c) \<and>
      outstanding_accesses c' = outstanding_accesses c - 1)
      (Inr (c'\<lparr>stats := count_class (lc_access_class x) (stats c')\<rparr>))"
      by (simp add: controller_ok_def held_def)
  qed
qed

text \<open>Queue entries and reservations of one queue stay within its capacity.\<close>

definition fits :: "size_t \<Rightarrow> 'a list \<Rightarrow> size_t \<Rightarrow> bool" where
  "fits capacity q reserved \<longleftrightarrow> capacity = 0 \<or> length q + unat reserved \<le> unat capacity"

definition capacity_ok :: "hbm_controller \<Rightarrow> bool" where
  "capacity_ok c \<longleftrightarrow> fits (cfg_read_queue_capacity (config c)) (read_queue c) (reserved_reads c) \<and>
     fits (cfg_write_queue_capacity (config c)) (write_queue c) (reserved_writes c)"

lemma fits_used:
  assumes "fits capacity q reserved" and "capacity \<noteq> 0"
  shows "unat (size_of q + reserved) = length q + unat reserved"
proof -
  have "length q + unat reserved < 2 ^ 64"
    using assms unat_u64_lt [of capacity] by (simp add: fits_def)
  then show ?thesis using unat_size_of [of q] by (simp add: unat_add_u64_small)
qed

text \<open>\<^verbatim>\<open>has_capacity\<close> is the arithmetic test, with no overflow to fool it.\<close>

lemma has_capacity_iff:
  assumes "fits capacity q reserved"
  shows "has_capacity capacity (size_of q + reserved) n \<longleftrightarrow>
    capacity = 0 \<or> length q + unat reserved + unat n \<le> unat capacity"
proof (cases "capacity = 0")
  case False
  have u: "unat (size_of q + reserved) = length q + unat reserved" by (rule fits_used [OF assms False])
  have le: "size_of q + reserved \<le> capacity" using assms False by (simp add: word_le_nat_alt u fits_def)
  then have "unat (capacity - (size_of q + reserved)) = unat capacity - (length q + unat reserved)"
    by (simp add: unat_sub u)
  with False le show ?thesis by (auto simp: has_capacity_def word_le_nat_alt u)
qed (simp add: has_capacity_def)

lemma fits_reserve:
  assumes "fits capacity q reserved" and "has_capacity capacity (size_of q + reserved) n"
  shows "fits capacity q (reserved + n)"
proof (cases "capacity = 0")
  case False
  then have "length q + unat reserved + unat n \<le> unat capacity"
    using assms(2) has_capacity_iff [OF assms(1), of n] by simp
  moreover from this have "unat (reserved + n) = unat reserved + unat n"
    using unat_u64_lt [of capacity] by (intro unat_add_u64_small) simp
  ultimately show ?thesis by (simp add: fits_def)
qed (simp add: fits_def)

lemma fits_smaller:
  "fits capacity q reserved \<Longrightarrow> length q' \<le> length q \<Longrightarrow> reserved' \<le> reserved \<Longrightarrow> fits capacity q' reserved'"
  by (auto simp: fits_def word_le_nat_alt)

lemma fits_admit: "fits capacity q reserved \<Longrightarrow> reserved \<noteq> 0 \<Longrightarrow> fits capacity (q @ [a]) (reserved - 1)"
  by (auto simp: fits_def unat_minus_one unat_gt_0 Suc_leI)

lemma capacity_ok_confined: "capacity_ok c \<Longrightarrow> confined c c' \<Longrightarrow> capacity_ok c'"
  by (auto simp: capacity_ok_def confined_def intro: fits_smaller)

lemma reserve_value:
  "reserve c r w = (if can_reserve c r w
     then Inr (c\<lparr>reserved_reads := reserved_reads c + r, reserved_writes := reserved_writes c + w\<rparr>)
     else Inl (LogicError ''controller reservation overflow''))"
  by (simp add: reserve_def)

lemma reserve_capacity:
  assumes "capacity_ok c" and "reserve c r w = Inr c'"
  shows "capacity_ok c'" and "controller_ok c \<Longrightarrow> controller_ok c'" and "held c' = held c"
    and "engine c' = engine c"
  using assms fits_reserve
  by (auto simp: reserve_value can_reserve_def capacity_ok_def controller_ok_def held_def split: if_splits)

lemma cancel_reservation_capacity:
  assumes "capacity_ok c" and "cancel_reservation c r w = Inr c'"
  shows "capacity_ok c'" and "controller_ok c \<Longrightarrow> controller_ok c'" and "held c' = held c"
    and "engine c' = engine c"
proof -
  have le: "r \<le> reserved_reads c" "w \<le> reserved_writes c"
    and c': "c' = c\<lparr>reserved_reads := reserved_reads c - r, reserved_writes := reserved_writes c - w\<rparr>"
    using assms(2) by (auto simp: cancel_reservation_def ebind_eq_Inr not_less)
  have "reserved_reads c - r \<le> reserved_reads c" "reserved_writes c - w \<le> reserved_writes c"
    using le by (simp_all add: word_le_nat_alt unat_sub)
  then show "capacity_ok c'" using assms(1) by (auto simp: c' capacity_ok_def intro: fits_smaller)
  show "controller_ok c \<Longrightarrow> controller_ok c'" "held c' = held c" "engine c' = engine c"
    by (simp_all add: c' controller_ok_def held_def)
qed

text \<open>The slots announced to the submitter are exactly the reads or writes that can be reserved.\<close>

lemma available_slots:
  assumes "capacity_ok c"
  shows "n \<le> available_read_slots c \<longleftrightarrow> can_reserve c n 0"
    and "n \<le> available_write_slots c \<longleftrightarrow> can_reserve c 0 n"
proof -
  have z: "has_capacity cap (size_of q + res) 0" if "fits cap q res" for cap res and q :: "hbm_access list"
    using that has_capacity_iff [OF that, of 0] by (simp add: fits_def)
  have slots: "n \<le> (if cap = 0 then u64_max else if size_of q + res \<ge> cap then 0 else cap - (size_of q + res))
      \<longleftrightarrow> has_capacity cap (size_of q + res) n" if f: "fits cap q res" for cap res and q :: "hbm_access list"
  proof (cases "cap = 0")
    case False
    have le: "size_of q + res \<le> cap"
      using f False fits_used [OF f False] by (simp add: word_le_nat_alt fits_def)
    then show ?thesis using False by (auto simp: has_capacity_def)
  qed (simp add: has_capacity_def word_order.extremum)
  have f: "fits (cfg_read_queue_capacity (config c)) (read_queue c) (reserved_reads c)"
    "fits (cfg_write_queue_capacity (config c)) (write_queue c) (reserved_writes c)"
    using assms by (simp_all add: capacity_ok_def)
  show "n \<le> available_read_slots c \<longleftrightarrow> can_reserve c n 0"
    using slots [OF f(1)] z [OF f(2)]
    by (simp only: available_read_slots_def Let_def can_reserve_def simp_thms)
  show "n \<le> available_write_slots c \<longleftrightarrow> can_reserve c 0 n"
    using slots [OF f(2)] z [OF f(1)]
    by (simp only: available_write_slots_def Let_def can_reserve_def simp_thms)
qed

section \<open>Admission\<close>

text \<open>The controller has taken in the access \<open>a\<close> on a reservation.\<close>

definition takes_in :: "hbm_controller \<Rightarrow> hbm_access \<Rightarrow> hbm_controller \<Rightarrow> bool" where
  "takes_in c a c' \<longleftrightarrow> controller_ok c' \<and> continues (engine c) (engine c') \<and> config c' = config c \<and>
     held c' = held c + {#logical a#} \<and> outstanding_accesses c' = outstanding_accesses c + 1 \<and>
     wakeup_at c' = wakeup_at c \<and> mapper c' = mapper c \<and> stats_shape (stats c') = stats_shape (stats c) \<and>
     reserved_reads c' = reserved_reads c - (if la_op a = hbm_op.Read then 1 else 0) \<and>
     reserved_writes c' = reserved_writes c - (if la_op a = hbm_op.Read then 0 else 1) \<and>
     (capacity_ok c \<longrightarrow> capacity_ok c')"

lemma admit_reserved_delivers:
  assumes ok: "controller_ok c" and time: "unat now + unat (cfg_refresh_interval (config c)) < 2 ^ 64"
    and own: "owns (config c) (la_address a)" and new: "\<not> first_command_issued a"
    and res: "(if la_op a = hbm_op.Read then reserved_reads c else reserved_writes c) \<noteq> 0"
  shows "delivers (takes_in c a) (admit_reserved c a now)"
  unfolding admit_reserved_def
proof (rule delivers_bindI [OF prepare_refresh_delivers [OF ok time]], elim conjE)
  fix c1 assume c1: "refreshed c c1"
  let ?a = "a\<lparr>enqueued_at := la_arrival_time a\<rparr>"
  let ?c2 = "(if la_op a = hbm_op.Read
    then c1\<lparr>reserved_reads := reserved_reads c1 - 1, read_queue := read_queue c1 @ [?a]\<rparr>
    else c1\<lparr>reserved_writes := reserved_writes c1 - 1, write_queue := write_queue c1 @ [?a]\<rparr>)
      \<lparr>outstanding_accesses := outstanding_accesses c1 + 1\<rparr>"
  have conf: "confined c c1" and ok1: "controller_ok c1" using c1 by (simp_all add: refreshed_def)
  then have res1: "(if la_op a = hbm_op.Read then reserved_reads c1 else reserved_writes c1) \<noteq> 0"
    using res by (auto simp: confined_def split: if_splits)
  have "access_ok (config c1) (la_op a) ?a"
    using own new confinedD(1) [OF conf] by (simp add: access_ok_def)
  then have ok2: "controller_ok ?c2"
    using ok1 by (cases "la_op a") (simp_all add: controller_ok_def queue_ok_def)
  have held2: "held ?c2 = held c + {#logical a#}"
    using c1 held_cong [of c1 c] by (simp add: refreshed_def held_def)
  have cap2: "capacity_ok c \<Longrightarrow> capacity_ok ?c2"
    using capacity_ok_confined [OF _ conf] res1 by (auto simp: capacity_ok_def fits_admit split: if_splits)
  have e2: "continues (engine c) (engine ?c2)" "config ?c2 = config c" "mapper ?c2 = mapper c"
    "stats_shape (stats ?c2) = stats_shape (stats c)"
    "reserved_reads ?c2 = reserved_reads c - (if la_op a = hbm_op.Read then 1 else 0)"
    "reserved_writes ?c2 = reserved_writes c - (if la_op a = hbm_op.Read then 0 else 1)" "outstanding_accesses ?c2 = outstanding_accesses c + 1"
    "wakeup_at ?c2 = wakeup_at c"
    using c1 conf by (simp_all add: refreshed_def confined_def)
  have u: "delivers (counted ?c2) (update_queue_stats ?c2 f)" for f
    by (rule update_queue_stats_counted [OF counters_ok_D [OF ok2]])
  have "delivers (takes_in c a) (update_queue_stats ?c2 (\<lambda>q. q\<lparr>
       max_read_depth := max (max_read_depth q) (size_of (read_queue ?c2)),
       max_write_depth := max (max_write_depth q) (size_of (write_queue ?c2))\<rparr>))"
  proof (rule delivers_mono [OF u])
    fix c3 assume c3: "counted ?c2 c3"
    then obtain s where s: "c3 = ?c2\<lparr>stats := s\<rparr>" by (auto simp: counted_def)
    have "held c3 = held ?c2" "capacity_ok c3 = capacity_ok ?c2"
      by (simp_all add: s held_def capacity_ok_def)
    then show "takes_in c a c3"
      using ok2 held2 cap2 e2 counted_ok [OF c3] counted_fields(8) [OF c3] by (simp add: s takes_in_def)
  qed
  then show "delivers (takes_in c a) (let access = a\<lparr>enqueued_at := la_arrival_time a\<rparr> in
     ebind (if la_op access = hbm_op.Read
       then ebind (throw_if (reserved_reads c1 = 0) (LogicError ''missing read reservation'')) (\<lambda>_.
         Inr (c1\<lparr>reserved_reads := reserved_reads c1 - 1, read_queue := read_queue c1 @ [access]\<rparr>))
       else ebind (throw_if (reserved_writes c1 = 0) (LogicError ''missing write reservation'')) (\<lambda>_.
         Inr (c1\<lparr>reserved_writes := reserved_writes c1 - 1, write_queue := write_queue c1 @ [access]\<rparr>))) (\<lambda>c1.
     let c2 = c1\<lparr>outstanding_accesses := outstanding_accesses c1 + 1\<rparr> in
     update_queue_stats c2 (\<lambda>q. q\<lparr>
       max_read_depth := max (max_read_depth q) (size_of (read_queue c2)),
       max_write_depth := max (max_write_depth q) (size_of (write_queue c2))\<rparr>)))"
    using res1 by (cases "la_op a") (simp_all add: Let_def)
qed

section \<open>The operations as a step relation\<close>

text \<open>
  What the system may do with a controller. A step is labelled with the accesses it takes in and
  the accesses it hands over. Time stays a refresh interval below the end of the 64-bit range;
  the counters are shared with the other channels and the system, which may change them.
\<close>

inductive operates ::
    "hbm_controller \<Rightarrow> logical_access multiset \<Rightarrow> logical_access multiset \<Rightarrow> hbm_controller \<Rightarrow> bool"
where
  op_reserve: "reserve c r w = Inr c' \<Longrightarrow> operates c {#} {#} c'"
| op_cancel: "cancel_reservation c r w = Inr c' \<Longrightarrow> operates c {#} {#} c'"
| op_admit: "admit_reserved c a now = Inr c' \<Longrightarrow> owns (config c) (la_address a) \<Longrightarrow>
    \<not> first_command_issued a \<Longrightarrow> unat now + unat (cfg_refresh_interval (config c)) < 2 ^ 64 \<Longrightarrow>
    operates c {#logical a#} {#} c'"
| op_drive: "drive c now = Inr (s, c') \<Longrightarrow> operates c {#} (served (issued_access s)) c'"
| op_refresh: "handle_refresh_event c now = Inr c' \<Longrightarrow> operates c {#} {#} c'"
| op_complete: "complete_access c x = Inr c' \<Longrightarrow> operates c {#} {#} c'"
| op_mark: "mark_wakeup c now = (b, c') \<Longrightarrow> operates c {#} {#} c'"
| op_clear: "operates c {#} {#} (clear_wakeup c now)"
| op_claim: "claim_refresh_event c = (due, c') \<Longrightarrow> operates c {#} {#} c'"
| op_stats: "fst (stats_shape s) = fst (stats_shape (stats c)) \<Longrightarrow> operates c {#} {#} (c\<lparr>stats := s\<rparr>)"

inductive runs ::
    "hbm_controller \<Rightarrow> logical_access multiset \<Rightarrow> logical_access multiset \<Rightarrow> hbm_controller \<Rightarrow> bool"
where
  runs_start: "runs c {#} {#} c"
| runs_step: "runs c A S c' \<Longrightarrow> operates c' A' S' c'' \<Longrightarrow> runs c (A + A') (S + S') c''"

text \<open>What every step keeps.\<close>

definition sound_step ::
    "hbm_controller \<Rightarrow> logical_access multiset \<Rightarrow> logical_access multiset \<Rightarrow> hbm_controller \<Rightarrow> bool" where
  "sound_step c A S c' \<longleftrightarrow> controller_ok c' \<and> capacity_ok c' \<and> config c' = config c \<and>
     continues (engine c) (engine c') \<and> held c + A = held c' + S"

lemma admit_needs_reservation:
  assumes "controller_ok c" and "unat now + unat (cfg_refresh_interval (config c)) < 2 ^ 64"
    and "admit_reserved c a now = Inr c'"
  shows "(if la_op a = hbm_op.Read then reserved_reads c else reserved_writes c) \<noteq> 0"
proof -
  obtain c1 where c1: "prepare_refresh_for_arrival c now = Inr c1"
    using assms(3) by (auto simp: admit_reserved_def ebind_eq_Inr)
  then have "confined c c1"
    using prepare_refresh_delivers [OF assms(1,2)] by (simp add: refreshed_def)
  then have r: "reserved_reads c1 = reserved_reads c" "reserved_writes c1 = reserved_writes c"
    by (simp_all add: confined_def)
  show ?thesis
    using assms(3) by (auto simp: admit_reserved_def c1 Let_def r split: if_splits)
qed

lemma refreshed_sound: "capacity_ok c \<Longrightarrow> refreshed c c' \<Longrightarrow> sound_step c {#} {#} c'"
  using capacity_ok_confined [of c c'] held_cong [of c c']
  by (simp add: sound_step_def refreshed_def confined_def)

lemma operates_sound:
  assumes "operates c A S c'" and ok: "controller_ok c" and cap: "capacity_ok c"
  shows "sound_step c A S c'"
  using assms(1)
proof cases
  case (op_reserve r w)
  then have "config c' = config c" by (auto simp: reserve_value split: if_splits)
  with reserve_capacity [OF cap op_reserve(3)] ok op_reserve(1,2) show ?thesis by (simp add: sound_step_def)
next
  case (op_cancel r w)
  then have "config c' = config c" by (auto simp: cancel_reservation_def ebind_eq_Inr)
  with cancel_reservation_capacity [OF cap op_cancel(3)] ok op_cancel(1,2) show ?thesis
    by (simp add: sound_step_def)
next
  case (op_admit a now)
  note res = admit_needs_reservation [OF ok op_admit(6,3)]
  from deliversD [OF admit_reserved_delivers [OF ok op_admit(6,4,5) res] op_admit(3)] cap op_admit(1,2)
  show ?thesis by (simp add: sound_step_def takes_in_def)
next
  case (op_drive now s)
  with deliversD [OF drive_delivers [OF ok] op_drive(3)] show ?thesis
    using capacity_ok_confined [OF cap, of c'] by (simp add: sound_step_def stepped_def confined_def)
next
  case (op_refresh now)
  with deliversD [OF handle_refresh_event_delivers [OF ok] op_refresh(3)] show ?thesis
    by (simp add: refreshed_sound [OF cap])
next
  case (op_complete x)
  then have n: "outstanding_accesses c \<noteq> 0" by (auto simp: complete_access_def ebind_eq_Inr)
  from deliversD [OF complete_access_delivers [OF ok n] op_complete(3)] cap op_complete(1,2)
  show ?thesis by (simp add: sound_step_def capacity_ok_def)
next
  case (op_mark now b)
  with ok cap show ?thesis
    by (auto simp: mark_wakeup_def sound_step_def controller_ok_def capacity_ok_def held_def
        split: option.splits if_splits)
next
  case (op_clear now)
  with ok cap show ?thesis
    by (auto simp: clear_wakeup_def sound_step_def controller_ok_def capacity_ok_def held_def)
next
  case (op_claim due)
  with ok cap show ?thesis
    by (auto simp: claim_refresh_event_def sound_step_def controller_ok_def capacity_ok_def held_def
        split: option.splits if_splits)
next
  case (op_stats s)
  with ok cap show ?thesis
    by (simp add: sound_step_def controller_ok_shared capacity_ok_def held_def)
qed

text \<open>Any run keeps the invariants, continues the log legally and loses no access.\<close>

lemma runs_sound:
  assumes "runs c A S c'" and "controller_ok c" and "capacity_ok c"
  shows "sound_step c A S c'"
  using assms
proof (induction rule: runs.induct)
  case (runs_start c)
  then show ?case by (simp add: sound_step_def)
next
  case (runs_step c A S c' A' S' c'')
  then have IH: "sound_step c A S c'" by blast
  then have "sound_step c' A' S' c''"
    using operates_sound [OF runs_step.hyps(2)] by (simp add: sound_step_def)
  with IH show ?case
    using continues_trans [of "engine c" "engine c'" "engine c''"]
    by (simp add: sound_step_def ac_simps)
qed

lemma make_controller_simps [simp]:
  "config (make_controller cfg m st) = cfg" "held (make_controller cfg m st) = {#}"
  "capacity_ok (make_controller cfg m st)" "engine (make_controller cfg m st) = make_timing_engine (cfg_timing cfg)"
  by (simp_all add: make_controller_def held_def capacity_ok_def fits_def)

lemma continues_make:
  assumes "continues (make_timing_engine spec) e"
  shows "\<exists>log. represents e log \<and> legal_log (constraints spec) log"
proof -
  have "te_constraints (make_timing_engine spec) = constraints spec" by (simp add: make_timing_engine_def)
  moreover have "represents (make_timing_engine spec) []" by simp
  ultimately show ?thesis using assms unfolding continues_def by (metis append_Nil legal_log_Nil)
qed

end
