(* ===== verification/Samples.thy ===== *)
theory Samples
  imports Controller_Drive
begin

text \<open>
  Small concrete controllers: one channel with one bank, with and without a standard. The
  properties are applied to them; one step of the controller is evaluated to its result.
\<close>

definition small_mapper :: address_mapper where
  "small_mapper = \<lparr>m_topology = \<lparr>stacks = 1, channels_per_stack = 1,
     pseudo_channels_per_channel = 1, bank_groups_per_pseudo_channel = 1,
     banks_per_bank_group = 1\<rparr>, m_interleave_bytes = 64, m_columns_per_row = 32,
     m_rows_per_bank = 16384, m_mapping = Linear\<rparr>"

definition small_config :: "hbm_standard option \<Rightarrow> sim_time \<Rightarrow> hbm_controller_config" where
  "small_config std interval = \<lparr>cfg_channel = 0, cfg_first_flat_bank = 0, cfg_bank_count = 1,
     cfg_pseudo_channel_count = 1, cfg_timing = default_timing_spec, cfg_standard = std,
     cfg_data_rate = \<lparr>br_bytes = 32, br_interval = 1000\<rparr>, cfg_scheduler = FrFcfs,
     cfg_row_policy = Closed, cfg_refresh_policy = refresh_policy.AllBank,
     cfg_write_drain_high_watermark = 8, cfg_write_drain_low_watermark = 2,
     cfg_read_queue_capacity = 4, cfg_write_queue_capacity = 4,
     cfg_enable_request_merging = True, cfg_starvation_threshold = 0,
     cfg_refresh_interval = interval, cfg_enable_rfm = False, cfg_detailed_stats = True,
     cfg_rfm_activation_threshold = 0\<rparr>"

definition small_stats :: hbm_stats where
  "small_stats = initial_stats\<lparr>channels := [initial_channel_stats\<lparr>
     bank_stats := [initial_resource_stats], pseudo_channel_stats := [initial_resource_stats]\<rparr>]\<rparr>"

definition small_controller :: "hbm_standard option \<Rightarrow> sim_time \<Rightarrow> hbm_controller" where
  "small_controller std interval = make_controller (small_config std interval) small_mapper small_stats"

definition small_access :: "hbm_op \<Rightarrow> u64 \<Rightarrow> hbm_access" where
  "small_access op address = \<lparr>la_parent_id = 1, la_op = op, la_address = zero_address,
     la_size_bytes = 32, la_arrival_time = 0, la_client = 0, la_sequence = 0,
     la_metadata = default_metadata, la_byte_address = address, ha_access_class = RowClosed,
     activated = False, first_command_issued = False, starvation_reported = False,
     enqueued_at = 0, first_command_at = 0, command_eligible = False,
     command_eligible_since = 0, latency_breakdown = initial_latency\<rparr>"

text \<open>Two reads of the same bytes wait for a bank whose row is open.\<close>

definition small_open :: hbm_controller where
  "small_open = (small_controller (Some Hbm4Standard) 0)\<lparr>
     read_queue := [small_access hbm_op.Read 0, small_access hbm_op.Read 0],
     banks := [initial_bank\<lparr>open_row := Some 0\<rparr>]\<rparr>"

lemma small_config_ok: "config_ok (small_config std interval) small_mapper"
  by (simp add: config_ok_def small_config_def small_mapper_def mapper_ok_def topology_ok_def
      topology_validate_def bank_count_def channel_count_def)

lemma small_shape_ok: "shape_ok (small_config std interval) (stats_shape small_stats)"
  by (simp add: shape_ok_def small_config_def stats_shape_def small_stats_def)

lemma small_controller_ok: "controller_ok (small_controller std interval)"
  unfolding small_controller_def by (rule controller_ok_make [OF small_config_ok small_shape_ok])

lemma small_access_ok: "access_ok (small_config std interval) op (small_access op address)"
  by (simp add: access_ok_def owns_def small_config_def small_access_def zero_address_def)

lemma small_open_ok: "controller_ok small_open"
proof -
  let ?c = "small_controller (Some Hbm4Standard) 0"
  have "controller_ok (?c\<lparr>read_queue := [small_access hbm_op.Read 0, small_access hbm_op.Read 0],
      write_queue := []\<rparr>)"
    using small_access_ok [of "Some Hbm4Standard" 0 hbm_op.Read 0]
    by (intro controller_ok_queues small_controller_ok)
      (simp_all add: queue_ok_def small_controller_def)
  from controller_ok_banks [OF this, of "[initial_bank\<lparr>open_row := Some 0\<rparr>]"]
  show ?thesis
    by (simp add: small_open_def small_controller_def make_controller_def bank_ok_def initial_bank_def
        small_config_def)
qed

lemma small_open_capacity: "capacity_ok small_open"
  by (simp add: capacity_ok_def fits_def small_open_def small_controller_def make_controller_def
      small_config_def)

section \<open>One step evaluated\<close>

lemma earliest_loop_fresh: "earliest_loop Map.empty command a cs now = Inr now"
  by (induction cs) (simp_all add: earliest_loop.simps)

lemma fresh_engine: "te_history (make_timing_engine spec) = Map.empty"
  by (simp add: make_timing_engine_def)

lemma small_timing: "t_cl default_timing_spec = 14000"
  "use_extended_hbm_timing default_timing_spec = False" "t_command timing_hbm4_8000 = 500"
  by (simp_all add: default_timing_spec_def timing_hbm4_8000_def Let_def)

lemma supports_read: "supports std hbm_command.Read" "supports std hbm_command.ReadAuto"
  by (simp_all add: supports_common common_support_def)

lemmas small_defs = small_open_def small_controller_def make_controller_def small_config_def
  small_stats_def initial_bank_def small_access_def zero_address_def default_metadata_def
  small_mapper_def initial_channel_stats_def initial_stats_def initial_queue_stats_def
  initial_resource_stats_def initial_latency_def

lemmas select_defs = drive_def update_starvation_def choose_maintenance_def update_write_drain_def
  choose_next_def queue_of_def candidate_of_def planned_command_def local_bank_def
  plan_access_cases requested_command_def auto_precharge_def earliest_command_def
  transition_for_supported scope_of_def channel_command_def earliest_issue_def
  command_bus_ready_def command_bus_of_def refresh_eligibility_def set_queue_def
  scheduler_choose_def selected_candidate_def frfcfs_less_def command_rank_def is_data_command_def

lemmas issue_defs = issue_def begin_access_def record_command_def update_channel_def
  when_detailed_def update_bank_stats_def update_pseudo_channel_stats_def update_queue_stats_def
  occupy_bus_def add_busy_def add_issue_def bus_time_def record_issue_def record_scope_def
  all_scopes_def resource_key_def push_bounded_def set_access_def issue_data_def remove_at_def
  merge_reads_def can_merge_def same_address_read_def close_after_data_def apply_transition_def
  std_apply_transition_def effect_of_def apply_rule_def transfer_def cas_latency_of_def
  stage_item_def transfer_time_cases account_transfer_def count_physical_def account_item_def
  step_result_def to_completion_def logical_access.defs logical_completion.defs

text \<open>Both reads are served by one transfer of 1000 ps after the CAS latency of 14000 ps.\<close>

lemma small_open_drive:
  "\<exists>p c'. drive small_open 0 = Inr (step_result (Some 0) (Some p), c') \<and> held c' = {#} \<and>
     pa_completion_time p = 15000 \<and> length (pa_completions p) = 2 \<and>
     (\<forall>x \<in> set (pa_completions p). la_arrival_time x = 0)"
  by (simp add: small_defs select_defs issue_defs earliest_loop_fresh fresh_engine small_timing
      supports_read unat_u64_max Let_def held_def)

end
