(* ===== verification/Controller_Properties.thy ===== *)
theory Controller_Properties
  imports Samples
begin

text \<open>
  The properties of a channel controller: what a step may do, that the command log stays legal,
  that no access is lost and no queue exceeds its capacity, that refresh work ends, and what
  merging, write draining and the row policies guarantee.
\<close>

section \<open>The step\<close>



text \<open>
  C14. A step loses and invents no access: what was queued is what stays queued and what the issued
  transfer completes. A transfer completes at least one access, all of its own direction, and more
  than one only as merged reads with merging enabled.
\<close>

theorem drive_conserves_accesses:
  assumes "controller_ok c" and "drive c now = Inr (s, c')"
  shows "held c = held c' + served (issued_access s) \<and>
    (\<forall>p. issued_access s = Some p \<longrightarrow> pa_completions p \<noteq> [] \<and>
       (\<forall>x \<in> set (pa_completions p). la_op x = pa_op p) \<and>
       (length (pa_completions p) > 1 \<longrightarrow> pa_op p = hbm_op.Read \<and> cfg_enable_request_merging (config c)))"
proof -
  from deliversD [OF drive_delivers [OF assms(1)] assms(2)] have st: "stepped c s c'" by simp
  then have "\<exists>w. serves (config c) w p" if "issued_access s = Some p" for p
    using that by (simp add: stepped_def)
  with st show ?thesis by (fastforce simp: stepped_def serves_def queue_op_def)
qed

theorem drive_conserves_accesses_witness:
  "\<exists>s c' p. drive small_open 0 = Inr (s, c') \<and> issued_access s = Some p \<and>
     held small_open = mset (map logical (pa_completions p)) \<and> pa_op p = hbm_op.Read"
proof -
  obtain p c' where d: "drive small_open 0 = Inr (step_result (Some 0) (Some p), c')"
    and h: "held c' = {#}" and n: "length (pa_completions p) = 2"
    using small_open_drive by blast
  from drive_conserves_accesses [OF small_open_ok d] d h n show ?thesis by auto
qed

text \<open>
  C16. The five latency stages of an access (queue wait, command phase, array, data-bus wait, data
  service) partition its latency: they add up to the completion time of its transfer less its
  arrival.
\<close>

theorem latency_stages_partition:
  assumes "controller_ok c" and "drive c now = Inr (s, c')" and "issued_access s = Some p"
    and "cfg_detailed_stats (config c)" and "x \<in> set (pa_completions p)"
  shows "latency_total (lc_latency_breakdown x) = pa_completion_time p - la_arrival_time x"
  using deliversD [OF drive_delivers [OF assms(1)] assms(2)] assms(3-5)
  by (auto simp: stepped_def serves_def)

theorem latency_stages_partition_witness:
  "\<exists>s c' p. drive small_open 0 = Inr (s, c') \<and> issued_access s = Some p \<and> pa_completions p \<noteq> [] \<and>
     list_all (\<lambda>x. latency_total (lc_latency_breakdown x) = 15000) (pa_completions p)"
proof -
  obtain p c' where d: "drive small_open 0 = Inr (step_result (Some 0) (Some p), c')"
    and t: "pa_completion_time p = 15000" and n: "length (pa_completions p) = 2"
    and a: "\<forall>x \<in> set (pa_completions p). la_arrival_time x = 0"
    using small_open_drive by blast
  have "cfg_detailed_stats (config small_open)"
    by (simp add: small_open_def small_controller_def small_config_def)
  from latency_stages_partition [OF small_open_ok d _ this] t a n d show ?thesis by (fastforce simp: list_all_iff)
qed

text \<open>
  C24. The controller asks not to be woken again only when nothing is left to do: both queues are
  empty and no refresh or RFM work is pending.
\<close>

theorem sleeps_only_when_idle:
  assumes "controller_ok c" and "drive c now = Inr (s, c')" and "wake_at s = None"
  shows "read_queue c' = [] \<and> write_queue c' = [] \<and> \<not> maintenance_pending c' \<and> issued_access s = None"
proof -
  have "stepped c s c'" using deliversD [OF drive_delivers [OF assms(1)] assms(2)] by simp
  moreover have "issued_access s = None"
    using assms(2,3) by (auto simp: drive_def ebind_eq_Inr split: if_splits option.splits prod.splits)
  ultimately show ?thesis using assms(3) by (simp add: stepped_def)
qed

theorem sleeps_only_when_idle_witness:
  "\<exists>s c'. drive (small_controller None 0) 0 = Inr (s, c') \<and> \<not> maintenance_pending c'"
proof -
  have "drive (small_controller None 0) 0 = Inr (step_result None None, small_controller None 0)"
    by (simp add: small_defs select_defs)
  from sleeps_only_when_idle [OF small_controller_ok this] this show ?thesis by auto
qed

section \<open>Runs\<close>


text \<open>Witness: reserve a slot, admit a read and drive: the log is the activation at time 0.\<close>

definition small_admitted :: hbm_controller where
  "small_admitted = (small_controller None 0)\<lparr>read_queue := [small_access hbm_op.Read 0],
     outstanding_accesses := 1, stats := small_stats\<lparr>channels := [(hd (channels small_stats))\<lparr>
       queue_stats := initial_queue_stats\<lparr>max_read_depth := 1\<rparr>\<rparr>]\<rparr>\<rparr>"

lemma small_reserve:
  "reserve (small_controller None 0) 1 0 = Inr ((small_controller None 0)\<lparr>reserved_reads := 1\<rparr>)"
  by (simp add: reserve_value can_reserve_def has_capacity_def small_controller_def make_controller_def
      small_config_def size_of_def)

lemma small_admit:
  "admit_reserved ((small_controller None 0)\<lparr>reserved_reads := 1\<rparr>) (small_access hbm_op.Read 0) 0 =
     Inr small_admitted"
  by (simp add: admit_reserved_def prepare_refresh_for_arrival_def small_admitted_def small_defs
      update_queue_stats_def update_channel_def Let_def max_def size_of_def)

lemma small_owns: "owns (small_config std interval) (la_address (small_access op a))"
  using small_access_ok by (simp add: access_ok_def)

lemma small_run: "runs (small_controller None 0) {#logical (small_access hbm_op.Read 0)#} {#} small_admitted"
proof -
  have "runs (small_controller None 0) ({#} + {#}) ({#} + {#}) ((small_controller None 0)\<lparr>reserved_reads := 1\<rparr>)"
    by (rule runs_step [OF runs_start op_reserve [OF small_reserve]])
  moreover have "operates ((small_controller None 0)\<lparr>reserved_reads := 1\<rparr>)
      {#logical (small_access hbm_op.Read 0)#} {#} small_admitted"
  proof (rule op_admit [OF small_admit])
    show "owns (config ((small_controller None 0)\<lparr>reserved_reads := 1\<rparr>)) (la_address (small_access hbm_op.Read 0))"
      using small_owns [of None 0 hbm_op.Read 0] by (simp add: small_controller_def)
    show "\<not> first_command_issued (small_access hbm_op.Read 0)" by (simp add: small_access_def)
    show "unat (0 :: u64) + unat (cfg_refresh_interval (config ((small_controller None 0)\<lparr>reserved_reads := 1\<rparr>))) < 2 ^ 64"
      by (simp add: small_controller_def small_config_def)
  qed
  ultimately show ?thesis by (auto dest: runs_step)
qed


text \<open>
  C13. In any run from a fresh controller the accesses admitted are exactly those still queued and
  those handed over for completion: none is lost, duplicated or made up.
\<close>

theorem runs_lose_no_access:
  assumes "config_ok cfg m" and "shape_ok cfg (stats_shape st)" and "runs (make_controller cfg m st) A S c"
  shows "A = held c + S"
proof -
  have "sound_step (make_controller cfg m st) A S c"
    using controller_ok_make [OF assms(1,2)] by (intro runs_sound [OF assms(3)]) simp_all
  then show ?thesis by (simp add: sound_step_def)
qed

theorem runs_lose_no_access_witness:
  "held small_admitted = {#logical (small_access hbm_op.Read 0)#}"
  using runs_lose_no_access [OF small_config_ok small_shape_ok small_run [unfolded small_controller_def]]
  by simp

text \<open>
  C17. In any run the entries of a queue and the slots reserved for it never exceed its configured
  capacity, zero meaning unbounded; and while that holds the advertised free slots are exactly what
  can still be reserved.
\<close>

theorem queues_stay_within_capacity:
  assumes "config_ok cfg m" and "shape_ok cfg (stats_shape st)" and "runs (make_controller cfg m st) A S c"
  shows "(cfg_read_queue_capacity cfg = 0 \<or>
      length (read_queue c) + unat (reserved_reads c) \<le> unat (cfg_read_queue_capacity cfg)) \<and>
    (cfg_write_queue_capacity cfg = 0 \<or>
      length (write_queue c) + unat (reserved_writes c) \<le> unat (cfg_write_queue_capacity cfg)) \<and>
    (\<forall>n. (n \<le> available_read_slots c \<longleftrightarrow> can_reserve c n 0) \<and>
         (n \<le> available_write_slots c \<longleftrightarrow> can_reserve c 0 n))"
proof -
  have "sound_step (make_controller cfg m st) A S c"
    using controller_ok_make [OF assms(1,2)] by (intro runs_sound [OF assms(3)]) simp_all
  then have "capacity_ok c" and "config c = cfg" by (simp_all add: sound_step_def)
  with available_slots [OF this(1)] show ?thesis by (simp add: capacity_ok_def fits_def)
qed

theorem queues_stay_within_capacity_witness:
  "unat (reserved_reads small_admitted) \<le> 3 \<and> can_reserve small_admitted (available_read_slots small_admitted) 0"
  using queues_stay_within_capacity [OF small_config_ok small_shape_ok small_run [unfolded small_controller_def]]
  by (auto simp: small_admitted_def small_config_def)

section \<open>Selection and issue\<close>

text \<open>
  C18. A selected read or write command addresses a bank whose open row is the row of its access,
  with no precharge pending when there is no standard; so \<open>issue\<close> never throws its
  \<^verbatim>\<open>data command issued without target row open\<close>.
\<close>

theorem data_commands_hit_open_row:
  assumes "controller_ok c" and "choose_next c now = Inr (Some k, c')" and "is_data_command (cand_command k)"
  shows "let a = queue_of c' (cand_is_write k) ! cand_index k in
    cand_index k < length (queue_of c' (cand_is_write k)) \<and>
    open_row (banks c' ! bank_of c' (la_address a)) = Some (a_row (la_address a))"
proof -
  from deliversD [OF choose_next_delivers [OF assms(1)] assms(2)]
  have "controller_ok c'" "chosen c' now k" by simp_all
  with chosen_data_open [OF this assms(3)] show ?thesis by (simp add: chosen_def Let_def)
qed

lemma small_open_choose:
  "\<exists>k c'. choose_next small_open 0 = Inr (Some k, c') \<and> cand_command k = hbm_command.ReadAuto \<and>
     \<not> cand_is_write k \<and> cand_index k = 0"
  by (simp add: small_defs select_defs earliest_loop_fresh fresh_engine supports_read Let_def)

theorem data_commands_hit_open_row_witness:
  "\<exists>k c'. choose_next small_open 0 = Inr (Some k, c') \<and> cand_index k < length (read_queue c')"
proof -
  obtain k c' where k: "choose_next small_open 0 = Inr (Some k, c')"
    "cand_command k = hbm_command.ReadAuto" "\<not> cand_is_write k"
    using small_open_choose by blast
  then have "is_data_command (cand_command k)" by (simp add: is_data_command_def)
  from data_commands_hit_open_row [OF small_open_ok k(1) this] k show ?thesis
    by (auto simp: Let_def queue_of_def)
qed

text \<open>
  Two accesses conflict for merging exactly when they are in the same ordering domain and their
  byte ranges meet; the test is right without any overflow assumption on the 64-bit addresses.
\<close>

lemma overlapping_write_is_intersection:
  assumes "la_size_bytes l \<noteq> 0" and "la_size_bytes w \<noteq> 0"
  shows "overlapping_write l w \<longleftrightarrow>
    ordering_domain (la_metadata w) = ordering_domain (la_metadata l) \<and>
    {unat (la_byte_address l) ..< unat (la_byte_address l) + unat (la_size_bytes l)} \<inter>
    {unat (la_byte_address w) ..< unat (la_byte_address w) + unat (la_size_bytes w)} \<noteq> {}"
proof -
  have meet: "{a ..< a + m} \<inter> {b ..< b + n} \<noteq> {} \<longleftrightarrow> (if b \<le> a then a - b < n else b - a < m)"
    if "0 < m" "0 < n" for a b m n :: nat
  proof -
    have "{a ..< a + m} \<inter> {b ..< b + n} = {max a b ..< min (a + m) (b + n)}" by auto
    with that show ?thesis by auto
  qed
  have "0 < unat (la_size_bytes l)" "0 < unat (la_size_bytes w)"
    using assms by (simp_all add: unat_gt_0)
  from meet [OF this] show ?thesis
    by (simp add: overlapping_write_def word_le_nat_alt word_less_nat_alt unat_sub)
qed

text \<open>
  C19. Merging is safe: accesses are merged only into a read, when no queued write of its ordering
  domain overlaps it; each merged access is a read of the same bytes at the same location, in the
  same domain; the reads left behind keep their order, and none is lost.
\<close>

theorem merged_reads_are_safe:
  assumes "merge_reads c w first = Inr (completed, c')" and "length completed > 1"
  shows "\<not> w \<and> (\<forall>wr \<in> set (write_queue c). \<not> overlapping_write first wr) \<and>
    (\<forall>a \<in> set (tl completed). same_address_read first a) \<and> hd completed = first \<and>
    read_queue c' = filter (\<lambda>a. \<not> same_address_read first a) (read_queue c) \<and>
    mset (map logical (read_queue c)) = mset (map logical (read_queue c')) + mset (map logical (tl completed))"
proof -
  let ?p = "cfg_enable_request_merging (config c)"
  obtain merged kept where m: "merge_loop ?p first (ha_access_class first) (read_queue c) = (merged, kept)"
    by fastforce
  have w: "\<not> (w \<or> (\<exists>wr \<in> set (write_queue c). overlapping_write first wr))" (is "\<not> ?b")
  proof
    assume ?b
    then have "completed = [first]" using assms(1) unfolding merge_reads_def by (simp only: if_True) simp
    with assms(2) show False by simp
  qed
  with assms m have ne: "merged \<noteq> []" and d: "completed = first # merged"
    and upd: "\<exists>f. update_queue_stats (c\<lparr>read_queue := kept\<rparr>) f = Inr c'"
    by (auto simp: merge_reads_def ebind_eq_Inr split: if_splits)
  from upd have rq: "read_queue c' = kept"
    by (auto simp: update_queue_stats_def update_channel_def ebind_eq_Inr Let_def)
  note sp = merge_loop_spec [OF m]
  from ne sp(3) have p: "?p" by (cases merged) (auto simp: can_merge_def split: if_splits)
  have cong: "same_address_read first (a\<lparr>ha_access_class := k\<rparr>) = same_address_read first a" for a k
    by (simp add: same_address_read_def)
  from sp(3) p have "\<forall>a \<in> set merged. same_address_read first a"
    by (auto simp: can_merge_def cong)
  with w d rq sp(1,4) p show ?thesis by (simp add: can_merge_def)
qed

theorem merged_reads_are_safe_witness:
  "\<exists>completed c'. merge_reads small_open False (small_access hbm_op.Read 0) = Inr (completed, c') \<and>
     length completed = 3 \<and> read_queue c' = []"
proof -
  obtain completed c' where m: "merge_reads small_open False (small_access hbm_op.Read 0) = Inr (completed, c')"
    "length completed = 3"
    by (simp add: merge_reads_def small_defs can_merge_def same_address_read_def update_queue_stats_def
        update_channel_def Let_def)
  from merged_reads_are_safe [OF m(1)] m(2) have "read_queue c' =
      filter (\<lambda>a. \<not> same_address_read (small_access hbm_op.Read 0) a) (read_queue small_open)" by simp
  with m show ?thesis by (auto simp: small_open_def same_address_read_def small_access_def)
qed

section \<open>Refresh and RFM\<close>

text \<open>
  C20. The loop that refreshes an idle channel ends from every well-formed controller, whatever rows
  are open and whatever is pending; when no time overflows, nothing is left to refresh and the
  queues are untouched.
\<close>

theorem idle_refresh_terminates:
  assumes "controller_ok c"
  shows "\<exists>r. idle_refresh_loop (c, cursor) = Some r \<and> (case r of
      Inl x \<Rightarrow> \<exists>msg. x = OverflowError msg
    | Inr c' \<Rightarrow> \<not> refresh_outstanding c' \<and> controller_ok c' \<and>
        read_queue c' = read_queue c \<and> write_queue c' = write_queue c)"
proof -
  obtain r where r: "idle_refresh_loop (c, cursor) = Some r"
    and d: "delivers (\<lambda>c'. refreshed c c' \<and> \<not> refresh_outstanding c') r"
    using idle_refresh_loop_delivers [OF assms] by blast
  from d have "case r of Inl x \<Rightarrow> \<exists>msg. x = OverflowError msg
    | Inr c' \<Rightarrow> \<not> refresh_outstanding c' \<and> controller_ok c' \<and>
        read_queue c' = read_queue c \<and> write_queue c' = write_queue c"
    by (cases r) (auto simp: refreshed_def)
  with r show ?thesis by blast
qed

lemma small_open_refresh_ok: "controller_ok (small_open\<lparr>all_bank_refresh_pending := True\<rparr>)"
  using small_open_ok by (simp add: controller_ok_def)

theorem idle_refresh_terminates_witness:
  "idle_refresh_loop (small_open\<lparr>all_bank_refresh_pending := True\<rparr>, 0) \<noteq> None"
  using idle_refresh_terminates [OF small_open_refresh_ok, of 0] by auto

text \<open>
  C21. The catch-up loop for missed refresh intervals ends for a non-zero interval when the present
  lies an interval below the end of 64-bit time, and leaves the next refresh due in the future.
\<close>

theorem refresh_catch_up_terminates:
  assumes "controller_ok c" and "cfg_refresh_interval (config c) \<noteq> 0"
    and "unat now + unat (cfg_refresh_interval (config c)) < 2 ^ 64"
  shows "\<exists>r. catch_up now (c, due) = Some r \<and> (case r of
      Inl x \<Rightarrow> \<exists>msg. x = OverflowError msg
    | Inr c' \<Rightarrow> controller_ok c' \<and> (\<exists>d. next_refresh_due c' = Some d \<and> now < d))"
proof -
  obtain r where r: "catch_up now (c, due) = Some r"
    and d: "delivers (\<lambda>c'. refreshed c c' \<and> (\<exists>d. next_refresh_due c' = Some d \<and> now < d)) r"
    using catch_up_delivers [OF assms] by blast
  from d have "case r of Inl x \<Rightarrow> \<exists>msg. x = OverflowError msg
    | Inr c' \<Rightarrow> controller_ok c' \<and> (\<exists>d. next_refresh_due c' = Some d \<and> now < d)"
    by (cases r) (auto simp: refreshed_def)
  with r show ?thesis by blast
qed

theorem refresh_catch_up_terminates_witness:
  "catch_up 10000000 (small_controller (Some Hbm4Standard) 3900000, 3900000) \<noteq> None"
  using refresh_catch_up_terminates [OF small_controller_ok, of "Some Hbm4Standard" 3900000 10000000 3900000]
  by (auto simp: small_controller_def small_config_def)

text \<open>
  C22. Maintenance makes progress: a candidate is chosen exactly when an all-bank refresh, a bank's
  refresh or its RFM is pending, and issuing it decreases the work left, the number of pending
  requests and open banks.
\<close>

theorem maintenance_progress:
  assumes "controller_ok c"
  shows "case choose_maintenance c now of
      Inl x \<Rightarrow> \<exists>msg. x = OverflowError msg
    | Inr None \<Rightarrow> \<not> maintenance_pending c
    | Inr (Some m) \<Rightarrow> maintenance_pending c \<and> (\<forall>t \<ge> mc_ready_at m. case issue_maintenance c m t of
          Inl x \<Rightarrow> \<exists>msg. x = OverflowError msg
        | Inr c' \<Rightarrow> controller_ok c' \<and> maintenance_work c' < maintenance_work c)"
proof (cases "choose_maintenance c now")
  case (Inl x)
  with choose_maintenance_delivers [OF assms, of now] show ?thesis by simp
next
  case (Inr r)
  with choose_maintenance_delivers [OF assms, of now]
  have r: "r = None \<longleftrightarrow> \<not> maintenance_pending c" "\<And>m. r = Some m \<Longrightarrow> maintains c now m" by simp_all
  show ?thesis
  proof (cases r)
    case None
    with Inr r(1) show ?thesis by simp
  next
    case (Some m)
    have "case issue_maintenance c m t of Inl x \<Rightarrow> \<exists>msg. x = OverflowError msg
        | Inr c' \<Rightarrow> controller_ok c' \<and> maintenance_work c' < maintenance_work c"
      if "mc_ready_at m \<le> t" for t
      using issue_maintenance_delivers [OF assms r(2) [OF Some] that] maintained_work [OF r(2) [OF Some], of t]
      by (cases "issue_maintenance c m t") (auto simp: maintained_def)
    with Inr Some r(1) show ?thesis by simp
  qed
qed

theorem maintenance_progress_witness:
  "case choose_maintenance (small_open\<lparr>all_bank_refresh_pending := True\<rparr>) 0 of
      Inl x \<Rightarrow> \<exists>msg. x = OverflowError msg | Inr m \<Rightarrow> m \<noteq> None"
  using maintenance_progress [OF small_open_refresh_ok, of 0]
  by (auto simp: maintenance_pending_def split: sum.splits option.splits)

text \<open>
  C23. A refresh or RFM command is issued only to closed banks: the final all-bank command only when
  no bank of the channel is open, a bank's own command only when that bank is closed; before that
  the chosen command is the precharge that closes them. A pending RFM of a bank goes before its
  refresh.
\<close>

theorem refresh_only_on_closed_banks:
  assumes "controller_ok c" and "choose_maintenance c now = Inr (Some m)"
  shows "let b = banks c ! mc_local_bank m; all = (mc_requested m = hbm_command.RefreshAllBank) in
    mc_local_bank m < length (banks c) \<and> (all \<longleftrightarrow> all_bank_refresh_pending c) \<and>
    (mc_final_command m \<longleftrightarrow> (if all then \<forall>b \<in> set (banks c). \<not> bank_open b else \<not> bank_open b)) \<and>
    mc_command m = (if mc_final_command m then mc_requested m else if all then PreAll else PreBank) \<and>
    (\<not> all \<longrightarrow> mc_requested m = (if rfm_pending b then hbm_command.RfmPerBank else hbm_command.RefreshPerBank))"
proof -
  have m: "maintains c now m"
    using deliversD [OF choose_maintenance_delivers [OF assms(1)] assms(2)] by simp
  have "\<not> all_bank_refresh_pending c \<Longrightarrow> mc_requested m = (if rfm_pending (banks c ! mc_local_bank m)
      then hbm_command.RfmPerBank else hbm_command.RefreshPerBank)"
    using m by (auto simp: maintains_def Let_def)
  with maintainsD [OF m] show ?thesis
    by (cases "mc_requested m = hbm_command.RefreshAllBank"; cases "mc_final_command m")
      (simp_all add: Let_def any_open_def)
qed

lemma small_open_maintenance:
  "\<exists>m. choose_maintenance (small_open\<lparr>all_bank_refresh_pending := True\<rparr>) 0 = Inr (Some m)"
  by (simp add: small_defs select_defs earliest_loop_fresh fresh_engine controller_bank_address_def
      bank_address_def bank_count_def channel_count_def plan_command_def resolve_prerequisite_cases
      earliest_all_bank_def Let_def bank_open_def supports_common common_support_def
      is_data_command_def bank_maintenance_def channel_maintenance_def)

theorem refresh_only_on_closed_banks_witness:
  "\<exists>m. choose_maintenance (small_open\<lparr>all_bank_refresh_pending := True\<rparr>) 0 = Inr (Some m) \<and>
     mc_command m = PreAll"
proof -
  obtain m where m: "choose_maintenance (small_open\<lparr>all_bank_refresh_pending := True\<rparr>) 0 = Inr (Some m)"
    using small_open_maintenance by blast
  from refresh_only_on_closed_banks [OF small_open_refresh_ok this]
  have "mc_command m = PreAll"
    by (auto simp: Let_def small_open_def bank_open_def initial_bank_def split: if_splits)
  with m show ?thesis by blast
qed

section \<open>A device without a standard\<close>

text \<open>
  C36. Without a standard and with the closed-row policy a data command marks its bank for a
  precharge, and no command of any kind clears the mark: from then on the planned command of every
  access to the bank is a precharge, even right after a precharge.
\<close>

theorem legacy_precharge_mark_sticks:
  assumes "cfg_standard (config c) = None" and "i < length (banks c)"
  shows "(cfg_row_policy (config c) = Closed \<longrightarrow> (\<forall>command row. \<exists>c'.
       close_after_data c command row i = Inr c' \<and> precharge_pending (banks c' ! i))) \<and>
    (precharge_pending (banks c ! i) \<longrightarrow> (\<forall>command row c' j. apply_transition c command row j = Inr c' \<longrightarrow>
       precharge_pending (banks c' ! i) \<and>
       (\<forall>op r auto. plan_access None op r (banks c' ! i) auto = Inr PreBank)))"
proof (intro conjI impI allI)
  fix command row
  assume "cfg_row_policy (config c) = Closed"
  with assms show "\<exists>c'. close_after_data c command row i = Inr c' \<and> precharge_pending (banks c' ! i)"
    by (simp add: close_after_data_def)
next
  fix command row c' j op r auto
  assume p: "precharge_pending (banks c ! i)" and t: "apply_transition c command row j = Inr c'"
  from assms p t show stick: "precharge_pending (banks c' ! i)"
    by (cases "i = j") (auto simp: apply_transition_def Let_def ebind_eq_Inr list_at_def split: if_splits)
  then show "plan_access None op r (banks c' ! i) auto = Inr PreBank" by (simp add: plan_access_cases)
qed

theorem legacy_precharge_mark_sticks_witness:
  "\<exists>c c'. close_after_data (small_controller None 0) hbm_command.Read 0 0 = Inr c \<and>
     apply_transition c PreBank 0 0 = Inr c' \<and>
     plan_access None hbm_op.Read 0 (banks c' ! 0) False = Inr PreBank"
proof -
  let ?s = "small_controller None 0"
  have s: "cfg_standard (config ?s) = None" "0 < length (banks ?s)" "cfg_row_policy (config ?s) = Closed"
    by (simp_all add: small_controller_def small_config_def make_controller_def)
  obtain c where c: "close_after_data ?s hbm_command.Read 0 0 = Inr c" "precharge_pending (banks c ! 0)"
    using legacy_precharge_mark_sticks [OF s(1,2)] s(3) by blast
  from c(1) have d: "cfg_standard (config c) = None" "0 < length (banks c)"
    by (auto simp: close_after_data_def small_controller_def small_config_def make_controller_def)
  obtain c' where t: "apply_transition c PreBank 0 0 = Inr c'"
    using d by (auto simp: apply_transition_def Let_def)
  from legacy_precharge_mark_sticks [OF d] c t show ?thesis by blast
qed

end
