(* ===== verification/System_Config.thy ===== *)
theory System_Config
  imports Controller Event_Queue
begin

text \<open>
  The configuration of a system (\<^verbatim>\<open>include/hbmsim/hbm_system.h\<close>, lines 22 to 83, and
  \<^verbatim>\<open>src/hbm_system.cpp\<close>, lines 10 to 113): the device specification, the controller
  and simulation settings, their validation and the profiles.
\<close>

section \<open>The device\<close>

record device_spec =
  ds_organization :: hbm_organization
  ds_timing :: hbm_timing_spec
  ds_standard :: "hbm_standard option"

definition default_device :: device_spec where
  "default_device = \<lparr>ds_organization = default_organization, ds_timing = default_timing_spec,
     ds_standard = None\<rparr>"

definition device_custom :: device_spec where
  "device_custom = default_device\<lparr>ds_organization := default_organization\<lparr>
     topology := default_topology, columns_per_row := 128, rows_per_bank := 16384,
     physical_burst_bytes := 64, address_interleave_bytes := 64, address_mapping := Linear,
     pseudo_channel_rate := \<lparr>br_bytes = 32, br_interval = 1000\<rparr>\<rparr>\<rparr>"

text \<open>\<open>None\<close> is the null pointer.\<close>

definition from_standard :: "hbm_standard option \<Rightarrow> device_spec result" where
  "from_standard standard =
     ebind (throw_if (standard = None) (InvalidArgument ''device standard is null'')) (\<lambda>_.
     Inr (default_device\<lparr>ds_standard := standard\<rparr>))"

definition device_organization :: "device_spec \<Rightarrow> hbm_organization" where
  "device_organization d =
     (case ds_standard d of Some std \<Rightarrow> std_organization std | None \<Rightarrow> ds_organization d)"

definition device_timing :: "device_spec \<Rightarrow> hbm_timing_spec" where
  "device_timing d = (case ds_standard d of Some std \<Rightarrow> std_timing std | None \<Rightarrow> ds_timing d)"

definition as_custom :: "device_spec \<Rightarrow> device_spec" where
  "as_custom d = default_device\<lparr>ds_organization := device_organization d,
     ds_timing := device_timing d\<rparr>"

text \<open>The references for in-place edits, as updates.\<close>

definition edit_organization ::
    "device_spec \<Rightarrow> (hbm_organization \<Rightarrow> hbm_organization) \<Rightarrow> device_spec result" where
  "edit_organization d f =
     ebind (throw_if (ds_standard d \<noteq> None)
       (LogicError ''standard organization is immutable; use as_custom'')) (\<lambda>_.
     Inr (d\<lparr>ds_organization := f (ds_organization d)\<rparr>))"

definition edit_timing ::
    "device_spec \<Rightarrow> (hbm_timing_spec \<Rightarrow> hbm_timing_spec) \<Rightarrow> device_spec result" where
  "edit_timing d f =
     ebind (throw_if (ds_standard d \<noteq> None)
       (LogicError ''standard timing is immutable; use as_custom'')) (\<lambda>_.
     Inr (d\<lparr>ds_timing := f (ds_timing d)\<rparr>))"

section \<open>Controller and simulation settings\<close>

datatype request_merge_policy = NoMerge | SameAddressRead

record controller_config =
  max_active_transactions :: size_t
  cc_row_policy :: row_policy
  cc_scheduler :: scheduler_kind
  cc_refresh_policy :: refresh_policy
  write_drain_high_watermark :: size_t
  write_drain_low_watermark :: size_t
  read_queue_capacity :: size_t
  write_queue_capacity :: size_t
  cc_merge_policy :: request_merge_policy
  starvation_threshold :: sim_time
  refresh_interval :: sim_time
  enable_rfm :: bool
  rfm_activation_threshold :: u32

definition default_controller_config :: controller_config where
  "default_controller_config = \<lparr>max_active_transactions = 1024, cc_row_policy = Open,
     cc_scheduler = FrFcfs, cc_refresh_policy = AllBank, write_drain_high_watermark = 16,
     write_drain_low_watermark = 4, read_queue_capacity = 0, write_queue_capacity = 0,
     cc_merge_policy = NoMerge, starvation_threshold = 0, refresh_interval = 0,
     enable_rfm = False, rfm_activation_threshold = 0\<rparr>"

record simulation_config =
  access_granularity_bytes :: u64
  retain_completions :: bool
  detailed_stats :: bool

definition default_simulation_config :: simulation_config where
  "default_simulation_config =
     \<lparr>access_granularity_bytes = 0, retain_completions = False, detailed_stats = True\<rparr>"

record hbm_config =
  device :: device_spec
  controller :: controller_config
  simulation :: simulation_config

definition default_config :: hbm_config where
  "default_config = \<lparr>device = device_custom, controller = default_controller_config,
     simulation = default_simulation_config\<rparr>"

definition config_validate :: "hbm_config \<Rightarrow> unit result" where
  "config_validate cfg =
     (let c = controller cfg; s = simulation cfg; org = device_organization (device cfg);
          grain = access_granularity_bytes s; std = ds_standard (device cfg) in
      ebind (throw_if (max_active_transactions c = 0)
        (InvalidArgument ''max_active_transactions must be non-zero'')) (\<lambda>_.
      ebind (topology_validate (topology org)) (\<lambda>_.
      ebind (bandwidth_validate (pseudo_channel_rate org)) (\<lambda>_.
      ebind (throw_if (address_interleave_bytes org = 0 \<or> columns_per_row org = 0 \<or>
          rows_per_bank org = 0 \<or> physical_burst_bytes org = 0)
        (InvalidArgument ''HBM geometry and burst sizes must be non-zero'')) (\<lambda>_.
      ebind (throw_if (write_drain_low_watermark c > write_drain_high_watermark c)
        (InvalidArgument ''write drain low watermark exceeds high watermark'')) (\<lambda>_.
      ebind (throw_if (grain \<noteq> 0 \<and> grain < physical_burst_bytes org)
        (InvalidArgument ''simulation access granularity is below physical burst size'')) (\<lambda>_.
      ebind (throw_if (grain \<noteq> 0 \<and> grain mod physical_burst_bytes org \<noteq> 0)
        (InvalidArgument ''simulation access granularity must be a burst multiple'')) (\<lambda>_.
      ebind (throw_if (refresh_interval c \<noteq> 0 \<and>
          refresh_interval c < refresh_duration (cc_refresh_policy c) (device_timing (device cfg)))
        (InvalidArgument ''refresh interval must be at least its duration'')) (\<lambda>_.
      ebind (throw_if (enable_rfm c \<and>
          (case std of None \<Rightarrow> True | Some x \<Rightarrow> \<not> supports x hbm_command.RfmPerBank))
        (InvalidArgument ''selected standard does not support RFM'')) (\<lambda>_.
      throw_if (enable_rfm c \<and> rfm_activation_threshold c = 0)
        (InvalidArgument ''RFM requires a non-zero activation threshold'')))))))))))"

definition hbm4_8000 :: hbm_config where
  "hbm4_8000 = default_config\<lparr>device := default_device\<lparr>ds_standard := Some Hbm4Standard\<rparr>\<rparr>"

definition hbm2_2000 :: hbm_config where
  "hbm2_2000 = default_config\<lparr>device := default_device\<lparr>ds_standard := Some Hbm2Standard\<rparr>,
     controller := default_controller_config\<lparr>cc_merge_policy := SameAddressRead\<rparr>\<rparr>"

definition hbm3_6400 :: hbm_config where
  "hbm3_6400 = default_config\<lparr>device := default_device\<lparr>ds_standard := Some Hbm3Standard\<rparr>,
     controller := default_controller_config\<lparr>cc_merge_policy := SameAddressRead\<rparr>\<rparr>"

section \<open>Lemmas\<close>

text \<open>What an accepted configuration guarantees.\<close>

lemma config_validate_ok:
  "config_validate cfg = Inr u \<longleftrightarrow>
     max_active_transactions (controller cfg) \<noteq> 0 \<and>
     (let org = device_organization (device cfg); c = controller cfg;
          grain = access_granularity_bytes (simulation cfg) in
      topology_validate (topology org) = Inr () \<and>
      br_bytes (pseudo_channel_rate org) \<noteq> 0 \<and> br_interval (pseudo_channel_rate org) \<noteq> 0 \<and>
      address_interleave_bytes org \<noteq> 0 \<and> columns_per_row org \<noteq> 0 \<and> rows_per_bank org \<noteq> 0 \<and>
      physical_burst_bytes org \<noteq> 0 \<and>
      write_drain_low_watermark c \<le> write_drain_high_watermark c \<and>
      (grain \<noteq> 0 \<longrightarrow> physical_burst_bytes org \<le> grain \<and> grain mod physical_burst_bytes org = 0) \<and>
      (refresh_interval c \<noteq> 0 \<longrightarrow>
        refresh_duration (cc_refresh_policy c) (device_timing (device cfg)) \<le> refresh_interval c) \<and>
      (enable_rfm c \<longrightarrow> rfm_activation_threshold c \<noteq> 0 \<and>
        (\<exists>std. ds_standard (device cfg) = Some std \<and> supports std hbm_command.RfmPerBank)))"
  by (cases "ds_standard (device cfg)"; simp add: config_validate_def Let_def ebind_eq_Inr not_less)
    blast+

text \<open>The built-in profiles and the default are accepted.\<close>

lemma profiles_validate:
  "config_validate default_config = Inr ()" "config_validate hbm2_2000 = Inr ()"
  "config_validate hbm3_6400 = Inr ()" "config_validate hbm4_8000 = Inr ()"
  by (simp_all add: config_validate_ok Let_def default_config_def hbm2_2000_def hbm3_6400_def
      hbm4_8000_def default_controller_config_def default_simulation_config_def device_custom_def
      default_device_def device_organization_def topology_validate_def default_topology_def
      default_organization_def hbm2_organization_def hbm3_organization_def hbm4_organization_def)

text \<open>Leaving a standard keeps its geometry and timing and makes both editable.\<close>

lemma as_custom_keeps:
  "device_organization (as_custom d) = device_organization d"
  "device_timing (as_custom d) = device_timing d"
  "edit_organization (as_custom d) f = Inr ((as_custom d)\<lparr>ds_organization := f (device_organization d)\<rparr>)"
  "edit_timing (as_custom d) g = Inr ((as_custom d)\<lparr>ds_timing := g (device_timing d)\<rparr>)"
  by (simp_all add: as_custom_def device_organization_def device_timing_def default_device_def
      edit_organization_def edit_timing_def)

end
