(* ===== verification/System.thy ===== *)
theory System
  imports System_Config Controller_Step "HOL-Library.AList"
begin

text \<open>
  \<^verbatim>\<open>HbmSystem\<close> (\<^verbatim>\<open>include/hbmsim/hbm_system.h\<close>, lines 84 to 150, and
  \<^verbatim>\<open>src/hbm_system.cpp\<close>, lines 115 to 406): admission of transactions, their split
  into accesses, the events that drive the channel controllers and the completion of
  transactions. The closures given to the scheduler are the datatype \<open>system_event\<close>; the two
  callbacks the client registers are parameters, which may call back into the system.
\<close>

section \<open>State\<close>

record parent_request =
  pr_transaction :: hbm_transaction
  remaining_accesses :: u64
  pr_completion_time :: sim_time
  completion_channel :: u32
  last_access_class :: hbm_access_class
  last_latency_breakdown :: hbm_latency_breakdown
  admitted_bytes :: u64

definition new_parent :: "hbm_transaction \<Rightarrow> parent_request" where
  "new_parent tx = \<lparr>pr_transaction = tx, remaining_accesses = 0, pr_completion_time = 0,
     completion_channel = 0, last_access_class = RowClosed,
     last_latency_breakdown = initial_latency, admitted_bytes = 0\<rparr>"

text \<open>The closures: a controller wake, a refresh, the end of a transfer, a capacity notification.\<close>

datatype system_event =
    Wake u32 sim_time
  | RefreshDue u32 sim_time
  | TransferDone physical_access u32
  | CapacityReady u32 sim_time

text \<open>
  \<^verbatim>\<open>parents_\<close> and \<^verbatim>\<open>pending_events_\<close> are unordered; here an association list
  and a list without repetitions. An event carries the token that its closure erases first.
\<close>

record hbm_system =
  sys_config :: hbm_config
  sys_queue :: "(event_token \<times> system_event) event_queue"
  sys_mapper :: address_mapper
  sys_stats :: hbm_stats
  controllers :: "hbm_controller list"
  parents :: "(transaction_id \<times> parent_request) list"
  pending_admissions :: "transaction_id list"
  completions :: "hbm_completion list"
  pending_events :: "event_token list"
  next_access_sequence :: u64

text \<open>The client may extend the record by a state of its own, which only its callbacks touch.\<close>

type_synonym 'z system = "'z hbm_system_scheme"

record capacity_notification =
  cn_time :: sim_time
  cn_channel :: u32
  cn_read_slots :: size_t
  cn_write_slots :: size_t

record 'z client =
  on_completion :: "(hbm_completion \<Rightarrow> 'z system \<Rightarrow> 'z system result) option"
  on_capacity :: "(capacity_notification \<Rightarrow> 'z system \<Rightarrow> 'z system result) option"

section \<open>Construction\<close>

definition channel_config :: "hbm_config \<Rightarrow> u32 \<Rightarrow> u32 \<Rightarrow> hbm_controller_config" where
  "channel_config cfg channel banks_per_channel =
     (let org = device_organization (device cfg); policy = controller cfg in
      \<lparr>cfg_channel = channel, cfg_first_flat_bank = channel * banks_per_channel,
       cfg_bank_count = banks_per_channel,
       cfg_pseudo_channel_count = pseudo_channels_per_channel (topology org),
       cfg_timing = device_timing (device cfg), cfg_standard = ds_standard (device cfg),
       cfg_data_rate = pseudo_channel_rate org, cfg_scheduler = cc_scheduler policy,
       cfg_row_policy = cc_row_policy policy, cfg_refresh_policy = cc_refresh_policy policy,
       cfg_write_drain_high_watermark = write_drain_high_watermark policy,
       cfg_write_drain_low_watermark = write_drain_low_watermark policy,
       cfg_read_queue_capacity = read_queue_capacity policy,
       cfg_write_queue_capacity = write_queue_capacity policy,
       cfg_enable_request_merging = (cc_merge_policy policy = SameAddressRead),
       cfg_starvation_threshold = starvation_threshold policy,
       cfg_refresh_interval = refresh_interval policy, cfg_enable_rfm = enable_rfm policy,
       cfg_detailed_stats = detailed_stats (simulation cfg),
       cfg_rfm_activation_threshold = rfm_activation_threshold policy\<rparr>)"

definition channel_counters :: "hbm_config \<Rightarrow> u32 \<Rightarrow> channel_stats" where
  "channel_counters cfg banks_per_channel =
     (if detailed_stats (simulation cfg)
      then initial_channel_stats\<lparr>
        pseudo_channel_stats := replicate (unat (pseudo_channels_per_channel
          (topology (device_organization (device cfg))))) initial_resource_stats,
        bank_stats := replicate (unat banks_per_channel) initial_resource_stats\<rparr>
      else initial_channel_stats)"

text \<open>The division by \<^verbatim>\<open>channel_count\<close> comes before any use of the channels.\<close>

definition make_system ::
    "hbm_config \<Rightarrow> (event_token \<times> system_event) event_queue \<Rightarrow> hbm_system result" where
  "make_system cfg queue =
     ebind (config_validate cfg) (\<lambda>_.
     let org = device_organization (device cfg) in
     ebind (make_address_mapper (topology org) (address_interleave_bytes org)
       (columns_per_row org) (rows_per_bank org) (address_mapping org)) (\<lambda>m.
     let count = channel_count (topology org) in
     if count = 0 then Inl (UndefinedBehaviour ''division by zero'')
     else let per_channel = bank_count m div count;
              st = initial_stats\<lparr>channels :=
                replicate (unat count) (channel_counters cfg per_channel)\<rparr>
       in Inr \<lparr>sys_config = cfg, sys_queue = queue, sys_mapper = m, sys_stats = st,
            controllers = map (\<lambda>i. make_controller
              (channel_config cfg (word_of_nat i) per_channel) m st) [0..<unat count],
            parents = [], pending_admissions = [], completions = [], pending_events = [],
            next_access_sequence = 0\<rparr>))"

text \<open>The destructor.\<close>

definition destroy_system :: "'z system \<Rightarrow> (event_token \<times> system_event) event_queue" where
  "destroy_system s = fold (\<lambda>token q. snd (cancel q token)) (pending_events s) (sys_queue s)"

section \<open>Access to the parts\<close>

definition sys_now :: "'z system \<Rightarrow> sim_time" where
  "sys_now s = eq_now (sys_queue s)"

definition active_request_count :: "'z system \<Rightarrow> size_t" where
  "active_request_count s = size_of (parents s)"

definition system_map_address :: "'z system \<Rightarrow> u64 \<Rightarrow> hbm_address result" where
  "system_map_address s a = map_address (sys_mapper s) a"

text \<open>
  A call of a method of \<^verbatim>\<open>controllers_.at(channel)\<close>: the controller works on the shared
  counters.
\<close>

definition with_controller ::
    "'z system \<Rightarrow> u32 \<Rightarrow> (hbm_controller \<Rightarrow> ('a \<times> hbm_controller) result) \<Rightarrow> ('a \<times> 'z system) result"
where
  "with_controller s channel f =
     ebind (list_at (controllers s) (unat channel)) (\<lambda>c.
     ebind (f (c\<lparr>stats := sys_stats s\<rparr>)) (\<lambda>(x, c').
     Inr (x, s\<lparr>controllers := (controllers s)[unat channel := c'], sys_stats := stats c'\<rparr>)))"

definition do_controller ::
    "'z system \<Rightarrow> u32 \<Rightarrow> (hbm_controller \<Rightarrow> hbm_controller result) \<Rightarrow> 'z system result" where
  "do_controller s channel f =
     ebind (with_controller s channel (\<lambda>c. ebind (f c) (\<lambda>c'. Inr ((), c')))) (\<lambda>(_, s'). Inr s')"

text \<open>\<^verbatim>\<open>schedule_event\<close>; the token in the event is the one the queue hands out.\<close>

definition schedule_event :: "'z system \<Rightarrow> sim_time \<Rightarrow> system_event \<Rightarrow> 'z system result" where
  "schedule_event s when ev =
     ebind (schedule_at (sys_queue s) when (next_token (sys_queue s), ev)) (\<lambda>(token, q).
     Inr (s\<lparr>sys_queue := q, pending_events := List.insert token (pending_events s)\<rparr>))"

section \<open>Splitting a transaction into accesses\<close>

record splitter =
  sp_group :: "hbm_access option"
  sp_previous :: hbm_address
  sp_address :: u64
  sp_remaining :: u64

definition same_resource :: "hbm_address \<Rightarrow> hbm_address \<Rightarrow> bool" where
  "same_resource l r \<longleftrightarrow> a_flat_channel l = a_flat_channel r \<and>
     a_pseudo_channel l = a_pseudo_channel r \<and> a_bank_group l = a_bank_group r \<and>
     a_bank l = a_bank r \<and> a_row l = a_row r"

definition max_group_bytes :: "hbm_config \<Rightarrow> u64" where
  "max_group_bytes cfg =
     (if access_granularity_bytes (simulation cfg) = 0
      then physical_burst_bytes (device_organization (device cfg))
      else access_granularity_bytes (simulation cfg))"

text \<open>\<^verbatim>\<open>Access{LogicalAccess{...}}\<close> with the metadata and the byte address.\<close>

definition new_access :: "hbm_transaction \<Rightarrow> hbm_address \<Rightarrow> u64 \<Rightarrow> u64 \<Rightarrow> hbm_access" where
  "new_access tx mapped bytes address =
     \<lparr>la_parent_id = tx_id tx, la_op = tx_op tx, la_address = mapped, la_size_bytes = bytes,
      la_arrival_time = tx_arrival_time tx, la_client = tx_client tx, la_sequence = 0,
      la_metadata = tx_metadata tx, la_byte_address = address,
      ha_access_class = RowClosed, activated = False, first_command_issued = False,
      starvation_reported = False, enqueued_at = 0, first_command_at = 0,
      command_eligible = False, command_eligible_since = 0, latency_breakdown = initial_latency\<rparr>"

text \<open>\<^verbatim>\<open>std::min({remaining, burst_boundary, mapping_boundary})\<close>.\<close>

definition piece_bytes :: "hbm_config \<Rightarrow> address_mapper \<Rightarrow> splitter \<Rightarrow> u64" where
  "piece_bytes cfg m sp =
     (let burst = physical_burst_bytes (device_organization (device cfg)) in
      min (sp_remaining sp) (min (burst - sp_address sp mod burst)
        (next_mapping_boundary m (sp_address sp))))"

text \<open>One iteration; \<open>Inl\<close> in the value is the \<^verbatim>\<open>break\<close>.\<close>

definition split_round ::
    "hbm_config \<Rightarrow> address_mapper \<Rightarrow> hbm_transaction \<Rightarrow> splitter \<Rightarrow> (hbm_access + splitter) result"
where
  "split_round cfg m tx sp =
     (if physical_burst_bytes (device_organization (device cfg)) = 0 \<or> m_interleave_bytes m = 0
      then Inl (UndefinedBehaviour ''division by zero'')
      else
      let bytes = piece_bytes cfg m sp in
      ebind (map_address m (sp_address sp)) (\<lambda>mapped.
      let step = (\<lambda>g. let remaining = sp_remaining sp - bytes in
            if remaining \<noteq> 0 then
              (if sp_address sp > u64_max - bytes
               then Inl (OverflowError ''transaction address range overflows uint64_t'')
               else Inr (Inr \<lparr>sp_group = Some g, sp_previous = mapped,
                      sp_address = sp_address sp + bytes, sp_remaining = remaining\<rparr>))
            else Inr (Inr \<lparr>sp_group = Some g, sp_previous = mapped, sp_address = sp_address sp,
                      sp_remaining = remaining\<rparr>))
      in case sp_group sp of
           None \<Rightarrow> step (new_access tx mapped bytes (sp_address sp))
         | Some g \<Rightarrow>
             if la_size_bytes g + bytes \<le> max_group_bytes cfg \<and>
                same_resource (la_address g) mapped \<and>
                (a_column mapped = a_column (sp_previous sp) \<or>
                 a_column mapped = a_column (sp_previous sp) + 1)
             then step (g\<lparr>la_size_bytes := la_size_bytes g + bytes\<rparr>)
             else Inr (Inl g)))"

partial_function (option) split_loop ::
    "hbm_config \<Rightarrow> address_mapper \<Rightarrow> hbm_transaction \<Rightarrow> splitter \<Rightarrow> hbm_access result option" where
  "split_loop cfg m tx sp =
     (if sp_remaining sp = 0
      then Some (case sp_group sp of
             Some g \<Rightarrow> Inr g
           | None \<Rightarrow> Inl (UndefinedBehaviour ''empty optional''))
      else case split_round cfg m tx sp of
             Inl e \<Rightarrow> Some (Inl e)
           | Inr (Inl g) \<Rightarrow> Some (Inr g)
           | Inr (Inr sp') \<Rightarrow> split_loop cfg m tx sp')"

declare split_loop.simps [code]

definition next_access :: "'z system \<Rightarrow> hbm_transaction \<Rightarrow> u64 \<Rightarrow> hbm_access result" where
  "next_access s tx offset =
     outcome (split_loop (sys_config s) (sys_mapper s) tx
       \<lparr>sp_group = None, sp_previous = zero_address, sp_address = tx_address tx + offset,
        sp_remaining = tx_size_bytes tx - offset\<rparr>)"

section \<open>Wakes and refreshes\<close>

definition schedule_controller_wake :: "'z system \<Rightarrow> u32 \<Rightarrow> sim_time \<Rightarrow> 'z system result" where
  "schedule_controller_wake s channel when0 =
     (let when = max when0 (sys_now s) in
      ebind (with_controller s channel (\<lambda>c. Inr (mark_wakeup c when))) (\<lambda>(marked, s').
      if \<not> marked then Inr s' else schedule_event s' when (Wake channel when)))"

definition schedule_refresh_due :: "'z system \<Rightarrow> u32 \<Rightarrow> 'z system result" where
  "schedule_refresh_due s channel =
     ebind (with_controller s channel (\<lambda>c. Inr (claim_refresh_event c))) (\<lambda>(due, s').
     case due of None \<Rightarrow> Inr s' | Some t \<Rightarrow> schedule_event s' t (RefreshDue channel t))"

section \<open>Admission\<close>

text \<open>
  One iteration of the inner loop of \<^verbatim>\<open>pump_admissions\<close>; the flag says whether the loop
  goes on, and \<^verbatim>\<open>touched\<close> holds the channels that took an access.
\<close>

definition admit_round ::
    "transaction_id \<Rightarrow> bool list \<times> 'z system \<Rightarrow> (bool \<times> bool list \<times> 'z system) result" where
  "admit_round tid x = (case x of (touched, s) \<Rightarrow>
     case map_of (parents s) tid of
       None \<Rightarrow> Inl (OutOfRange ''unordered_map::at'')
     | Some parent \<Rightarrow>
         if \<not> admitted_bytes parent < tx_size_bytes (pr_transaction parent)
         then Inr (False, touched, s)
         else
         ebind (next_access s (pr_transaction parent) (admitted_bytes parent)) (\<lambda>access.
         let channel = a_flat_channel (la_address access); read = (la_op access = hbm_op.Read);
             reads = (if read then 1 else 0); writes = (if read then 0 else 1) in
         ebind (list_at (controllers s) (unat channel)) (\<lambda>c.
         if \<not> can_reserve c reads writes then Inr (False, touched, s)
         else
         ebind (do_controller s channel (\<lambda>c. reserve c reads writes)) (\<lambda>s1.
         let parent' = parent\<lparr>admitted_bytes := admitted_bytes parent + la_size_bytes access,
               remaining_accesses := remaining_accesses parent + 1\<rparr>;
             s2 = s1\<lparr>parents := AList.update tid parent' (parents s1),
               sys_stats := (sys_stats s1)\<lparr>modeled_accesses := modeled_accesses (sys_stats s1) + 1\<rparr>,
               next_access_sequence := next_access_sequence s1 + 1\<rparr>;
             access' = access\<lparr>la_sequence := next_access_sequence s1\<rparr> in
         ebind (do_controller s2 channel (\<lambda>c. admit_reserved c access' (sys_now s2))) (\<lambda>s3.
           Inr (True, touched[unat channel := True], s3))))))"

partial_function (option) admit_loop ::
    "transaction_id \<Rightarrow> bool list \<times> 'z system \<Rightarrow> (bool list \<times> 'z system) result option" where
  "admit_loop tid x =
     (case admit_round tid x of
        Inl e \<Rightarrow> Some (Inl e)
      | Inr (again, x') \<Rightarrow> if again then admit_loop tid x' else Some (Inr x'))"

declare admit_loop.simps [code]

text \<open>The outer loop; the result starts with the transactions that stay pending.\<close>

fun pump_list ::
    "transaction_id list \<Rightarrow> bool list \<times> 'z system \<Rightarrow>
     (transaction_id list \<times> bool list \<times> 'z system) result" where
  "pump_list [] x = Inr ([], x)"
| "pump_list (tid # ids) x =
     ebind (outcome (admit_loop tid x)) (\<lambda>(touched, s).
     case map_of (parents s) tid of
       None \<Rightarrow> Inl (OutOfRange ''unordered_map::at'')
     | Some parent \<Rightarrow>
         ebind (pump_list ids (touched, s)) (\<lambda>(kept, x').
         Inr (if admitted_bytes parent = tx_size_bytes (pr_transaction parent) then kept
              else tid # kept, x')))"

fun wake_touched :: "nat \<Rightarrow> bool list \<Rightarrow> 'z system \<Rightarrow> 'z system result" where
  "wake_touched channel [] s = Inr s"
| "wake_touched channel (t # ts) s =
     (if \<not> t then wake_touched (Suc channel) ts s
      else ebind (schedule_refresh_due s (word_of_nat channel)) (\<lambda>s1.
           ebind (schedule_controller_wake s1 (word_of_nat channel) (sys_now s1)) (\<lambda>s2.
           wake_touched (Suc channel) ts s2)))"

definition pump_admissions :: "'z system \<Rightarrow> 'z system result" where
  "pump_admissions s =
     ebind (pump_list (pending_admissions s) (replicate (length (controllers s)) False, s))
       (\<lambda>(kept, touched, s1).
     wake_touched 0 touched (s1\<lparr>pending_admissions := kept\<rparr>))"

definition submit_reply :: "submit_status \<Rightarrow> transaction_id \<Rightarrow> string \<Rightarrow> submit_result" where
  "submit_reply status token message =
     \<lparr>sr_status = status, sr_token = token, sr_message = message\<rparr>"

definition reject_submission :: "'z system \<Rightarrow> u32 \<Rightarrow> 'z system result" where
  "reject_submission s channel =
     (let st = (sys_stats s)\<lparr>rejected_transactions := rejected_transactions (sys_stats s) + 1\<rparr> in
      ebind (element (channels st) (unat channel)) (\<lambda>ch.
      let q = (queue_stats ch)\<lparr>q_rejected_transactions :=
            q_rejected_transactions (queue_stats ch) + 1\<rparr> in
      Inr (s\<lparr>sys_stats := st\<lparr>channels := (channels st)[unat channel := ch\<lparr>queue_stats := q\<rparr>]\<rparr>\<rparr>)))"

definition try_submit_now :: "'z system \<Rightarrow> hbm_transaction \<Rightarrow> (submit_result \<times> 'z system) result" where
  "try_submit_now s tx =
     (if tx_id tx = 0 \<or> tx_size_bytes tx = 0 then
        Inr (submit_reply InvalidArgumentStatus 0
          ''transaction id and size_bytes must both be non-zero'', s)
      else if tx_arrival_time tx > sys_now s then
        Inr (submit_reply ArrivalInFuture 0
          ''transaction must be submitted at or after its arrival time'', s)
      else if map_of (parents s) (tx_id tx) \<noteq> None then
        Inr (submit_reply DuplicateId 0 ''transaction id was already submitted'', s)
      else if tx_size_bytes tx - 1 > u64_max - tx_address tx then
        Inr (submit_reply InvalidArgumentStatus 0 ''transaction address overflows'', s)
      else
      ebind (next_access s tx 0) (\<lambda>first.
      let channel = a_flat_channel (la_address first); read = (tx_op tx = hbm_op.Read) in
      ebind (if size_of (parents s) \<ge> max_active_transactions (controller (sys_config s)) then Inr False
        else ebind (element (controllers s) (unat channel)) (\<lambda>c.
          Inr (can_reserve c (if read then 1 else 0) (if read then 0 else 1)))) (\<lambda>room.
      if \<not> room then
        ebind (reject_submission s channel) (\<lambda>s1.
        Inr (submit_reply Backpressure 0 ''admission capacity exceeded'', s1))
      else
        ebind (pump_admissions (s\<lparr>parents := AList.update (tx_id tx) (new_parent tx) (parents s),
          pending_admissions := pending_admissions s @ [tx_id tx],
          sys_stats := (sys_stats s)\<lparr>submitted_transactions :=
            submitted_transactions (sys_stats s) + 1\<rparr>\<rparr>)) (\<lambda>s1.
        Inr (submit_reply Accepted (tx_id tx) '''', s1)))))"

section \<open>Driving a controller\<close>

definition notify_of :: "'z system \<Rightarrow> u32 \<Rightarrow> hbm_controller \<Rightarrow> sim_time \<Rightarrow> capacity_notification" where
  "notify_of s channel c when = \<lparr>cn_time = when, cn_channel = channel,
     cn_read_slots = available_read_slots c, cn_write_slots = available_write_slots c\<rparr>"

definition drive_controller :: "'z client \<Rightarrow> 'z system \<Rightarrow> u32 \<Rightarrow> 'z system result" where
  "drive_controller cl s channel =
     ebind (with_controller s channel (\<lambda>c. drive c (sys_now s))) (\<lambda>(step, s1).
     ebind (case issued_access step of
         None \<Rightarrow> Inr s1
       | Some issued \<Rightarrow>
           ebind (pump_admissions s1) (\<lambda>s2.
           ebind (schedule_event s2 (pa_completion_time issued) (TransferDone issued channel)) (\<lambda>s3.
           if on_capacity cl = None then Inr s3
           else schedule_event s3 (sys_now s3) (CapacityReady channel (sys_now s3))))) (\<lambda>s4.
     case wake_at step of
       None \<Rightarrow> Inr s4
     | Some t \<Rightarrow> schedule_controller_wake s4 channel t))"

section \<open>Completions\<close>

definition completion_of :: "parent_request \<Rightarrow> hbm_completion" where
  "completion_of r =
     (let tx = pr_transaction r in
      \<lparr>co_id = tx_id tx, co_op = tx_op tx, co_address = tx_address tx,
       co_size_bytes = tx_size_bytes tx, co_client = tx_client tx,
       co_channel = completion_channel r, co_access_class = last_access_class r,
       co_arrival_time = tx_arrival_time tx, co_completion_time = pr_completion_time r,
       co_latency = pr_completion_time r - tx_arrival_time tx,
       co_latency_breakdown = last_latency_breakdown r, co_metadata = tx_metadata tx\<rparr>)"

definition count_completion :: "hbm_completion \<Rightarrow> hbm_stats \<Rightarrow> hbm_stats" where
  "count_completion co st =
     (let st1 = st\<lparr>completed_transactions := completed_transactions st + 1\<rparr> in
      if co_op co = hbm_op.Read then st1\<lparr>read_bytes := read_bytes st1 + co_size_bytes co\<rparr>
      else st1\<lparr>write_bytes := write_bytes st1 + co_size_bytes co\<rparr>)"

definition call_client :: "('n \<Rightarrow> 'z system \<Rightarrow> 'z system result) option \<Rightarrow> 'n \<Rightarrow> 'z system \<Rightarrow> 'z system result"
where
  "call_client f x s = (case f of None \<Rightarrow> Inr s | Some g \<Rightarrow> g x s)"

definition complete_parent :: "'z client \<Rightarrow> 'z system \<Rightarrow> transaction_id \<Rightarrow> 'z system result" where
  "complete_parent cl s tid = (case map_of (parents s) tid of
     None \<Rightarrow> Inl (LogicError ''missing completion parent'')
   | Some request \<Rightarrow>
       let co = completion_of request;
           s1 = s\<lparr>sys_stats := count_completion co (sys_stats s),
             completions := (if retain_completions (simulation (sys_config s))
               then completions s @ [co] else completions s),
             parents := AList.delete tid (parents s)\<rparr>
       in ebind (call_client (on_completion cl) co s1) (\<lambda>s2.
          if on_capacity cl = None then Inr s2
          else ebind (list_at (controllers s2) (unat (co_channel co))) (\<lambda>c.
            call_client (on_capacity cl) (notify_of s2 (co_channel co) c (sys_now s2)) s2)))"

definition note_finished :: "logical_completion \<Rightarrow> u32 \<Rightarrow> sim_time \<Rightarrow> parent_request \<Rightarrow> parent_request" where
  "note_finished a channel t r =
     (let r1 = r\<lparr>remaining_accesses := remaining_accesses r - 1\<rparr> in
      if t \<ge> pr_completion_time r1
      then r1\<lparr>pr_completion_time := t, completion_channel := channel,
              last_access_class := lc_access_class a,
              last_latency_breakdown := lc_latency_breakdown a\<rparr>
      else r1)"

definition finish_access ::
    "'z client \<Rightarrow> 'z system \<Rightarrow> logical_completion \<Rightarrow> u32 \<Rightarrow> sim_time \<Rightarrow> 'z system result" where
  "finish_access cl s a channel t =
     ebind (do_controller s channel (\<lambda>c. complete_access c a)) (\<lambda>s1.
     case map_of (parents s1) (la_parent_id a) of
       None \<Rightarrow> Inl (LogicError ''missing access parent'')
     | Some r \<Rightarrow>
         ebind (throw_if (remaining_accesses r = 0) (LogicError ''completed access underflow'')) (\<lambda>_.
         let r' = note_finished a channel t r;
             s2 = s1\<lparr>parents := AList.update (la_parent_id a) r' (parents s1)\<rparr> in
         if remaining_accesses r' = 0 \<and> admitted_bytes r' = tx_size_bytes (pr_transaction r')
         then complete_parent cl s2 (la_parent_id a) else Inr s2))"

fun finish_all ::
    "'z client \<Rightarrow> logical_completion list \<Rightarrow> u32 \<Rightarrow> sim_time \<Rightarrow> 'z system \<Rightarrow> 'z system result" where
  "finish_all cl [] channel t s = Inr s"
| "finish_all cl (a # as) channel t s =
     ebind (finish_access cl s a channel t) (finish_all cl as channel t)"

section \<open>The closures\<close>

definition handle_event :: "'z client \<Rightarrow> system_event \<Rightarrow> 'z system \<Rightarrow> 'z system result" where
  "handle_event cl ev s = (case ev of
     Wake channel when \<Rightarrow>
       ebind (do_controller s channel (\<lambda>c. Inr (clear_wakeup c when))) (\<lambda>s1.
       drive_controller cl s1 channel)
   | RefreshDue channel due \<Rightarrow>
       ebind (do_controller s channel (\<lambda>c. handle_refresh_event c due)) (\<lambda>s1.
       ebind (schedule_controller_wake s1 channel due) (\<lambda>s2.
       ebind (list_at (controllers s2) (unat channel)) (\<lambda>c.
       if has_outstanding c then schedule_refresh_due s2 channel else Inr s2)))
   | TransferDone issued channel \<Rightarrow>
       finish_all cl (pa_completions issued) channel (pa_completion_time issued) s
   | CapacityReady channel when \<Rightarrow>
       ebind (list_at (controllers s) (unat channel)) (\<lambda>c.
       call_client (on_capacity cl) (notify_of s channel c when) s))"

text \<open>The event queue runs a closure: it erases its token and then does its work.\<close>

definition execute :: "'z client \<Rightarrow> (event_token \<times> system_event, 'z system) executor" where
  "execute cl x q s = (case x of (token, ev) \<Rightarrow>
     ebind (handle_event cl ev (s\<lparr>sys_queue := q,
       pending_events := removeAll token (pending_events s)\<rparr>)) (\<lambda>s'.
     Inr (sys_queue s', s')))"

definition system_run_next :: "'z client \<Rightarrow> 'z system \<Rightarrow> (bool \<times> 'z system) result" where
  "system_run_next cl s =
     ebind (run_next (execute cl) (sys_queue s) s) (\<lambda>(b, q, s'). Inr (b, s'\<lparr>sys_queue := q\<rparr>))"

definition system_run :: "'z client \<Rightarrow> 'z system \<Rightarrow> 'z system result" where
  "system_run cl s =
     ebind (outcome (run (execute cl) (sys_queue s) s)) (\<lambda>(q, s'). Inr (s'\<lparr>sys_queue := q\<rparr>))"

end
