(* ===== verification/System_Split.thy ===== *)
theory System_Split
  imports System
begin

text \<open>
  \<^verbatim>\<open>HbmSystem::next_access\<close> is correct: the splitting loop ends, and the access it
  makes is the longest next part of the transaction that stays in one row of one bank and within
  the access granularity.
\<close>

section \<open>Layouts that decode every address\<close>

definition layout_ok :: "address_mapper \<Rightarrow> bool" where
  "layout_ok m \<longleftrightarrow> mapper_ok m \<and> (m_mapping m = Linear \<or>
     m_interleave_bytes m = 32 \<and> 2 \<le> pseudo_channels_per_channel (m_topology m) \<and>
     4 \<le> bank_groups_per_pseudo_channel (m_topology m) \<and> 4 \<le> banks_per_bank_group (m_topology m) \<and>
     32 \<le> m_columns_per_row m \<and> 16384 \<le> m_rows_per_bank m)"

lemma layout_ok_mapper: "layout_ok m \<Longrightarrow> mapper_ok m"
  by (simp add: layout_ok_def)

lemma narrow_field:
  assumes "m < 2 ^ 32" and "m < unat (n :: u32)"
  shows "(ucast (x AND word_of_nat m :: u64) :: u32) < n"
proof -
  have "unat (x AND word_of_nat m :: u64) \<le> unat (word_of_nat m :: u64)"
    by (simp add: word_and_le1 flip: word_le_nat_alt)
  also have "\<dots> \<le> m" by (simp add: unat_of_nat)
  finally have "unat (x AND word_of_nat m :: u64) < 2 ^ 32" and le: "unat (x AND word_of_nat m :: u64) \<le> m"
    using assms(1) by simp_all
  with assms(2) show ?thesis by (simp add: word_less_nat_alt unat_u64_to_u32)
qed

lemma map_brc_inside:
  assumes "layout_ok m" and "m_mapping m \<noteq> Linear"
  shows "\<not> fields_outside m (map_hbm2_brc a)"
proof -
  have n: "2 \<le> unat (pseudo_channels_per_channel (m_topology m))"
    "4 \<le> unat (bank_groups_per_pseudo_channel (m_topology m))"
    "4 \<le> unat (banks_per_bank_group (m_topology m))"
    "32 \<le> unat (m_columns_per_row m)" "16384 \<le> unat (m_rows_per_bank m)"
    using assms by (simp_all add: layout_ok_def word_le_nat_alt)
  show ?thesis
    using narrow_field [of 1 "pseudo_channels_per_channel (m_topology m)" "drop_bit 5 a"]
      narrow_field [of 3 "bank_groups_per_pseudo_channel (m_topology m)" "drop_bit 6 a"]
      narrow_field [of 3 "banks_per_bank_group (m_topology m)" "drop_bit 8 a"]
      narrow_field [of 31 "m_columns_per_row m" "drop_bit 11 a"]
      narrow_field [of 16383 "m_rows_per_bank m" "drop_bit 16 a"] n
    by (simp add: fields_outside_def map_hbm2_brc_def not_le)
qed

lemma map_address_total: "layout_ok m \<Longrightarrow> \<exists>r. map_address m a = Inr r"
proof (cases "m_mapping m = Linear")
  case True
  assume "layout_ok m"
  with True show ?thesis using map_address_linear [OF layout_ok_mapper] by blast
next
  case False
  assume ok: "layout_ok m"
  with map_brc_inside [OF ok False, of a] False show ?thesis
    by (cases "m_mapping m") (simp_all add: map_address_def Let_def)
qed

lemma map_brc_line: "a div 32 = b div (32 :: u64) \<Longrightarrow> map_hbm2_brc a = map_hbm2_brc b"
proof -
  assume "a div 32 = b div (32 :: u64)"
  then have e: "drop_bit 5 a = drop_bit 5 b" by (simp add: drop_bit_eq_div)
  have "drop_bit (5 + k) a = drop_bit (5 + k) b" for k
    using arg_cong [OF e, of "drop_bit k"] by (simp add: ac_simps)
  from this [of 0] this [of 1] this [of 3] this [of 6] this [of 11] show ?thesis
    by (simp add: map_hbm2_brc_def)
qed

text \<open>In either layout an address decodes like any other up to the next mapping boundary.\<close>

lemma map_address_constant:
  assumes ok: "layout_ok m" and d: "unat d < unat (next_mapping_boundary m a)"
    and lt: "unat a + unat d < 2 ^ 64"
  shows "map_address m (a + d) = map_address m a"
proof (cases "m_mapping m")
  case Linear
  then show ?thesis using map_address_below_boundary [OF layout_ok_mapper [OF ok] _ d lt] by simp
next
  case Hbm2PseudoChannelBrc
  with ok have i: "m_interleave_bytes m = 32" by (simp add: layout_ok_def)
  then have "m_interleave_bytes m \<noteq> 0" by simp
  from same_line_below_boundary [OF this d lt] have "(a + d) div 32 = a div 32"
    by (simp add: i word_unat_eq_iff unat_div)
  from map_brc_line [OF this] Hbm2PseudoChannelBrc show ?thesis by (simp add: map_address_def)
qed

section \<open>The splitting loop\<close>

definition split_config_ok :: "hbm_config \<Rightarrow> address_mapper \<Rightarrow> bool" where
  "split_config_ok cfg m \<longleftrightarrow> layout_ok m \<and>
     physical_burst_bytes (device_organization (device cfg)) \<noteq> 0 \<and>
     physical_burst_bytes (device_organization (device cfg)) \<le> max_group_bytes cfg"

text \<open>
  What the group built so far satisfies: it starts at \<open>a\<close>, keeps the identity of the transaction,
  respects the granularity, and every byte of it decodes into the row of its first byte.
\<close>

definition group_ok :: "hbm_config \<Rightarrow> address_mapper \<Rightarrow> hbm_transaction \<Rightarrow> u64 \<Rightarrow> hbm_access \<Rightarrow> bool" where
  "group_ok cfg m tx a g \<longleftrightarrow> la_size_bytes g \<noteq> 0 \<and> la_size_bytes g \<le> max_group_bytes cfg \<and>
     map_address m a = Inr (la_address g) \<and> g = new_access tx (la_address g) (la_size_bytes g) a \<and>
     (\<forall>d < la_size_bytes g. \<exists>r. map_address m (a + d) = Inr r \<and> same_resource (la_address g) r)"

definition split_state :: "hbm_config \<Rightarrow> address_mapper \<Rightarrow> hbm_transaction \<Rightarrow> u64 \<Rightarrow> u64 \<Rightarrow> splitter \<Rightarrow> bool" where
  "split_state cfg m tx a len sp \<longleftrightarrow> (case sp_group sp of
     None \<Rightarrow> sp_address sp = a \<and> sp_remaining sp = len \<and> len \<noteq> 0
   | Some g \<Rightarrow> group_ok cfg m tx a g \<and> unat (la_size_bytes g) + unat (sp_remaining sp) = unat len \<and>
       (sp_remaining sp \<noteq> 0 \<longrightarrow> sp_address sp = a + la_size_bytes g))"

lemma piece_bytes_bounds:
  assumes "split_config_ok cfg m" and "sp_remaining sp \<noteq> 0"
  shows "0 < unat (piece_bytes cfg m sp)" and "piece_bytes cfg m sp \<le> sp_remaining sp"
    and "piece_bytes cfg m sp \<le> physical_burst_bytes (device_organization (device cfg))"
    and "piece_bytes cfg m sp \<le> next_mapping_boundary m (sp_address sp)"
proof -
  let ?b = "physical_burst_bytes (device_organization (device cfg))"
  let ?x = "?b - sp_address sp mod ?b"
  have b: "?b \<noteq> 0" using assms(1) by (simp add: split_config_ok_def)
  have i: "m_interleave_bytes m \<noteq> 0"
    using assms(1) by (simp add: split_config_ok_def layout_ok_def mapper_ok_def)
  have lt: "sp_address sp mod ?b < ?b"
    using b by (simp add: word_less_nat_alt unat_mod unat_gt_0)
  have x: "0 < unat ?x" "?x \<le> ?b"
    using lt by (simp_all add: word_less_nat_alt word_le_nat_alt unat_sub)
  have n: "0 < unat (next_mapping_boundary m (sp_address sp))"
    by (rule next_mapping_boundary_bounds(1) [OF i])
  have r: "0 < unat (sp_remaining sp)" using assms(2) by (simp add: unat_gt_0)
  show "0 < unat (piece_bytes cfg m sp)" using x(1) n r by (simp add: piece_bytes_def Let_def min_def)
  show "piece_bytes cfg m sp \<le> sp_remaining sp" "piece_bytes cfg m sp \<le> next_mapping_boundary m (sp_address sp)"
    by (simp_all add: piece_bytes_def Let_def min.coboundedI2)
  show "piece_bytes cfg m sp \<le> ?b" using x(2) by (simp add: piece_bytes_def Let_def min.coboundedI2 min.coboundedI1)
qed

lemma new_access_simps [simp]:
  "la_size_bytes (new_access tx r n a) = n" "la_address (new_access tx r n a) = r"
  "la_byte_address (new_access tx r n a) = a" "la_op (new_access tx r n a) = tx_op tx"
  "la_parent_id (new_access tx r n a) = tx_id tx" "la_arrival_time (new_access tx r n a) = tx_arrival_time tx"
  "first_command_issued (new_access tx r n a) = False"
  "(new_access tx r n a)\<lparr>la_size_bytes := k\<rparr> = new_access tx r k a"
  by (simp_all add: new_access_def)

lemma same_resource_trans: "same_resource p q \<Longrightarrow> same_resource q r \<Longrightarrow> same_resource p r"
  by (simp add: same_resource_def)

lemma same_resource_refl [simp]: "same_resource p p"
  by (simp add: same_resource_def)

text \<open>A group grows by a piece of the resource it is on.\<close>

lemma group_grows:
  assumes g: "group_ok cfg m tx a g" and ok: "layout_ok m" and p: "p = a + la_size_bytes g"
    and r: "map_address m p = Inr r" and same: "same_resource (la_address g) r"
    and n: "n \<le> next_mapping_boundary m p" and fit: "unat a + (unat (la_size_bytes g) + unat n) \<le> 2 ^ 64"
    and small: "unat (la_size_bytes g) + unat n < 2 ^ 64" and le: "la_size_bytes g + n \<le> max_group_bytes cfg"
  shows "group_ok cfg m tx a (g\<lparr>la_size_bytes := la_size_bytes g + n\<rparr>)"
proof -
  let ?s = "la_size_bytes g"
  have g': "g = new_access tx (la_address g) ?s a" and s0: "?s \<noteq> 0" and m0: "map_address m a = Inr (la_address g)"
    and bytes: "\<And>d. d < ?s \<Longrightarrow> \<exists>r. map_address m (a + d) = Inr r \<and> same_resource (la_address g) r"
    using g by (simp_all add: group_ok_def)
  have un: "unat (?s + n) = unat ?s + unat n" using small by (rule unat_add_u64_small)
  have "\<exists>r. map_address m (a + d) = Inr r \<and> same_resource (la_address g) r" if d: "d < ?s + n" for d
  proof (cases "d < ?s")
    case True
    then show ?thesis by (rule bytes)
  next
    case False
    then have le: "?s \<le> d" by simp
    have e: "unat (d - ?s) = unat d - unat ?s" using le by (rule unat_sub)
    have lt: "unat (d - ?s) < unat n" using d le un by (simp add: e word_less_nat_alt word_le_nat_alt)
    then have bd: "unat (d - ?s) < unat (next_mapping_boundary m p)"
      using n by (simp add: word_le_nat_alt)
    have pa: "unat p = unat a + unat ?s" unfolding p using fit lt by (intro unat_add_u64_small) linarith
    have "unat p + unat (d - ?s) < 2 ^ 64" unfolding pa using fit lt by linarith
    from map_address_constant [OF ok bd this] r have "map_address m (p + (d - ?s)) = Inr r" by simp
    moreover have "p + (d - ?s) = a + d" by (simp add: p)
    ultimately show ?thesis using same by simp
  qed
  moreover have "?s + n \<noteq> 0" using un s0 by (simp add: word_unat_eq_iff)
  moreover have "g\<lparr>la_size_bytes := k\<rparr> = new_access tx (la_address g) k a" for k
    by (subst g') simp
  moreover have "la_size_bytes (g\<lparr>la_size_bytes := k\<rparr>) = k" "la_address (g\<lparr>la_size_bytes := k\<rparr>) = la_address g" for k
    by simp_all
  ultimately show ?thesis using m0 le unfolding group_ok_def by metis
qed


text \<open>One iteration: it ends the loop with the group, or consumes some of the rest.\<close>

lemma split_round_steps:
  assumes ok: "split_config_ok cfg m" and st: "split_state cfg m tx a len sp"
    and rem: "sp_remaining sp \<noteq> 0" and range: "unat a + unat len \<le> 2 ^ 64"
  shows "(\<exists>g. split_round cfg m tx sp = Inr (Inl g) \<and> group_ok cfg m tx a g \<and>
      unat (la_size_bytes g) \<le> unat len) \<or>
    (\<exists>sp'. split_round cfg m tx sp = Inr (Inr sp') \<and> split_state cfg m tx a len sp' \<and>
      sp_group sp' \<noteq> None \<and> unat (sp_remaining sp') < unat (sp_remaining sp))"
proof -
  let ?n = "piece_bytes cfg m sp" and ?p = "sp_address sp"
  have lay: "layout_ok m" and burst: "physical_burst_bytes (device_organization (device cfg)) \<noteq> 0"
    and group: "physical_burst_bytes (device_organization (device cfg)) \<le> max_group_bytes cfg"
    using ok by (simp_all add: split_config_ok_def)
  have inter: "m_interleave_bytes m \<noteq> 0" using lay by (simp add: layout_ok_def mapper_ok_def)
  note b = piece_bytes_bounds [OF ok rem]
  obtain r where r: "map_address m ?p = Inr r" using map_address_total [OF lay] by blast
  have less: "unat (sp_remaining sp - ?n) = unat (sp_remaining sp) - unat ?n" using b(2) by (rule unat_sub)
  then have dec: "unat (sp_remaining sp - ?n) < unat (sp_remaining sp)"
    using b(1,2) by (simp add: word_le_nat_alt)
  have grow: "(\<exists>sp'. (let remaining = sp_remaining sp - ?n in
      if remaining \<noteq> 0 then
        (if ?p > u64_max - ?n
         then Inl (OverflowError ''transaction address range overflows uint64_t'')
         else Inr (Inr \<lparr>sp_group = Some g, sp_previous = r, sp_address = ?p + ?n, sp_remaining = remaining\<rparr>))
      else Inr (Inr \<lparr>sp_group = Some g, sp_previous = r, sp_address = ?p, sp_remaining = remaining\<rparr>)) =
      Inr (Inr sp') \<and> split_state cfg m tx a len sp' \<and> sp_group sp' \<noteq> None \<and>
      unat (sp_remaining sp') < unat (sp_remaining sp))"
    if g: "group_ok cfg m tx a g" and sz: "unat (la_size_bytes g) + unat (sp_remaining sp - ?n) = unat len"
      and at: "?p + ?n = a + la_size_bytes g" and start: "unat ?p + unat ?n = unat a + unat (la_size_bytes g)" for g
  proof (cases "sp_remaining sp - ?n = 0")
    case True
    with g sz dec show ?thesis by (simp add: split_state_def)
  next
    case False
    then have "0 < unat (sp_remaining sp - ?n)" by (simp add: unat_gt_0)
    then have "\<not> ?p > u64_max - ?n" using range sz start by (simp add: u64_overflow_test)
    with False g sz dec at show ?thesis by (simp add: split_state_def Let_def)
  qed
  show ?thesis
  proof (cases "sp_group sp")
    case None
    then have s: "?p = a" "sp_remaining sp = len" using st by (simp_all add: split_state_def)
    let ?g = "new_access tx r ?n ?p"
    have "\<exists>r'. map_address m (a + d) = Inr r' \<and> same_resource r r'" if "d < ?n" for d
    proof -
      have "unat d < unat (next_mapping_boundary m a)" "unat d < unat len"
        using that b(2,4) s by (simp_all add: word_less_nat_alt word_le_nat_alt)
      with map_address_constant [OF lay, of d a] range r s show ?thesis by simp
    qed
    then have g: "group_ok cfg m tx a ?g"
      using b(1,3) group r s by (auto simp: group_ok_def unat_gt_0)
    have "unat ?n + unat (sp_remaining sp - ?n) = unat len"
      using b(2) less by (simp add: word_le_nat_alt flip: s(2))
    then obtain sp' where "split_round cfg m tx sp = Inr (Inr sp')" "split_state cfg m tx a len sp'"
        "sp_group sp' \<noteq> None" "unat (sp_remaining sp') < unat (sp_remaining sp)"
      using grow [OF g] s(1) None burst inter r unfolding split_round_def by (auto simp: Let_def)
    then show ?thesis by blast
  next
    case (Some g)
    then have g: "group_ok cfg m tx a g" and sz: "unat (la_size_bytes g) + unat (sp_remaining sp) = unat len"
      and at: "?p = a + la_size_bytes g"
      using st rem by (simp_all add: split_state_def)
    let ?ext = "la_size_bytes g + ?n \<le> max_group_bytes cfg \<and> same_resource (la_address g) r \<and>
      (a_column r = a_column (sp_previous sp) \<or> a_column r = a_column (sp_previous sp) + 1)"
    show ?thesis
    proof (cases ?ext)
      case False
      have "split_round cfg m tx sp = Inr (Inl g)"
        using False Some burst inter r unfolding split_round_def by (simp add: Let_def)
      with g sz show ?thesis by simp
    next
      case True
      let ?g = "g\<lparr>la_size_bytes := la_size_bytes g + ?n\<rparr>"
      have nle: "unat ?n \<le> unat (sp_remaining sp)" using b(2) by (simp add: word_le_nat_alt)
      then have small: "unat (la_size_bytes g) + unat ?n < 2 ^ 64"
        using sz unat_u64_lt [of len] by linarith
      then have un: "unat (la_size_bytes g + ?n) = unat (la_size_bytes g) + unat ?n" by (rule unat_add_u64_small)
      have g': "group_ok cfg m tx a ?g"
        using True b(4) nle sz range r at by (intro group_grows [OF g lay at r _ _ _ small]) auto
      have pu: "unat ?p = unat a + unat (la_size_bytes g)"
        unfolding at using range sz b(1) nle by (intro unat_add_u64_small) linarith
      have "unat (la_size_bytes ?g) + unat (sp_remaining sp - ?n) = unat len"
        using sz nle by (simp add: less un)
      moreover have "?p + ?n = a + la_size_bytes ?g" by (simp add: at)
      moreover have "unat ?p + unat ?n = unat a + unat (la_size_bytes ?g)" by (simp add: pu un)
      ultimately obtain sp' where "split_round cfg m tx sp = Inr (Inr sp')" "split_state cfg m tx a len sp'"
        "sp_group sp' \<noteq> None" "unat (sp_remaining sp') < unat (sp_remaining sp)"
        using grow [OF g'] Some True burst inter r unfolding split_round_def by (auto simp: Let_def)
      then show ?thesis by blast
    qed
  qed
qed

text \<open>The loop ends, with a group, and consumes at least one byte of the rest.\<close>

lemma split_loop_ends:
  assumes ok: "split_config_ok cfg m" and range: "unat a + unat len \<le> 2 ^ 64"
  shows "split_state cfg m tx a len sp \<Longrightarrow> \<exists>g. split_loop cfg m tx sp = Some (Inr g) \<and>
    group_ok cfg m tx a g \<and> unat (la_size_bytes g) \<le> unat len"
proof (induction "unat (sp_remaining sp)" arbitrary: sp rule: less_induct)
  case less
  show ?case
  proof (cases "sp_remaining sp = 0")
    case True
    with less.prems obtain g where "sp_group sp = Some g" "group_ok cfg m tx a g"
      "unat (la_size_bytes g) = unat len"
      by (auto simp: split_state_def split: option.splits)
    with True show ?thesis by (simp add: split_loop.simps)
  next
    case False
    from split_round_steps [OF ok less.prems False range] show ?thesis
    proof (elim disjE exE conjE)
      fix g
      assume "split_round cfg m tx sp = Inr (Inl g)" "group_ok cfg m tx a g" "unat (la_size_bytes g) \<le> unat len"
      with False show ?thesis by (simp add: split_loop.simps [of _ _ _ sp])
    next
      fix sp'
      assume r: "split_round cfg m tx sp = Inr (Inr sp')" and "split_state cfg m tx a len sp'"
        and "unat (sp_remaining sp') < unat (sp_remaining sp)"
      from less.hyps [OF this(3,2)] r False show ?thesis by (simp add: split_loop.simps [of _ _ _ sp])
    qed
  qed
qed

lemma next_access_ends:
  assumes ok: "split_config_ok (sys_config s) (sys_mapper s)" and off: "offset < tx_size_bytes tx"
    and range: "unat (tx_address tx) + unat (tx_size_bytes tx) \<le> 2 ^ 64"
  shows "\<exists>g. next_access s tx offset = Inr g \<and>
    group_ok (sys_config s) (sys_mapper s) tx (tx_address tx + offset) g \<and>
    unat offset + unat (la_size_bytes g) \<le> unat (tx_size_bytes tx)"
proof -
  let ?len = "tx_size_bytes tx - offset" and ?a = "tx_address tx + offset"
  have o: "unat offset < unat (tx_size_bytes tx)" using off by (simp add: word_less_nat_alt)
  have len: "unat ?len = unat (tx_size_bytes tx) - unat offset"
    using off by (intro unat_sub) (simp add: word_le_nat_alt word_less_nat_alt)
  have a: "unat ?a = unat (tx_address tx) + unat offset"
    using o range by (intro unat_add_u64_small) linarith
  have "?len \<noteq> 0" using o len by (metis unat_0 zero_less_diff less_irrefl)
  then have "split_state (sys_config s) (sys_mapper s) tx ?a ?len
      \<lparr>sp_group = None, sp_previous = zero_address, sp_address = ?a, sp_remaining = ?len\<rparr>"
    by (simp add: split_state_def)
  moreover have "unat ?a + unat ?len \<le> 2 ^ 64" using a len o range by linarith
  ultimately obtain g where "split_loop (sys_config s) (sys_mapper s) tx
      \<lparr>sp_group = None, sp_previous = zero_address, sp_address = ?a, sp_remaining = ?len\<rparr> = Some (Inr g)"
    "group_ok (sys_config s) (sys_mapper s) tx ?a g" "unat (la_size_bytes g) \<le> unat ?len"
    using split_loop_ends [OF ok] by blast
  with len o show ?thesis by (simp add: next_access_def)
qed

section \<open>The accesses of a transaction\<close>

text \<open>The accesses that admission makes of a transaction, one after the other.\<close>

inductive splits :: "'z system \<Rightarrow> hbm_transaction \<Rightarrow> u64 \<Rightarrow> hbm_access list \<Rightarrow> bool"
  for s :: "'z system" and tx :: hbm_transaction
where
  splits_end: "splits s tx (tx_size_bytes tx) []"
| splits_next: "offset < tx_size_bytes tx \<Longrightarrow> next_access s tx offset = Inr g \<Longrightarrow>
    splits s tx (offset + la_size_bytes g) gs \<Longrightarrow> splits s tx offset (g # gs)"

definition bytes_of :: "hbm_access \<Rightarrow> nat list" where
  "bytes_of g = [unat (la_byte_address g)..<unat (la_byte_address g) + unat (la_size_bytes g)]"

lemma group_ok_start:
  assumes "group_ok cfg m tx a g"
  shows "la_byte_address g = a" "la_parent_id g = tx_id tx" "la_op g = tx_op tx"
proof -
  have g: "new_access tx (la_address g) (la_size_bytes g) a = g" using assms by (simp add: group_ok_def)
  from arg_cong [OF g, of la_byte_address] arg_cong [OF g, of la_parent_id] arg_cong [OF g, of la_op]
  show "la_byte_address g = a" "la_parent_id g = tx_id tx" "la_op g = tx_op tx" by simp_all
qed

lemma splits_partition:
  assumes ok: "split_config_ok (sys_config s) (sys_mapper s)"
    and range: "unat (tx_address tx) + unat (tx_size_bytes tx) \<le> 2 ^ 64"
  shows "offset \<le> tx_size_bytes tx \<Longrightarrow> \<exists>gs. splits s tx offset gs \<and> concat (map bytes_of gs) =
    [unat (tx_address tx) + unat offset..<unat (tx_address tx) + unat (tx_size_bytes tx)]"
proof (induction "unat (tx_size_bytes tx) - unat offset" arbitrary: offset rule: less_induct)
  case less
  show ?case
  proof (cases "offset = tx_size_bytes tx")
    case True
    have "splits s tx offset []" unfolding True by (rule splits_end)
    with True show ?thesis by (intro exI [of _ "[]"]) simp
  next
    case False
    with less.prems have lt: "offset < tx_size_bytes tx" by simp
    obtain g where g: "next_access s tx offset = Inr g"
      and grp: "group_ok (sys_config s) (sys_mapper s) tx (tx_address tx + offset) g"
      and fit: "unat offset + unat (la_size_bytes g) \<le> unat (tx_size_bytes tx)"
      using next_access_ends [OF ok lt range] by blast
    have n: "0 < unat (la_size_bytes g)" using grp by (simp add: group_ok_def unat_gt_0)
    have "la_byte_address g = tx_address tx + offset" by (rule group_ok_start [OF grp])
    moreover have "unat (tx_address tx + offset) = unat (tx_address tx) + unat offset"
      using fit n range by (intro unat_add_u64_small) linarith
    moreover have next_at: "unat (offset + la_size_bytes g) = unat offset + unat (la_size_bytes g)"
      using fit unat_u64_lt [of "tx_size_bytes tx"] by (intro unat_add_u64_small) linarith
    moreover obtain gs where gs: "splits s tx (offset + la_size_bytes g) gs" "concat (map bytes_of gs) =
        [unat (tx_address tx) + unat (offset + la_size_bytes g)..<unat (tx_address tx) + unat (tx_size_bytes tx)]"
    proof -
      have "unat (tx_size_bytes tx) - unat (offset + la_size_bytes g) < unat (tx_size_bytes tx) - unat offset"
        using next_at fit n by linarith
      moreover have "offset + la_size_bytes g \<le> tx_size_bytes tx" using next_at fit by (simp add: word_le_nat_alt)
      ultimately show thesis using less.hyps [of "offset + la_size_bytes g"] that by blast
    qed
    moreover have "splits s tx offset (g # gs)" by (rule splits_next [OF lt g gs(1)])
    ultimately show ?thesis
      using fit upt_add_eq_append [of "unat (tx_address tx) + unat offset"
          "unat (tx_address tx) + unat offset + unat (la_size_bytes g)"
          "unat (tx_size_bytes tx) - unat offset - unat (la_size_bytes g)"]
      by (intro exI [of _ "g # gs"]) (simp add: bytes_of_def ac_simps)
  qed
qed

text \<open>There is one way to split.\<close>

lemma splits_unique: "splits s tx offset gs \<Longrightarrow> splits s tx offset hs \<Longrightarrow> gs = hs"
proof (induction arbitrary: hs rule: splits.induct)
  case splits_end
  then show ?case by (cases rule: splits.cases) simp_all
next
  case (splits_next offset g gs)
  from splits_next.prems splits_next.hyps(1,2) obtain hs' where "hs = g # hs'"
    "splits s tx (offset + la_size_bytes g) hs'"
    by (cases rule: splits.cases) simp_all
  with splits_next.IH show ?case by simp
qed

end
