(* ===== verification/System_Work.thy ===== *)
theory System_Work
  imports System_Split Controller_Drive
begin

text \<open>
  The accounting of the work in a system: which accesses of which transactions are queued in the
  controllers or in flight to their completion, and how that agrees with the counts the
  controllers and the transactions keep.
\<close>

section \<open>Errors of simulated time\<close>

text \<open>
  \<open>timely P m\<close>: the step \<open>m\<close> returns a value with \<open>P\<close>, or simulated time has
  left the 64-bit range, which shows as an overflow or as an event in the past.
\<close>

definition timely :: "('a \<Rightarrow> bool) \<Rightarrow> 'a result \<Rightarrow> bool" where
  "timely P m \<longleftrightarrow> (case m of
     Inl e \<Rightarrow> (\<exists>t. e = OverflowError t) \<or> e = InvalidArgument ''cannot schedule an event in the past''
   | Inr a \<Rightarrow> P a)"

lemma timely_Inr [simp]: "timely P (Inr a) = P a"
  by (simp add: timely_def)

lemma timely_Inl: "timely P (Inl e) \<longleftrightarrow>
    (\<exists>t. e = OverflowError t) \<or> e = InvalidArgument ''cannot schedule an event in the past''"
  by (simp add: timely_def)

lemma timely_mono: "timely P m \<Longrightarrow> (\<And>a. m = Inr a \<Longrightarrow> P a \<Longrightarrow> Q a) \<Longrightarrow> timely Q m"
  by (cases m) (auto simp: timely_Inl)

lemma timely_bindI:
  "timely P m \<Longrightarrow> (\<And>a. m = Inr a \<Longrightarrow> P a \<Longrightarrow> timely Q (f a)) \<Longrightarrow> timely Q (ebind m f)"
  by (cases m) (auto simp: timely_Inl)

lemma timely_bind2:
  assumes "timely (\<lambda>(x, y). P x y) m" and "\<And>x y. m = Inr (x, y) \<Longrightarrow> P x y \<Longrightarrow> timely Q (f (x, y))"
  shows "timely Q (ebind m f)"
  using assms by (intro timely_bindI [OF assms(1)]) auto

lemma timely_bind3:
  assumes "timely (\<lambda>(x, y, z). P x y z) m"
    and "\<And>x y z. m = Inr (x, y, z) \<Longrightarrow> P x y z \<Longrightarrow> timely Q (f (x, y, z))"
  shows "timely Q (ebind m f)"
  using assms by (intro timely_bindI [OF assms(1)]) auto

lemma timely_delivers: "delivers P m \<Longrightarrow> timely P m"
  by (cases m) (auto simp: timely_Inl)

lemma timelyD: "timely P m \<Longrightarrow> m = Inr a \<Longrightarrow> P a"
  by simp

section \<open>Lists of transactions\<close>

type_synonym requests = "(transaction_id \<times> parent_request) list"

definition summed :: "('v \<Rightarrow> nat) \<Rightarrow> ('k \<times> 'v) list \<Rightarrow> nat" where
  "summed f ps = sum_list (map (\<lambda>x. f (snd x)) ps)"

lemma summed_simps [simp]: "summed f [] = 0" "summed f (x # ps) = f (snd x) + summed f ps"
  by (simp_all add: summed_def)

lemma update_absent: "map_of ps k = None \<Longrightarrow> AList.update k v ps = ps @ [(k, v)]"
  by (induction ps) (auto split: if_splits)

lemma summed_append [simp]: "summed f (ps @ qs) = summed f ps + summed f qs"
  by (simp add: summed_def)

lemma summed_update:
  "map_of ps k = Some r \<Longrightarrow> summed f (AList.update k v ps) + f r = summed f ps + f v"
  by (induction ps) (auto split: if_splits)

lemma summed_delete:
  "distinct (map fst ps) \<Longrightarrow> map_of ps k = Some r \<Longrightarrow> summed f (AList.delete k ps) + f r = summed f ps"
  by (induction ps) (auto split: if_splits)

lemma summed_ge: "map_of ps k = Some r \<Longrightarrow> f r \<le> summed f ps"
  by (induction ps) (auto split: if_splits)

lemma summed_mono: "(\<And>x. x \<in> set ps \<Longrightarrow> f (snd x) \<le> g (snd x)) \<Longrightarrow> summed f ps \<le> summed g ps"
  unfolding summed_def by (rule sum_list_mono)

lemma length_delete:
  "distinct (map fst ps) \<Longrightarrow> map_of ps k = Some r \<Longrightarrow> Suc (length (AList.delete k ps)) = length ps"
  using summed_delete [of ps k r "\<lambda>_. 1"] by (simp add: summed_def sum_list_triv)

lemma length_update: "map_of ps k = Some r \<Longrightarrow> length (AList.update k v ps) = length ps"
  using summed_update [of ps k r "\<lambda>_. 1" v] by (simp add: summed_def sum_list_triv)

lemma map_of_delete: "map_of (AList.delete k ps) p = (if p = k then None else map_of ps p)"
  by (simp add: AList.delete_conv')

lemma map_of_update: "map_of (AList.update k v ps) p = (if p = k then Some v else map_of ps p)"
  by (simp add: AList.update_conv')

section \<open>Work\<close>

text \<open>An item of work is an access of a transaction at a channel.\<close>

type_synonym work = "(nat \<times> transaction_id) multiset"

definition placed :: "nat \<Rightarrow> logical_access multiset \<Rightarrow> work" where
  "placed i A = image_mset (\<lambda>a. (i, la_parent_id a)) A"

lemma placed_simps [simp]:
  "placed i {#} = {#}" "placed i (A + B) = placed i A + placed i B"
  "placed i (add_mset a A) = add_mset (i, la_parent_id a) (placed i A)"
  by (simp_all add: placed_def)

definition queued :: "hbm_controller list \<Rightarrow> work" where
  "queued cs = (\<Sum>i<length cs. placed i (held (cs ! i)))"

lemma queued_update:
  assumes "i < length cs"
  shows "queued (cs[i := c]) + placed i (held (cs ! i)) = queued cs + placed i (held c)"
proof -
  have rest: "(\<Sum>j \<in> {..<length cs} - {i}. placed j (held (cs[i := c] ! j))) =
      (\<Sum>j \<in> {..<length cs} - {i}. placed j (held (cs ! j)))"
    by (rule sum.cong) auto
  have "queued cs = placed i (held (cs ! i)) + (\<Sum>j \<in> {..<length cs} - {i}. placed j (held (cs ! j)))"
    unfolding queued_def using assms by (intro sum.remove) auto
  moreover have "queued (cs[i := c]) = placed i (held c) +
      (\<Sum>j \<in> {..<length cs} - {i}. placed j (held (cs ! j)))"
    unfolding queued_def length_list_update rest [symmetric]
    using assms by (subst sum.remove [of _ i]) auto
  ultimately show ?thesis by simp
qed

lemma queued_served:
  assumes "i < length cs" and "held (cs ! i) + A = held c + S"
  shows "queued (cs[i := c]) + placed i S = queued cs + placed i A"
proof -
  have "queued (cs[i := c]) + placed i S + placed i (held (cs ! i)) =
      queued cs + placed i (held c + S)"
    using queued_update [OF assms(1), of c] by (simp add: ac_simps)
  also have "\<dots> = queued cs + placed i A + placed i (held (cs ! i))"
    using arg_cong [OF assms(2), of "placed i"] by (simp add: ac_simps)
  finally show ?thesis by simp
qed

definition event_work :: "system_event \<Rightarrow> work" where
  "event_work ev = (case ev of
     TransferDone p channel \<Rightarrow> placed (unat channel) (mset (map logical (pa_completions p)))
   | _ \<Rightarrow> {#})"

type_synonym system_entry = "event_key \<times> (event_token \<times> system_event) event"

definition flight :: "system_entry list \<Rightarrow> work" where
  "flight es = (\<Sum>x\<leftarrow>es. event_work (snd (ev_callback (snd x))))"

lemma flight_simps [simp]:
  "flight [] = {#}" "flight (x # es) = event_work (snd (ev_callback (snd x))) + flight es"
  by (simp_all add: flight_def)

lemma flight_emplace: "flight (map_emplace k v es) \<subseteq># event_work (snd (ev_callback v)) + flight es"
proof (induction k v es rule: map_emplace.induct)
  case (2 k v k' v' es)
  have "flight ((k', v') # map_emplace k v es) \<subseteq>#
      event_work (snd (ev_callback v)) + flight ((k', v') # es)"
    if "flight (map_emplace k v es) \<subseteq># event_work (snd (ev_callback v)) + flight es"
    using subset_mset.add_left_mono [OF that, of "event_work (snd (ev_callback v'))"]
    by (simp add: ac_simps)
  with 2 show ?case by auto
qed simp

section \<open>The counts agree with the work\<close>

definition out_at :: "hbm_controller list \<Rightarrow> nat \<Rightarrow> nat" where
  "out_at cs i = (if i < length cs then unat (outstanding_accesses (cs ! i)) else 0)"

definition open_of :: "requests \<Rightarrow> transaction_id \<Rightarrow> nat" where
  "open_of ps p = (case map_of ps p of None \<Rightarrow> 0 | Some r \<Rightarrow> unat (remaining_accesses r))"

definition total_out :: "hbm_controller list \<Rightarrow> nat" where
  "total_out cs = (\<Sum>c\<leftarrow>cs. unat (outstanding_accesses c))"

definition total_open :: "requests \<Rightarrow> nat" where
  "total_open = summed (\<lambda>r. unat (remaining_accesses r))"

abbreviation at_channel :: "nat \<Rightarrow> work \<Rightarrow> work" where
  "at_channel i \<equiv> filter_mset (\<lambda>w. fst w = i)"

abbreviation of_parent :: "transaction_id \<Rightarrow> work \<Rightarrow> work" where
  "of_parent p \<equiv> filter_mset (\<lambda>w. snd w = p)"

text \<open>
  Every item of work is counted by its controller and by its transaction, and the transactions
  count all that the controllers count.
\<close>

definition work_ok :: "work \<Rightarrow> hbm_controller list \<Rightarrow> requests \<Rightarrow> bool" where
  "work_ok W cs ps \<longleftrightarrow> (\<forall>i. size (at_channel i W) \<le> out_at cs i) \<and>
     (\<forall>p. size (of_parent p W) \<le> open_of ps p) \<and> total_out cs \<le> total_open ps"

lemma work_ok_mono: "work_ok W cs ps \<Longrightarrow> W' \<subseteq># W \<Longrightarrow> work_ok W' cs ps"
  unfolding work_ok_def by (meson le_trans multiset_filter_mono size_mset_mono)

lemma total_out_update:
  "i < length cs \<Longrightarrow> total_out (cs[i := c]) + unat (outstanding_accesses (cs ! i)) =
     total_out cs + unat (outstanding_accesses c)"
proof (induction cs arbitrary: i)
  case (Cons d cs)
  then show ?case by (cases i) (auto simp: total_out_def)
qed simp

lemma out_at_update: "i < length cs \<Longrightarrow>
    out_at (cs[i := c]) j = (if j = i then unat (outstanding_accesses c) else out_at cs j)"
  by (simp add: out_at_def)

lemma open_of_update: "open_of (AList.update p r ps) q = (if q = p then unat (remaining_accesses r) else open_of ps q)"
  by (simp add: open_of_def map_of_update)

lemma work_ok_controller:
  assumes "work_ok W cs ps" and "i < length cs" and "outstanding_accesses c = outstanding_accesses (cs ! i)"
  shows "work_ok W (cs[i := c]) ps"
proof -
  have "out_at (cs[i := c]) j = out_at cs j" for j
    using assms(2,3) by (simp add: out_at_def nth_list_update)
  then show ?thesis using assms total_out_update [OF assms(2), of c] by (simp add: work_ok_def)
qed

lemma work_ok_admit:
  assumes w: "work_ok W cs ps" and i: "i < length cs" and p: "map_of ps p = Some r"
    and o: "unat (outstanding_accesses c) = Suc (unat (outstanding_accesses (cs ! i)))"
    and m: "unat (remaining_accesses r') = Suc (unat (remaining_accesses r))"
  shows "work_ok (add_mset (i, p) W) (cs[i := c]) (AList.update p r' ps)"
proof -
  have "size (of_parent p W) \<le> unat (remaining_accesses r)" "size (at_channel i W) \<le> unat (outstanding_accesses (cs ! i))"
    using w p i unfolding work_ok_def by (auto simp: open_of_def out_at_def dest: spec [of _ p] spec [of _ i])
  with w o m show ?thesis
    using total_out_update [OF i, of c] summed_update [OF p, of "\<lambda>r. unat (remaining_accesses r)" r']
    unfolding work_ok_def by (auto simp: out_at_update [OF i] open_of_update total_open_def)
qed

lemma work_ok_present:
  assumes "work_ok (add_mset (i, p) W) cs ps"
  obtains r where "i < length cs" "outstanding_accesses (cs ! i) \<noteq> 0" "map_of ps p = Some r"
    "remaining_accesses r \<noteq> 0"
proof -
  have "Suc (size (at_channel i W)) \<le> out_at cs i" "Suc (size (of_parent p W)) \<le> open_of ps p"
    using assms unfolding work_ok_def by (auto dest: spec [of _ i] spec [of _ p])
  then show ?thesis
    by (intro that [of "the (map_of ps p)"]) (auto simp: out_at_def open_of_def split: if_splits option.splits)
qed

lemma work_ok_finish:
  assumes w: "work_ok (add_mset (i, p) W) cs ps" and p: "map_of ps p = Some r"
    and o: "outstanding_accesses c = outstanding_accesses (cs ! i) - 1"
    and m: "remaining_accesses r' = remaining_accesses r - 1"
  shows "work_ok W (cs[i := c]) (AList.update p r' ps)"
proof -
  obtain i: "i < length cs" and oo: "outstanding_accesses (cs ! i) \<noteq> 0" and mm: "remaining_accesses r \<noteq> 0"
    using work_ok_present [OF w] p by (metis option.inject)
  have "unat (outstanding_accesses (cs ! i)) \<noteq> 0" "unat (remaining_accesses r) \<noteq> 0"
    using oo mm by (simp_all add: unat_eq_0)
  then have u: "Suc (unat (outstanding_accesses c)) = unat (outstanding_accesses (cs ! i))"
    "Suc (unat (remaining_accesses r')) = unat (remaining_accesses r)"
    using oo mm by (simp_all add: o m unat_minus_one)
  have "open_of ps p = unat (remaining_accesses r)" "out_at cs i = unat (outstanding_accesses (cs ! i))"
    using p i by (simp_all add: open_of_def out_at_def)
  with w u show ?thesis
    using total_out_update [OF i, of c] summed_update [OF p, of "\<lambda>r. unat (remaining_accesses r)" r']
    unfolding work_ok_def by (auto simp: out_at_update [OF i] open_of_update total_open_def split: if_splits)
qed

lemma work_ok_delete:
  assumes "work_ok W cs ps" and "distinct (map fst ps)" and p: "map_of ps p = Some r" and "remaining_accesses r = 0"
  shows "work_ok W cs (AList.delete p ps)"
proof -
  have "open_of (AList.delete p ps) q = open_of ps q" for q
    using assms(3,4) by (simp add: open_of_def map_of_delete)
  then show ?thesis
    using assms summed_delete [OF assms(2) p, of "\<lambda>r. unat (remaining_accesses r)"]
    by (simp add: work_ok_def total_open_def)
qed

lemma work_ok_insert:
  assumes "work_ok W cs ps" and p: "map_of ps p = None" and "remaining_accesses r = 0"
  shows "work_ok W cs (AList.update p r ps)"
proof -
  have "open_of (AList.update p r ps) q = open_of ps q" for q
    using p assms(3) by (simp add: open_of_def map_of_update)
  then show ?thesis
    using assms by (simp add: work_ok_def total_open_def update_absent [OF p])
qed

end
