(* ===== verification/System_Invariant.thy ===== *)
theory System_Invariant
  imports System_Work
begin

text \<open>
  The invariant of a system, and that the elementary steps keep it: a call of a method of a
  controller, the scheduling of an event, wake-ups and refresh events, and admissions.
\<close>

section \<open>The invariant\<close>

definition banks_each :: "address_mapper \<Rightarrow> u32" where
  "banks_each m = bank_count m div channel_count (m_topology m)"

text \<open>What the constructor establishes of the configuration and the mapper.\<close>

definition setup_ok :: "hbm_config \<Rightarrow> address_mapper \<Rightarrow> bool" where
  "setup_ok cfg m \<longleftrightarrow> split_config_ok cfg m \<and> config_validate cfg = Inr () \<and>
     m_topology m = topology (device_organization (device cfg))"

definition channel_ok :: "hbm_config \<Rightarrow> address_mapper \<Rightarrow> hbm_stats \<Rightarrow> nat \<Rightarrow> hbm_controller \<Rightarrow> bool" where
  "channel_ok cfg m st i c \<longleftrightarrow> config c = channel_config cfg (word_of_nat i) (banks_each m) \<and>
     mapper c = m \<and> controller_ok (c\<lparr>stats := st\<rparr>) \<and> capacity_ok c \<and>
     reserved_reads c = 0 \<and> reserved_writes c = 0"

definition channels_ok :: "hbm_config \<Rightarrow> address_mapper \<Rightarrow> hbm_stats \<Rightarrow> hbm_controller list \<Rightarrow> bool" where
  "channels_ok cfg m st cs \<longleftrightarrow> length cs = unat (channel_count (m_topology m)) \<and>
     (\<forall>i < length cs. channel_ok cfg m st i (cs ! i))"

definition request_ok :: "transaction_id \<Rightarrow> parent_request \<Rightarrow> bool" where
  "request_ok p r \<longleftrightarrow> (let tx = pr_transaction r in
     tx_id tx = p \<and> tx_size_bytes tx \<noteq> 0 \<and>
     unat (tx_address tx) + unat (tx_size_bytes tx) \<le> 2 ^ 64 \<and>
     admitted_bytes r \<le> tx_size_bytes tx \<and> remaining_accesses r \<le> admitted_bytes r \<and>
     (remaining_accesses r = 0 \<longrightarrow> admitted_bytes r \<noteq> tx_size_bytes tx))"

definition active_bytes :: "requests \<Rightarrow> nat" where
  "active_bytes = summed (\<lambda>r. unat (tx_size_bytes (pr_transaction r)))"

definition requests_ok :: "requests \<Rightarrow> bool" where
  "requests_ok ps \<longleftrightarrow> distinct (map fst ps) \<and> (\<forall>p r. map_of ps p = Some r \<longrightarrow> request_ok p r) \<and>
     active_bytes ps < 2 ^ 64"

text \<open>The transactions with bytes still to be admitted.\<close>

definition admitting :: "requests \<Rightarrow> transaction_id set" where
  "admitting ps = {p. \<exists>r. map_of ps p = Some r \<and> admitted_bytes r < tx_size_bytes (pr_transaction r)}"

fun event_channel :: "system_event \<Rightarrow> u32" where
  "event_channel (Wake channel t) = channel"
| "event_channel (RefreshDue channel t) = channel"
| "event_channel (TransferDone p channel) = channel"
| "event_channel (CapacityReady channel t) = channel"

definition events_ok :: "nat \<Rightarrow> system_entry list \<Rightarrow> bool" where
  "events_ok n es \<longleftrightarrow> (\<forall>x \<in> set es. unat (event_channel (snd (ev_callback (snd x)))) < n)"

text \<open>The channel of the last completion of a transaction; its capacity is announced at the end.\<close>

definition targets_ok :: "nat \<Rightarrow> requests \<Rightarrow> bool" where
  "targets_ok n ps \<longleftrightarrow> (\<forall>p r. map_of ps p = Some r \<longrightarrow> unat (completion_channel r) < n)"

definition counts_ok :: "'z system \<Rightarrow> bool" where
  "counts_ok s \<longleftrightarrow>
     submitted_transactions (sys_stats s) = completed_transactions (sys_stats s) + size_of (parents s) \<and>
     length (parents s) \<le> unat (max_active_transactions (controller (sys_config s))) \<and>
     (retain_completions (simulation (sys_config s)) \<longrightarrow>
       completed_transactions (sys_stats s) = size_of (completions s))"

text \<open>
  The invariant up to the list of pending admissions. \<open>X\<close> is the work whose completion is
  being announced.
\<close>

definition core_ok :: "work \<Rightarrow> 'z system \<Rightarrow> bool" where
  "core_ok X s \<longleftrightarrow> setup_ok (sys_config s) (sys_mapper s) \<and>
     channels_ok (sys_config s) (sys_mapper s) (sys_stats s) (controllers s) \<and>
     requests_ok (parents s) \<and> targets_ok (length (controllers s)) (parents s) \<and> events_ok (length (controllers s)) (events (sys_queue s)) \<and>
     work_ok (queued (controllers s) + flight (events (sys_queue s)) + X) (controllers s) (parents s) \<and>
     counts_ok s"

definition system_ok :: "work \<Rightarrow> 'z system \<Rightarrow> bool" where
  "system_ok X s \<longleftrightarrow> core_ok X s \<and> distinct (pending_admissions s) \<and>
     set (pending_admissions s) = admitting (parents s)"

text \<open>Steps that leave the transactions, the setting and the time alone.\<close>

definition quiet :: "'z system \<Rightarrow> 'z system \<Rightarrow> bool" where
  "quiet s s' \<longleftrightarrow> parents s' = parents s \<and> pending_admissions s' = pending_admissions s \<and>
     sys_config s' = sys_config s \<and> sys_mapper s' = sys_mapper s \<and> sys_now s' = sys_now s \<and>
     length (controllers s') = length (controllers s)"

lemma quiet_refl [simp]: "quiet s s"
  by (simp add: quiet_def)

lemma quiet_trans: "quiet a b \<Longrightarrow> quiet b c \<Longrightarrow> quiet a c"
  by (simp add: quiet_def)

lemma system_ok_quiet: "system_ok X s \<Longrightarrow> core_ok Y s' \<Longrightarrow> quiet s s' \<Longrightarrow> system_ok Y s'"
  by (simp add: system_ok_def quiet_def)

lemma system_ok_core: "system_ok X s \<Longrightarrow> core_ok X s"
  by (simp add: system_ok_def)

lemma core_ok_mono: "core_ok X s \<Longrightarrow> Y \<subseteq># X \<Longrightarrow> core_ok Y s"
  unfolding core_ok_def by (elim conjE, intro conjI; assumption?) (erule work_ok_mono, simp)

section \<open>Where an address belongs\<close>

lemma banks_each_times:
  assumes "topology_ok (m_topology m)"
  shows "unat (bank_count m) = unat (channel_count (m_topology m)) * unat (banks_each m)"
    and "unat (banks_each m) = unat (pseudo_channels_per_channel (m_topology m)) *
      (unat (bank_groups_per_pseudo_channel (m_topology m)) * unat (banks_per_bank_group (m_topology m)))"
proof -
  let ?n = "unat (pseudo_channels_per_channel (m_topology m)) *
    (unat (bank_groups_per_pseudo_channel (m_topology m)) * unat (banks_per_bank_group (m_topology m)))"
  have b: "unat (bank_count m) = unat (channel_count (m_topology m)) * ?n"
    by (simp add: unat_bank_count [OF assms] unat_channel_count [OF assms] ac_simps)
  have "0 < unat (channel_count (m_topology m))"
    using channel_count_nonzero [OF assms] by (simp add: unat_gt_0)
  then show n: "unat (banks_each m) = ?n" by (simp add: banks_each_def unat_div b)
  show "unat (bank_count m) = unat (channel_count (m_topology m)) * unat (banks_each m)"
    by (simp only: n b)
qed

lemma unat_channel_index:
  "i < unat (n :: u32) \<Longrightarrow> unat (word_of_nat i :: u32) = i"
  using unat_u32_lt [of n] by (simp add: unat_of_nat)

lemma first_bank:
  assumes "topology_ok (m_topology m)" and i: "i < unat (channel_count (m_topology m))"
  shows "unat ((word_of_nat i :: u32) * banks_each m) = i * unat (banks_each m)"
    and "i * unat (banks_each m) + unat (banks_each m) \<le> unat (bank_count m)"
proof -
  have "(i + 1) * unat (banks_each m) \<le> unat (channel_count (m_topology m)) * unat (banks_each m)"
    using i by (intro mult_le_mono1) simp
  then show le: "i * unat (banks_each m) + unat (banks_each m) \<le> unat (bank_count m)"
    by (simp add: banks_each_times(1) [OF assms(1)])
  then have "i * unat (banks_each m) < 2 ^ 32" using unat_u32_lt [of "bank_count m"] by linarith
  then show "unat ((word_of_nat i :: u32) * banks_each m) = i * unat (banks_each m)"
    by (simp add: unat_mult_u32_small unat_channel_index [OF i])
qed

lemma setup_okD:
  assumes "setup_ok cfg m"
  shows "split_config_ok cfg m" "mapper_ok m" "topology_ok (m_topology m)"
    "m_topology m = topology (device_organization (device cfg))" "config_validate cfg = Inr ()"
  using assms unfolding setup_ok_def split_config_ok_def layout_ok_def mapper_ok_def by blast+

lemma mapped_owner:
  assumes "setup_ok cfg m" and "map_address m a = Inr r"
  shows "unat (a_flat_channel r) < unat (channel_count (m_topology m))"
    and "owns (channel_config cfg (a_flat_channel r) (banks_each m)) r"
proof -
  let ?t = "m_topology m" and ?i = "unat (a_flat_channel r)"
  note m = setup_okD(2) [OF assms(1)] and t = setup_okD(3) [OF assms(1)]
  have wf: "wf_address ?t r" by (rule map_address_wf [OF m assms(2)])
  show i: "?i < unat (channel_count ?t)"
    using wf_address_bounds(1) [OF wf] by (simp add: unat_channel_count [OF t])
  let ?p = "unat (pseudo_channels_per_channel ?t)" and ?g = "unat (bank_groups_per_pseudo_channel ?t)"
    and ?b = "unat (banks_per_bank_group ?t)"
  have fb: "unat (a_flat_bank r) = ((?i * ?p + unat (a_pseudo_channel r)) * ?g + unat (a_bank_group r)) * ?b +
      unat (a_bank r)"
    and in_range: "unat (a_pseudo_channel r) < ?p" "unat (a_bank_group r) < ?g" "unat (a_bank r) < ?b"
    using wf by (simp_all add: wf_address_def)
  let ?local = "(unat (a_pseudo_channel r) * ?g + unat (a_bank_group r)) * ?b + unat (a_bank r)"
  have loc: "?local < unat (banks_each m)"
    using in_range unfolding banks_each_times(2) [OF t] mult.assoc [symmetric] by (intro radix_less)
  have "unat (a_flat_bank r) = ?i * unat (banks_each m) + ?local"
    unfolding fb banks_each_times(2) [OF t] by (simp add: algebra_simps)
  with loc first_bank(1) [OF t i] in_range(1) assms(1)
  show "owns (channel_config cfg (a_flat_channel r) (banks_each m)) r"
    by (simp add: owns_def channel_config_def Let_def setup_ok_def)
qed

section \<open>Calls of a controller\<close>

text \<open>
  What the methods the system calls do to a controller, admission and completion apart: \<open>S\<close>
  are the accesses handed over.
\<close>

definition evolves :: "hbm_controller \<Rightarrow> logical_access multiset \<Rightarrow> hbm_controller \<Rightarrow> bool" where
  "evolves c S c' \<longleftrightarrow> controller_ok c' \<and> (capacity_ok c \<longrightarrow> capacity_ok c') \<and> config c' = config c \<and>
     mapper c' = mapper c \<and> stats_shape (stats c') = stats_shape (stats c) \<and>
     outstanding_accesses c' = outstanding_accesses c \<and> reserved_reads c' = reserved_reads c \<and>
     reserved_writes c' = reserved_writes c \<and> held c = held c' + S"

lemma evolves_refreshed: "refreshed c c' \<Longrightarrow> evolves c {#} c'"
  using capacity_ok_confined [of c c'] held_cong [of c c']
  by (simp add: evolves_def refreshed_def confined_def)

lemma evolves_stepped: "stepped c s c' \<Longrightarrow> evolves c (served (issued_access s)) c'"
  using capacity_ok_confined [of c c'] by (simp add: evolves_def stepped_def confined_def)

lemma evolves_mark: "controller_ok c \<Longrightarrow> evolves c {#} (snd (mark_wakeup c when))"
  by (auto simp: mark_wakeup_def evolves_def controller_ok_def capacity_ok_def held_def split: option.splits)

lemma evolves_clear: "controller_ok c \<Longrightarrow> evolves c {#} (clear_wakeup c when)"
  by (auto simp: clear_wakeup_def evolves_def controller_ok_def capacity_ok_def held_def)

lemma evolves_claim: "controller_ok c \<Longrightarrow> evolves c {#} (snd (claim_refresh_event c))"
  by (auto simp: claim_refresh_event_def evolves_def controller_ok_def capacity_ok_def held_def split: option.splits)

lemma evolves_refresh_event: "controller_ok c \<Longrightarrow> delivers (evolves c {#}) (handle_refresh_event c t)"
  by (rule delivers_mono [OF handle_refresh_event_delivers]) (simp_all add: evolves_refreshed)

lemma evolves_drive:
  "controller_ok c \<Longrightarrow> delivers (\<lambda>(s, c'). evolves c (served (issued_access s)) c') (drive c t)"
  by (rule delivers_mono [OF drive_delivers]) (auto simp: evolves_stepped)

text \<open>The system after a call.\<close>

definition put_controller :: "'z system \<Rightarrow> nat \<Rightarrow> hbm_controller \<Rightarrow> 'z system" where
  "put_controller s i c = s\<lparr>controllers := (controllers s)[i := c], sys_stats := stats c\<rparr>"

lemma put_controller_simps [simp]:
  "controllers (put_controller s i c) = (controllers s)[i := c]" "sys_stats (put_controller s i c) = stats c"
  "parents (put_controller s i c) = parents s" "sys_config (put_controller s i c) = sys_config s"
  "sys_mapper (put_controller s i c) = sys_mapper s" "sys_queue (put_controller s i c) = sys_queue s"
  "pending_admissions (put_controller s i c) = pending_admissions s"
  "completions (put_controller s i c) = completions s" "sys_now (put_controller s i c) = sys_now s"
  by (simp_all add: put_controller_def sys_now_def)

lemma quiet_put [simp]: "quiet s (put_controller s i c)"
  by (simp add: quiet_def)

lemma with_controller_value:
  assumes "unat channel < length (controllers s)"
  shows "with_controller s channel f =
    ebind (f ((controllers s ! unat channel)\<lparr>stats := sys_stats s\<rparr>))
      (\<lambda>(x, c'). Inr (x, put_controller s (unat channel) c'))"
  using assms by (simp add: with_controller_def put_controller_def)

lemma do_controller_value:
  assumes "unat channel < length (controllers s)"
  shows "do_controller s channel f =
    ebind (f ((controllers s ! unat channel)\<lparr>stats := sys_stats s\<rparr>))
      (\<lambda>c'. Inr (put_controller s (unat channel) c'))"
  by (simp add: do_controller_def with_controller_value [OF assms] ebind_assoc)

lemma channels_ok_put:
  assumes cs: "channels_ok cfg m st cs" and i: "i < length cs"
    and sh: "fst (stats_shape (stats c)) = fst (stats_shape st)" and c: "controller_ok c" "capacity_ok c"
    "config c = config (cs ! i)" "mapper c = mapper (cs ! i)" "reserved_reads c = 0" "reserved_writes c = 0"
  shows "channels_ok cfg m (stats c) (cs[i := c])"
proof -
  have all: "channel_ok cfg m st j (cs ! j)" if "j < length cs" for j
    using cs that by (simp add: channels_ok_def)
  have "channel_ok cfg m (stats c) j (cs[i := c] ! j)" if j: "j < length cs" for j
  proof (cases "j = i")
    case True
    with c all [OF j] j show ?thesis by (simp add: channel_ok_def)
  next
    case False
    with all [OF j] controller_ok_shared [of "stats c" "(cs ! j)\<lparr>stats := st\<rparr>"] sh show ?thesis
      by (simp add: channel_ok_def)
  qed
  with cs show ?thesis by (simp add: channels_ok_def)
qed

lemma core_ok_channel:
  assumes "core_ok X s" and "i < length (controllers s)"
  defines "c \<equiv> (controllers s ! i)\<lparr>stats := sys_stats s\<rparr>"
  shows "controller_ok c" "capacity_ok c" "mapper c = sys_mapper s" "reserved_reads c = 0" "reserved_writes c = 0"
    "config c = channel_config (sys_config s) (word_of_nat i) (banks_each (sys_mapper s))"
  using assms by (auto simp: core_ok_def channels_ok_def channel_ok_def capacity_ok_def)

lemma core_ok_put:
  assumes ok: "core_ok X s" and i: "i < length (controllers s)"
    and e: "evolves ((controllers s ! i)\<lparr>stats := sys_stats s\<rparr>) S c'"
  shows "core_ok (X + placed i S) (put_controller s i c')"
proof -
  let ?c = "controllers s ! i"
  have c': "controller_ok c'" "capacity_ok c'" "config c' = config ?c" "mapper c' = mapper ?c"
    "stats_shape (stats c') = stats_shape (sys_stats s)" "outstanding_accesses c' = outstanding_accesses ?c"
    "reserved_reads c' = 0" "reserved_writes c' = 0" and held: "held ?c = held c' + S"
    using e core_ok_channel(2,4,5) [OF ok i] by (simp_all add: evolves_def held_def)
  have "channels_ok (sys_config s) (sys_mapper s) (stats c') ((controllers s)[i := c'])"
    using ok c' by (intro channels_ok_put [OF _ i]) (simp_all add: core_ok_def)
  moreover have "queued ((controllers s)[i := c']) + placed i S = queued (controllers s)"
    using queued_served [OF i, of "{#}" c' S] held by simp
  then have eq: "queued ((controllers s)[i := c']) + flight (events (sys_queue s)) + (X + placed i S) =
      queued (controllers s) + flight (events (sys_queue s)) + X"
    by (simp add: ac_simps)
  moreover have "work_ok (queued (controllers s) + flight (events (sys_queue s)) + X)
      ((controllers s)[i := c']) (parents s)"
    using ok by (intro work_ok_controller [OF _ i c'(6)]) (simp add: core_ok_def)
  moreover have "counts_ok (put_controller s i c')"
    using ok c'(5) by (simp add: core_ok_def counts_ok_def stats_shape_def)
  ultimately show ?thesis
    using ok by (simp add: core_ok_def eq)
qed

lemma with_controller_timely:
  assumes ok: "core_ok X s" and i: "unat channel < length (controllers s)"
    and f: "timely (\<lambda>(x, c'). evolves ((controllers s ! unat channel)\<lparr>stats := sys_stats s\<rparr>) (S x) c')
      (f ((controllers s ! unat channel)\<lparr>stats := sys_stats s\<rparr>))"
  shows "timely (\<lambda>(x, s'). core_ok (X + placed (unat channel) (S x)) s' \<and> quiet s s') (with_controller s channel f)"
  unfolding with_controller_value [OF i]
  by (rule timely_bindI [OF f]) (auto simp: core_ok_put [OF ok i])

lemma do_controller_timely:
  assumes ok: "core_ok X s" and i: "unat channel < length (controllers s)"
    and f: "timely (evolves ((controllers s ! unat channel)\<lparr>stats := sys_stats s\<rparr>) {#})
      (f ((controllers s ! unat channel)\<lparr>stats := sys_stats s\<rparr>))"
  shows "timely (\<lambda>s'. core_ok X s' \<and> quiet s s') (do_controller s channel f)"
  unfolding do_controller_value [OF i]
  by (rule timely_bindI [OF f]) (use core_ok_put [OF ok i] in fastforce)

section \<open>Events, wake-ups and refreshes\<close>

lemma set_emplace_subset: "set (map_emplace k v es) \<subseteq> insert (k, v) (set es)"
  by (induction k v es rule: map_emplace.induct) auto

lemma schedule_event_timely:
  assumes ok: "core_ok (X + event_work ev) s" and ch: "unat (event_channel ev) < length (controllers s)"
  shows "timely (\<lambda>s'. core_ok X s' \<and> quiet s s') (schedule_event s when ev)"
proof (cases "when < eq_now (sys_queue s)")
  case True
  then show ?thesis by (simp add: schedule_event_def schedule_at_def timely_Inl)
next
  case False
  let ?q = "sys_queue s"
  let ?e = "\<lparr>ev_time = when, ev_sequence = next_sequence ?q, ev_token = next_token ?q,
    ev_callback = (next_token ?q, ev)\<rparr>" and ?k = "(when, next_sequence ?q)"
  let ?es = "map_emplace ?k ?e (events ?q)"
  have "events_ok (length (controllers s)) ?es"
    using ok ch set_emplace_subset [of ?k ?e "events ?q"] by (auto simp: events_ok_def core_ok_def)
  moreover have "queued (controllers s) + flight ?es + X \<subseteq>#
      queued (controllers s) + flight (events ?q) + (X + event_work ev)"
    using flight_emplace [of ?k ?e "events ?q"] by (simp add: ac_simps)
  ultimately show ?thesis
    using ok False
    by (auto simp: schedule_event_def schedule_at_def Let_def core_ok_def counts_ok_def quiet_def sys_now_def
        elim: work_ok_mono)
qed

lemma schedule_quiet_event:
  assumes "core_ok X s" and "unat (event_channel ev) < length (controllers s)" and "event_work ev = {#}"
  shows "timely (\<lambda>s'. core_ok X s' \<and> quiet s s') (schedule_event s t ev)"
  using schedule_event_timely [of X ev s t] assms by simp

lemma event_work_simps [simp]:
  "event_work (Wake channel t) = {#}" "event_work (RefreshDue channel t) = {#}"
  "event_work (CapacityReady channel t) = {#}"
  "event_work (TransferDone p channel) = placed (unat channel) (served (Some p))"
  by (simp_all add: event_work_def)

lemma schedule_controller_wake_timely:
  assumes ok: "core_ok X s" and i: "unat channel < length (controllers s)"
  shows "timely (\<lambda>s'. core_ok X s' \<and> quiet s s') (schedule_controller_wake s channel when)"
proof -
  let ?w = "max when (sys_now s)"
  have "timely (\<lambda>(x, s'). core_ok (X + placed (unat channel) {#}) s' \<and> quiet s s')
      (with_controller s channel (\<lambda>c. Inr (mark_wakeup c ?w)))"
    using evolves_mark [OF core_ok_channel(1) [OF ok i], of ?w]
    by (intro with_controller_timely [OF ok i]) (simp add: case_prod_unfold)
  then show ?thesis
    unfolding schedule_controller_wake_def Let_def
  proof (rule timely_bind2)
    fix marked s1 assume s1: "core_ok (X + placed (unat channel) {#}) s1 \<and> quiet s s1"
    then have "unat channel < length (controllers s1)" using i by (simp add: quiet_def)
    then have "timely (\<lambda>s'. core_ok X s' \<and> quiet s1 s') (schedule_event s1 ?w (Wake channel ?w))"
      using s1 by (intro schedule_quiet_event) simp_all
    then have "timely (\<lambda>s'. core_ok X s' \<and> quiet s s') (schedule_event s1 ?w (Wake channel ?w))"
      by (rule timely_mono) (use s1 quiet_trans [of s s1] in blast)
    with s1 show "timely (\<lambda>s'. core_ok X s' \<and> quiet s s') (case (marked, s1) of (marked, s') \<Rightarrow>
        if \<not> marked then Inr s' else schedule_event s' ?w (Wake channel ?w))"
      by simp
  qed
qed

lemma schedule_refresh_due_timely:
  assumes ok: "core_ok X s" and i: "unat channel < length (controllers s)"
  shows "timely (\<lambda>s'. core_ok X s' \<and> quiet s s') (schedule_refresh_due s channel)"
proof -
  have "timely (\<lambda>(x, s'). core_ok (X + placed (unat channel) {#}) s' \<and> quiet s s')
      (with_controller s channel (\<lambda>c. Inr (claim_refresh_event c)))"
    using evolves_claim [OF core_ok_channel(1) [OF ok i]]
    by (intro with_controller_timely [OF ok i]) (simp add: case_prod_unfold)
  then show ?thesis
    unfolding schedule_refresh_due_def
  proof (rule timely_bind2)
    fix due s1 assume s1: "core_ok (X + placed (unat channel) {#}) s1 \<and> quiet s s1"
    then have "unat channel < length (controllers s1)" using i by (simp add: quiet_def)
    then have "timely (\<lambda>s'. core_ok X s' \<and> quiet s1 s') (schedule_event s1 t (RefreshDue channel t))" for t
      using s1 by (intro schedule_quiet_event) simp_all
    then have "timely (\<lambda>s'. core_ok X s' \<and> quiet s s') (schedule_event s1 t (RefreshDue channel t))" for t
      by (rule timely_mono) (use s1 quiet_trans [of s s1] in blast)
    with s1 show "timely (\<lambda>s'. core_ok X s' \<and> quiet s s') (case (due, s1) of (due, s') \<Rightarrow>
        (case due of None \<Rightarrow> Inr s' | Some t \<Rightarrow> schedule_event s' t (RefreshDue channel t)))"
      by (simp split: option.split)
  qed
qed

end
