(* ===== verification/System_Admission.thy ===== *)
theory System_Admission
  imports System_Invariant
begin

text \<open>
  Admission keeps the invariant and ends: \<^verbatim>\<open>pump_admissions\<close> takes from every pending
  transaction the accesses its channels have room for, and leaves pending exactly the transactions
  with bytes still to be admitted.
\<close>

section \<open>One access\<close>

text \<open>Time stays a refresh interval below the end of the 64-bit range.\<close>

definition time_left :: "'z system \<Rightarrow> bool" where
  "time_left s \<longleftrightarrow> unat (sys_now s) + unat (refresh_interval (controller (sys_config s))) < 2 ^ 64"

text \<open>What admission to the transactions in \<open>T\<close> changes.\<close>

definition advances :: "transaction_id set \<Rightarrow> 'z system \<Rightarrow> 'z system \<Rightarrow> bool" where
  "advances T s s' \<longleftrightarrow> sys_config s' = sys_config s \<and> sys_mapper s' = sys_mapper s \<and>
     sys_now s' = sys_now s \<and> length (controllers s') = length (controllers s) \<and>
     pending_admissions s' = pending_admissions s \<and>
     (\<forall>p. map_option pr_transaction (map_of (parents s') p) = map_option pr_transaction (map_of (parents s) p)) \<and>
     (\<forall>p. p \<notin> T \<longrightarrow> map_of (parents s') p = map_of (parents s) p)"

lemma advances_refl [simp]: "advances T s s"
  by (simp add: advances_def)

lemma advances_trans: "advances T a b \<Longrightarrow> advances U b c \<Longrightarrow> advances (T \<union> U) a c"
  by (simp add: advances_def)

lemma advances_mono: "advances T a b \<Longrightarrow> T \<subseteq> U \<Longrightarrow> advances U a b"
  by (auto simp: advances_def)

lemma advances_time: "advances T s s' \<Longrightarrow> time_left s' = time_left s"
  by (simp add: advances_def time_left_def)

lemma advances_known: "advances T s s' \<Longrightarrow> map_of (parents s') p = None \<longleftrightarrow> map_of (parents s) p = None"
  by (metis advances_def map_option_is_None)

lemma core_ok_request: "core_ok X s \<Longrightarrow> map_of (parents s) p = Some r \<Longrightarrow> request_ok p r"
  by (simp add: core_ok_def requests_ok_def)

lemma request_okD:
  assumes "request_ok p r"
  shows "tx_id (pr_transaction r) = p" "tx_size_bytes (pr_transaction r) \<noteq> 0"
    "unat (tx_address (pr_transaction r)) + unat (tx_size_bytes (pr_transaction r)) \<le> 2 ^ 64"
    "unat (admitted_bytes r) \<le> unat (tx_size_bytes (pr_transaction r))"
    "unat (remaining_accesses r) \<le> unat (admitted_bytes r)"
  using assms by (simp_all add: request_ok_def Let_def word_le_nat_alt)

text \<open>No count reaches the end of its range: each access stands for a byte of its transaction.\<close>

lemma outstanding_bound:
  assumes ok: "core_ok X s" and i: "i < length (controllers s)"
    and r: "map_of (parents s) p = Some r" and more: "admitted_bytes r < tx_size_bytes (pr_transaction r)"
  shows "unat (outstanding_accesses (controllers s ! i)) + 1 < 2 ^ 64"
proof -
  let ?rem = "\<lambda>r. unat (remaining_accesses r)" and ?size = "\<lambda>r. unat (tx_size_bytes (pr_transaction r))"
  have dist: "distinct (map fst (parents s))" and total: "summed ?size (parents s) < 2 ^ 64"
    and work: "total_out (controllers s) \<le> summed ?rem (parents s)"
    using ok by (simp_all add: core_ok_def requests_ok_def active_bytes_def work_ok_def total_open_def)
  have le: "?rem (snd x) \<le> ?size (snd x)" if "x \<in> set (AList.delete p (parents s))" for x
  proof -
    have "x \<in> set (parents s)" using that by (auto simp: AList.delete_eq)
    then have "map_of (parents s) (fst x) = Some (snd x)"
      using dist by (simp add: map_of_eq_Some_iff)
    from request_okD(4,5) [OF core_ok_request [OF ok this]] show ?thesis by linarith
  qed
  have "unat (outstanding_accesses (controllers s ! i)) \<le> total_out (controllers s)"
    unfolding total_out_def by (rule member_le_sum_list) (simp_all add: i)
  also have "\<dots> \<le> summed ?rem (AList.delete p (parents s)) + ?rem r"
    using work summed_delete [OF dist r, of ?rem] by simp
  also have "\<dots> \<le> summed ?size (AList.delete p (parents s)) + ?rem r"
    using summed_mono [where f = ?rem and g = ?size, OF le] by simp
  also have "\<dots> < summed ?size (AList.delete p (parents s)) + ?size r"
    using request_okD(5) [OF core_ok_request [OF ok r]] more by (simp add: word_less_nat_alt)
  also have "\<dots> = summed ?size (parents s)" by (rule summed_delete [OF dist r])
  finally show ?thesis using total by linarith
qed

text \<open>The transaction after an access of it was admitted.\<close>

lemma request_ok_grows:
  assumes r: "request_ok p r" and n: "n \<noteq> 0"
    and fit: "unat (admitted_bytes r) + unat n \<le> unat (tx_size_bytes (pr_transaction r))"
  defines "r' \<equiv> r\<lparr>admitted_bytes := admitted_bytes r + n, remaining_accesses := remaining_accesses r + 1\<rparr>"
  shows "request_ok p r'" and "unat (remaining_accesses r') = Suc (unat (remaining_accesses r))"
    and "unat (admitted_bytes r') = unat (admitted_bytes r) + unat n"
proof -
  have n0: "0 < unat n" using n by (simp add: unat_gt_0)
  have adm: "unat (admitted_bytes r + n) = unat (admitted_bytes r) + unat n"
    using fit unat_u64_lt [of "tx_size_bytes (pr_transaction r)"] by (intro unat_add_u64_small) linarith
  have rem: "unat (remaining_accesses r + 1) = Suc (unat (remaining_accesses r))"
    using request_okD(5) [OF r] fit n0 unat_u64_lt [of "tx_size_bytes (pr_transaction r)"]
    by (subst unat_add_u64_small) (simp_all, linarith?)
  show "unat (remaining_accesses r') = Suc (unat (remaining_accesses r))"
    and "unat (admitted_bytes r') = unat (admitted_bytes r) + unat n"
    by (simp_all add: r'_def adm rem)
  have "remaining_accesses r + 1 \<noteq> 0" using rem by (metis Zero_not_Suc unat_0)
  moreover have "remaining_accesses r + 1 \<le> admitted_bytes r + n" "admitted_bytes r + n \<le> tx_size_bytes (pr_transaction r)"
    using adm rem fit n0 request_okD(5) [OF r] by (simp_all add: word_le_nat_alt)
  ultimately show "request_ok p r'"
    using r by (simp add: request_ok_def r'_def Let_def)
qed

lemma requests_ok_update:
  assumes ps: "requests_ok ps" and p: "map_of ps p = Some r" and r': "request_ok p r'"
    and same: "pr_transaction r' = pr_transaction r"
  shows "requests_ok (AList.update p r' ps)" and "length (AList.update p r' ps) = length ps"
proof -
  show "length (AList.update p r' ps) = length ps" by (rule length_update [OF p])
  have "active_bytes (AList.update p r' ps) = active_bytes ps"
    unfolding active_bytes_def using summed_update [OF p, of "\<lambda>r. unat (tx_size_bytes (pr_transaction r))" r']
    by (simp add: same)
  then show "requests_ok (AList.update p r' ps)"
    using ps r' by (auto simp: requests_ok_def map_of_update AList.distinct_update)
qed

text \<open>A controller with room takes an access in, and no reservation is left behind.\<close>

lemma reserve_then_admit:
  assumes c: "controller_ok c" "capacity_ok c" "reserved_reads c = 0" "reserved_writes c = 0"
    and rd: "rd = (if la_op a = hbm_op.Read then 1 else 0)" "wr = (if la_op a = hbm_op.Read then 0 else 1)"
    and room: "can_reserve c rd wr" and st: "fst (stats_shape st) = fst (stats_shape (stats c))"
    and time: "unat t + unat (cfg_refresh_interval (config c)) < 2 ^ 64"
    and own: "owns (config c) (la_address a)" and new: "\<not> first_command_issued a"
  obtains c1 where "reserve c rd wr = Inr c1" "config c1 = config c" "stats c1 = stats c"
    "delivers (\<lambda>c'. controller_ok c' \<and> capacity_ok c' \<and> config c' = config c \<and> mapper c' = mapper c \<and>
       stats_shape (stats c') = stats_shape st \<and> reserved_reads c' = 0 \<and> reserved_writes c' = 0 \<and>
       outstanding_accesses c' = outstanding_accesses c + 1 \<and> held c' = held c + {#logical a#} \<and>
       wakeup_at c' = wakeup_at c)
     (admit_reserved (c1\<lparr>stats := st\<rparr>) a t)"
proof -
  let ?c1 = "c\<lparr>reserved_reads := rd, reserved_writes := wr\<rparr>"
  have res: "reserve c rd wr = Inr ?c1" using room c(3,4) by (simp add: reserve_value)
  note k = reserve_capacity [OF c(2) res]
  let ?c2 = "?c1\<lparr>stats := st\<rparr>"
  have c2: "controller_ok ?c2" using k(2) [OF c(1)] controller_ok_shared [of st ?c1] st by simp
  have cap2: "capacity_ok ?c2" using k(1) by (simp add: capacity_ok_def)
  have h2: "held ?c2 = held c" by (simp add: held_def)
  have "delivers (takes_in ?c2 a) (admit_reserved ?c2 a t)"
    using time own new rd by (intro admit_reserved_delivers [OF c2]) simp_all
  then have "delivers (\<lambda>c'. controller_ok c' \<and> capacity_ok c' \<and> config c' = config c \<and> mapper c' = mapper c \<and>
       stats_shape (stats c') = stats_shape st \<and> reserved_reads c' = 0 \<and> reserved_writes c' = 0 \<and>
       outstanding_accesses c' = outstanding_accesses c + 1 \<and> held c' = held c + {#logical a#} \<and>
       wakeup_at c' = wakeup_at c)
     (admit_reserved ?c2 a t)"
    by (rule delivers_mono) (use cap2 h2 rd in \<open>simp_all add: takes_in_def\<close>)
  then show thesis by (intro that [OF res]) simp_all
qed

lemma admit_round_admits:
  fixes access :: hbm_access
  defines "i \<equiv> unat (a_flat_channel (la_address access))"
    and "rd \<equiv> if la_op access = hbm_op.Read then 1 else 0"
    and "wr \<equiv> if la_op access = hbm_op.Read then 0 else 1"
  assumes p: "map_of (parents s) tid = Some r" and more: "admitted_bytes r < tx_size_bytes (pr_transaction r)"
    and a: "next_access s (pr_transaction r) (admitted_bytes r) = Inr access"
    and i: "i < length (controllers s)" and room: "can_reserve (controllers s ! i) rd wr"
    and c1: "reserve ((controllers s ! i)\<lparr>stats := sys_stats s\<rparr>) rd wr = Inr c1"
  shows "admit_round tid (touched, s) =
    ebind (admit_reserved (c1\<lparr>stats := (stats c1)\<lparr>modeled_accesses := modeled_accesses (stats c1) + 1\<rparr>\<rparr>)
        (access\<lparr>la_sequence := next_access_sequence s\<rparr>) (sys_now s)) (\<lambda>c'.
      Inr (True, touched[i := True], put_controller
        (s\<lparr>parents := AList.update tid (r\<lparr>admitted_bytes := admitted_bytes r + la_size_bytes access,
            remaining_accesses := remaining_accesses r + 1\<rparr>) (parents s),
          next_access_sequence := next_access_sequence s + 1\<rparr>) i c'))"
  using p more a i room c1
  by (simp add: admit_round_def Let_def do_controller_value put_controller_def sys_now_def
      i_def rd_def wr_def ebind_assoc)

text \<open>The system after an access was taken in.\<close>

lemma core_ok_admit:
  assumes ok: "core_ok X s" and i: "i < length (controllers s)" and p: "map_of (parents s) tid = Some r"
    and more: "admitted_bytes r < tx_size_bytes (pr_transaction r)" and n: "n \<noteq> 0"
    and fit: "unat (admitted_bytes r) + unat n \<le> unat (tx_size_bytes (pr_transaction r))"
    and c': "controller_ok c'" "capacity_ok c'" "config c' = config (controllers s ! i)"
      "mapper c' = mapper (controllers s ! i)" "stats_shape (stats c') = stats_shape (sys_stats s)"
      "reserved_reads c' = 0" "reserved_writes c' = 0"
      "outstanding_accesses c' = outstanding_accesses (controllers s ! i) + 1"
      "held c' = held (controllers s ! i) + {#a#}" and a: "la_parent_id a = tid"
  defines "r' \<equiv> r\<lparr>admitted_bytes := admitted_bytes r + n, remaining_accesses := remaining_accesses r + 1\<rparr>"
  shows "core_ok X (put_controller (s\<lparr>parents := AList.update tid r' (parents s), next_access_sequence := k\<rparr>) i c')"
proof -
  let ?cs = "(controllers s)[i := c']" and ?ps = "AList.update tid r' (parents s)"
  note grows = request_ok_grows [OF core_ok_request [OF ok p] n fit, folded r'_def]
  have ps: "requests_ok (parents s)" using ok by (simp add: core_ok_def)
  have same: "pr_transaction r' = pr_transaction r" by (simp add: r'_def)
  note upd = requests_ok_update [OF ps p grows(1) same]
  have chans: "channels_ok (sys_config s) (sys_mapper s) (stats c') ?cs"
    using ok c' by (intro channels_ok_put [OF _ i]) (simp_all add: core_ok_def)
  have "queued ?cs = add_mset (i, tid) (queued (controllers s))"
    using queued_served [OF i, of "{#a#}" c' "{#}"] c'(9) a by simp
  moreover have "unat (outstanding_accesses c') = Suc (unat (outstanding_accesses (controllers s ! i)))"
    using outstanding_bound [OF ok i p more] by (simp add: c'(8) unat_add_u64_small)
  then have "work_ok (add_mset (i, tid) (queued (controllers s) + flight (events (sys_queue s)) + X)) ?cs ?ps"
    using ok by (intro work_ok_admit [OF _ i p _ grows(2)]) (simp_all add: core_ok_def)
  moreover have "counts_ok (put_controller (s\<lparr>parents := ?ps, next_access_sequence := k\<rparr>) i c')"
    using ok c'(5) upd(2) by (simp add: core_ok_def counts_ok_def stats_shape_def size_of_def)
  moreover have "targets_ok (length (controllers s)) ?ps"
    using ok p by (simp add: core_ok_def targets_ok_def map_of_update r'_def)
  ultimately show ?thesis
    using ok chans upd(1) by (simp add: core_ok_def)
qed

definition unadmitted :: "transaction_id \<Rightarrow> 'z system \<Rightarrow> nat" where
  "unadmitted tid s = (case map_of (parents s) tid of None \<Rightarrow> 0
     | Some r \<Rightarrow> unat (tx_size_bytes (pr_transaction r)) - unat (admitted_bytes r))"

lemma can_reserve_stats [simp]: "can_reserve (c\<lparr>stats := st\<rparr>) rd wr = can_reserve c rd wr"
  by (simp add: can_reserve_def)

lemma logical_sequence: "la_parent_id (logical a) = la_parent_id (a :: hbm_access)"
  by (simp add: logical_access.truncate_def)

text \<open>A channel that refuses an access has accesses queued.\<close>

lemma full_queue_held:
  assumes "reserved_reads c = 0" and "reserved_writes c = 0"
    and "\<not> can_reserve c (if read then 1 else 0) (if read then 0 else 1)"
  shows "held c \<noteq> {#}"
proof (rule notI)
  assume "held c = {#}"
  then have "read_queue c = []" "write_queue c = []" by (simp_all add: held_def)
  moreover have "n \<noteq> 0 \<Longrightarrow> 1 \<le> n" for n :: size_t by (simp add: word_le_nat_alt unat_gt_0 Suc_le_eq)
  ultimately show False
    using assms by (auto simp: can_reserve_def has_capacity_def size_of_def split: if_splits)
qed

text \<open>What one round does: it takes an access in and goes on, or it stops and changes nothing.\<close>

definition admits ::
    "transaction_id \<Rightarrow> parent_request \<Rightarrow> bool list \<Rightarrow> 'z system \<Rightarrow> bool \<Rightarrow> bool list \<Rightarrow> 'z system \<Rightarrow> bool"
where
  "admits tid r touched s again touched' s' \<longleftrightarrow>
     (if again then \<exists>i c' a r'. i < length (controllers s) \<and> touched' = touched[i := True] \<and>
        controllers s' = (controllers s)[i := c'] \<and> held c' = held (controllers s ! i) + {#a#} \<and>
        la_parent_id a = tid \<and> wakeup_at c' = wakeup_at (controllers s ! i) \<and>
        parents s' = AList.update tid r' (parents s) \<and> sys_queue s' = sys_queue s \<and>
        unat (remaining_accesses r') = Suc (unat (remaining_accesses r))
      else touched' = touched \<and> s' = s \<and> (admitted_bytes r < tx_size_bytes (pr_transaction r) \<longrightarrow>
        (\<exists>i < length (controllers s). held (controllers s ! i) \<noteq> {#})))"

lemma admit_round_timely:
  assumes ok: "core_ok X s" and time: "time_left s" and p: "map_of (parents s) tid = Some r"
  shows "timely (\<lambda>(again, touched', s'). core_ok X s' \<and> advances {tid} s s' \<and>
      length touched' = length touched \<and> (again \<longrightarrow> unadmitted tid s' < unadmitted tid s) \<and>
      admits tid r touched s again touched' s')
    (admit_round tid (touched, s))" (is "timely ?P _")
proof (cases "admitted_bytes r < tx_size_bytes (pr_transaction r)")
  case False
  with ok p show ?thesis by (simp add: admit_round_def admits_def)
next
  case more: True
  let ?tx = "pr_transaction r"
  have su: "setup_ok (sys_config s) (sys_mapper s)" using ok by (simp add: core_ok_def)
  note req = request_okD [OF core_ok_request [OF ok p]]
  obtain g where g: "next_access s ?tx (admitted_bytes r) = Inr g"
    and grp: "group_ok (sys_config s) (sys_mapper s) ?tx (tx_address ?tx + admitted_bytes r) g"
    and fit: "unat (admitted_bytes r) + unat (la_size_bytes g) \<le> unat (tx_size_bytes ?tx)"
    using next_access_ends [OF setup_okD(1) [OF su] more req(3)] by blast
  let ?i = "unat (a_flat_channel (la_address g))"
  let ?rd = "if la_op g = hbm_op.Read then 1 else (0 :: size_t)" and ?wr = "if la_op g = hbm_op.Read then 0 else (1 :: size_t)"
  have mapped: "map_address (sys_mapper s) (tx_address ?tx + admitted_bytes r) = Inr (la_address g)"
    and g': "g = new_access ?tx (la_address g) (la_size_bytes g) (tx_address ?tx + admitted_bytes r)"
    and size: "la_size_bytes g \<noteq> 0" using grp by (simp_all add: group_ok_def)
  have parent: "la_parent_id g = tid" and fresh: "\<not> first_command_issued g"
    using arg_cong [OF g', of la_parent_id] arg_cong [OF g', of first_command_issued] req(1) by simp_all
  have i: "?i < length (controllers s)"
    using mapped_owner(1) [OF su mapped] ok by (simp add: core_ok_def channels_ok_def)
  note c = core_ok_channel [OF ok i]
  let ?c = "(controllers s ! ?i)\<lparr>stats := sys_stats s\<rparr>"
  show ?thesis
  proof (cases "can_reserve (controllers s ! ?i) ?rd ?wr")
    case False
    then have "held (controllers s ! ?i) \<noteq> {#}" using full_queue_held c(4,5) by simp
    with False ok p more g i show ?thesis by (auto simp: admit_round_def Let_def admits_def)
  next
    case room: True
    let ?a = "g\<lparr>la_sequence := next_access_sequence s\<rparr>"
    let ?st = "(sys_stats s)\<lparr>modeled_accesses := modeled_accesses (sys_stats s) + 1\<rparr>"
    have st: "stats_shape ?st = stats_shape (sys_stats s)" by (simp add: stats_shape_def)
    have own: "owns (config ?c) (la_address ?a)"
      using mapped_owner(2) [OF su mapped] c(6) by simp
    have now: "unat (sys_now s) + unat (cfg_refresh_interval (config ?c)) < 2 ^ 64"
      using time c(6) by (simp add: time_left_def channel_config_def Let_def)
    obtain c1 where c1: "reserve ?c ?rd ?wr = Inr c1" "stats c1 = stats ?c"
      and admit: "delivers (\<lambda>c'. controller_ok c' \<and> capacity_ok c' \<and> config c' = config ?c \<and> mapper c' = mapper ?c \<and>
         stats_shape (stats c') = stats_shape ?st \<and> reserved_reads c' = 0 \<and> reserved_writes c' = 0 \<and>
         outstanding_accesses c' = outstanding_accesses ?c + 1 \<and> held c' = held ?c + {#logical ?a#} \<and>
         wakeup_at c' = wakeup_at ?c)
       (admit_reserved (c1\<lparr>stats := ?st\<rparr>) ?a (sys_now s))"
    proof (rule reserve_then_admit [OF c(1,2,4,5) _ _ _ _ now own, of ?rd ?wr ?st])
      show "can_reserve ?c ?rd ?wr" using room by simp
      show "\<not> first_command_issued ?a" using fresh by simp
      show "fst (stats_shape ?st) = fst (stats_shape (stats ?c))" using st by simp
    qed simp_all
    have c1s: "stats c1 = sys_stats s" using c1(2) by simp
    show ?thesis
      unfolding admit_round_admits [OF p more g i room c1(1)] c1s
    proof (rule timely_bindI [OF timely_delivers [OF admit]], elim conjE)
      fix c' let ?n = "la_size_bytes g"
      let ?r = "r\<lparr>admitted_bytes := admitted_bytes r + ?n, remaining_accesses := remaining_accesses r + 1\<rparr>"
      let ?s = "put_controller (s\<lparr>parents := AList.update tid ?r (parents s),
        next_access_sequence := next_access_sequence s + 1\<rparr>) ?i c'"
      assume c': "controller_ok c'" "capacity_ok c'" "config c' = config ?c" "mapper c' = mapper ?c"
        "stats_shape (stats c') = stats_shape ?st"
        "reserved_reads c' = 0" "reserved_writes c' = 0"
        "outstanding_accesses c' = outstanding_accesses ?c + 1" "held c' = held ?c + {#logical ?a#}"
        "wakeup_at c' = wakeup_at ?c"
      have "core_ok X ?s"
        by (rule core_ok_admit [OF ok i p more size fit, of _ "logical ?a"])
          (use c' st parent in \<open>simp_all add: held_def logical_sequence\<close>)
      moreover have "advances {tid} s ?s"
        using p by (simp add: advances_def map_of_update sys_now_def)
      moreover have "unadmitted tid ?s < unadmitted tid s"
        using p more fit size unat_gt_0 [of "la_size_bytes g"] request_ok_grows(3) [OF core_ok_request [OF ok p] size fit]
        by (simp add: unadmitted_def map_of_update word_less_nat_alt)
      moreover have "admits tid r touched s True (touched[?i := True]) ?s"
        unfolding admits_def if_True
        by (intro exI [of _ ?i] exI [of _ c'] exI [of _ "logical ?a"] exI [of _ ?r])
          (use i c' parent request_ok_grows(2) [OF core_ok_request [OF ok p] size fit] in
            \<open>simp add: held_def logical_sequence\<close>)
      ultimately show "timely ?P (Inr (True, touched[?i := True], ?s))" by simp
    qed
  qed
qed

section \<open>All that a transaction can admit\<close>

text \<open>The inner loop ends: each round that goes on admits at least one byte.\<close>

lemma admit_loop_ends:
  "core_ok X s \<Longrightarrow> time_left s \<Longrightarrow> map_of (parents s) tid \<noteq> None \<Longrightarrow>
   \<exists>m. admit_loop tid (touched, s) = Some m \<and> timely (\<lambda>(touched', s'). core_ok X s' \<and>
     advances {tid} s s' \<and> length touched' = length touched) m"
proof (induction "unadmitted tid s" arbitrary: s touched rule: less_induct)
  case less
  obtain r where r: "map_of (parents s) tid = Some r" using less.prems(3) by blast
  note round = admit_round_timely [OF less.prems(1,2) r, of touched]
  show ?case
  proof (cases "admit_round tid (touched, s)")
    case (Inl e)
    with round show ?thesis by (simp add: admit_loop.simps timely_Inl)
  next
    case (Inr x)
    obtain again touched1 s1 where x: "x = (again, touched1, s1)" by (metis prod.exhaust)
    from round have s1: "core_ok X s1" "advances {tid} s s1" "length touched1 = length touched"
      and dec: "again \<Longrightarrow> unadmitted tid s1 < unadmitted tid s"
      by (simp_all add: Inr x)
    show ?thesis
    proof (cases again)
      case False
      with s1 show ?thesis by (simp add: admit_loop.simps Inr x)
    next
      case True
      have "time_left s1" "map_of (parents s1) tid \<noteq> None"
        using less.prems(2,3) advances_time [OF s1(2)] advances_known [OF s1(2)] by simp_all
      from less.hyps [OF dec [OF True] s1(1) this, of touched1] obtain m
        where m: "admit_loop tid (touched1, s1) = Some m" and t: "timely (\<lambda>(touched', s'). core_ok X s' \<and>
          advances {tid} s1 s' \<and> length touched' = length touched1) m" by blast
      have "timely (\<lambda>(touched', s'). core_ok X s' \<and> advances {tid} s s' \<and> length touched' = length touched) m"
        by (rule timely_mono [OF t]) (use s1 advances_trans [of "{tid}" s s1 "{tid}"] in auto)
      with m True show ?thesis by (simp add: admit_loop.simps [of tid "(touched, s)"] Inr x)
    qed
  qed
qed

section \<open>All pending transactions\<close>

lemma admitting_iff:
  "p \<in> admitting ps \<longleftrightarrow> (\<exists>r. map_of ps p = Some r \<and> admitted_bytes r < tx_size_bytes (pr_transaction r))"
  by (simp add: admitting_def)

lemma pump_list_timely:
  "core_ok X s \<Longrightarrow> time_left s \<Longrightarrow> (\<forall>p \<in> set ids. map_of (parents s) p \<noteq> None) \<Longrightarrow> distinct ids \<Longrightarrow>
   timely (\<lambda>(kept, touched', s'). core_ok X s' \<and> advances (set ids) s s' \<and>
     length touched' = length touched \<and> kept = filter (\<lambda>p. p \<in> admitting (parents s')) ids)
   (pump_list ids (touched, s))"
proof (induction ids arbitrary: s touched)
  case Nil
  then show ?case by simp
next
  case (Cons tid ids)
  let ?P = "\<lambda>(kept, touched', s'). core_ok X s' \<and> advances (set (tid # ids)) s s' \<and>
     length touched' = length touched \<and> kept = filter (\<lambda>p. p \<in> admitting (parents s')) (tid # ids)"
  have "map_of (parents s) tid \<noteq> None" using Cons.prems(3) by simp
  from admit_loop_ends [OF Cons.prems(1,2) this, of touched] obtain m
    where m: "admit_loop tid (touched, s) = Some m" and t: "timely (\<lambda>(touched', s'). core_ok X s' \<and>
      advances {tid} s s' \<and> length touched' = length touched) m" by blast
  show ?case
    unfolding pump_list.simps m outcome_simps
  proof (rule timely_bind2 [OF t], elim conjE)
    fix touched1 :: "bool list" and s1
    assume s1: "core_ok X s1" "advances {tid} s s1" "length touched1 = length touched"
    obtain r1 where r1: "map_of (parents s1) tid = Some r1"
      using advances_known [OF s1(2), of tid] Cons.prems(3) by auto
    have "time_left s1" "\<forall>p \<in> set ids. map_of (parents s1) p \<noteq> None" "distinct ids"
      using Cons.prems(2-4) advances_time [OF s1(2)] advances_known [OF s1(2)] by auto
    note IH = Cons.IH [OF s1(1) this, of touched1]
    have "timely ?P (ebind (pump_list ids (touched1, s1)) (\<lambda>(kept, x').
        Inr (if admitted_bytes r1 = tx_size_bytes (pr_transaction r1) then kept else tid # kept, x')))"
    proof (rule timely_bind3 [OF IH], elim conjE)
      fix kept and touched2 :: "bool list" and s2
      assume s2: "core_ok X s2" "advances (set ids) s1 s2" "length touched2 = length touched1"
        "kept = filter (\<lambda>p. p \<in> admitting (parents s2)) ids"
      have "map_of (parents s2) tid = Some r1"
        using s2(2) r1 Cons.prems(4) by (simp add: advances_def)
      then have "tid \<in> admitting (parents s2) \<longleftrightarrow> admitted_bytes r1 \<noteq> tx_size_bytes (pr_transaction r1)"
        using request_okD(4) [OF core_ok_request [OF s1(1) r1]]
        by (auto simp: admitting_iff word_le_nat_alt word_less_nat_alt order_less_le word_unat_eq_iff)
      moreover have "advances (set (tid # ids)) s s2"
        using advances_trans [OF s1(2) s2(2)] by simp
      ultimately show "timely ?P (case (kept, touched2, s2) of (kept, x') \<Rightarrow>
          Inr (if admitted_bytes r1 = tx_size_bytes (pr_transaction r1) then kept else tid # kept, x'))"
        using s2 s1(3) by simp
    qed
    with r1 show "timely ?P (case (touched1, s1) of (touched, s) \<Rightarrow> (case map_of (parents s) tid of
        None \<Rightarrow> Inl (OutOfRange ''unordered_map::at'')
      | Some parent \<Rightarrow> ebind (pump_list ids (touched, s)) (\<lambda>(kept, x').
          Inr (if admitted_bytes parent = tx_size_bytes (pr_transaction parent) then kept
              else tid # kept, x'))))"
      by simp
  qed
qed

lemma quiet_mono: "timely (\<lambda>s'. core_ok X s' \<and> quiet b s') m \<Longrightarrow> quiet a b \<Longrightarrow> timely (\<lambda>s'. core_ok X s' \<and> quiet a s') m"
  by (rule timely_mono) (use quiet_trans [of a b] in blast)+

lemma wake_touched_timely:
  "core_ok X s \<Longrightarrow> k + length ts \<le> length (controllers s) \<Longrightarrow>
   timely (\<lambda>s'. core_ok X s' \<and> quiet s s') (wake_touched k ts s)"
proof (induction k ts s rule: wake_touched.induct)
  case (1 k s)
  then show ?case by simp
next
  case (2 k t ts s)
  show ?case
  proof (cases t)
    case False
    with 2 show ?thesis by simp
  next
    case True
    have "length (controllers s) = unat (channel_count (m_topology (sys_mapper s)))"
      using 2(3) by (simp add: core_ok_def channels_ok_def)
    then have u: "unat (word_of_nat k :: u32) = k"
      using 2(4) by (intro unat_channel_index [of k "channel_count (m_topology (sys_mapper s))"]) simp
    then have i: "unat (word_of_nat k :: u32) < length (controllers s)" using 2(4) by simp
    have "timely (\<lambda>s'. core_ok X s' \<and> quiet s s') (ebind (schedule_refresh_due s (word_of_nat k)) (\<lambda>s1.
       ebind (schedule_controller_wake s1 (word_of_nat k) (sys_now s1)) (\<lambda>s2. wake_touched (Suc k) ts s2)))"
    proof (rule timely_bindI [OF schedule_refresh_due_timely [OF 2(3) i]], elim conjE)
      fix s1 assume s1: "core_ok X s1" "quiet s s1" and v1: "schedule_refresh_due s (word_of_nat k) = Inr s1"
      then have i1: "unat (word_of_nat k :: u32) < length (controllers s1)" using i by (simp add: quiet_def)
      have "timely (\<lambda>s'. core_ok X s' \<and> quiet s1 s') (ebind (schedule_controller_wake s1 (word_of_nat k) (sys_now s1))
          (\<lambda>s2. wake_touched (Suc k) ts s2))"
      proof (rule timely_bindI [OF schedule_controller_wake_timely [OF s1(1) i1]], elim conjE)
        fix s2 assume s2: "core_ok X s2" "quiet s1 s2"
          and v2: "schedule_controller_wake s1 (word_of_nat k) (sys_now s1) = Inr s2"
        have "Suc k + length ts \<le> length (controllers s2)" using 2(4) s1(2) s2(2) by (simp add: quiet_def)
        then have "timely (\<lambda>s'. core_ok X s' \<and> quiet s2 s') (wake_touched (Suc k) ts s2)"
          using 2(2) True v1 v2 s2(1) by simp
        then show "timely (\<lambda>s'. core_ok X s' \<and> quiet s1 s') (wake_touched (Suc k) ts s2)"
          using s2(2) by (rule quiet_mono)
      qed
      then show "timely (\<lambda>s'. core_ok X s' \<and> quiet s s') (ebind (schedule_controller_wake s1 (word_of_nat k) (sys_now s1))
          (\<lambda>s2. wake_touched (Suc k) ts s2))"
        using s1(2) by (rule quiet_mono)
    qed
    with True show ?thesis by simp
  qed
qed

text \<open>Steps of the system keep the setting: configuration, mapper, time and number of channels.\<close>

definition same_setting :: "'z system \<Rightarrow> 'z system \<Rightarrow> bool" where
  "same_setting s s' \<longleftrightarrow> sys_config s' = sys_config s \<and> sys_mapper s' = sys_mapper s \<and>
     sys_now s' = sys_now s \<and> length (controllers s') = length (controllers s)"

lemma same_setting_refl [simp]: "same_setting s s"
  by (simp add: same_setting_def)

lemma same_setting_trans: "same_setting a b \<Longrightarrow> same_setting b c \<Longrightarrow> same_setting a c"
  by (simp add: same_setting_def)

lemma same_setting_time: "same_setting s s' \<Longrightarrow> time_left s' = time_left s"
  by (simp add: same_setting_def time_left_def)

lemma same_setting_quiet: "quiet s s' \<Longrightarrow> same_setting s s'"
  by (simp add: quiet_def same_setting_def)

definition same_transactions :: "'z system \<Rightarrow> 'z system \<Rightarrow> bool" where
  "same_transactions s s' \<longleftrightarrow> (\<forall>p. map_option pr_transaction (map_of (parents s') p) =
     map_option pr_transaction (map_of (parents s) p))"

text \<open>
  \<open>pump_admissions\<close> ends and leaves pending exactly the transactions with bytes to admit;
  before it, those must be among the pending ones.
\<close>

lemma pump_admissions_timely:
  assumes ok: "core_ok X s" and time: "time_left s" and dist: "distinct (pending_admissions s)"
    and known: "\<forall>p \<in> set (pending_admissions s). map_of (parents s) p \<noteq> None"
    and all: "admitting (parents s) \<subseteq> set (pending_admissions s)"
  shows "timely (\<lambda>s'. system_ok X s' \<and> same_setting s s' \<and> same_transactions s s') (pump_admissions s)"
  unfolding pump_admissions_def
proof (rule timely_bind3 [OF pump_list_timely [OF ok time known dist]], elim conjE)
  fix kept and touched :: "bool list" and s1
  assume s1: "core_ok X s1" "advances (set (pending_admissions s)) s s1"
    "length touched = length (replicate (length (controllers s)) False)"
    and kept: "kept = filter (\<lambda>p. p \<in> admitting (parents s1)) (pending_admissions s)"
  let ?s = "s1\<lparr>pending_admissions := kept\<rparr>"
  have "admitting (parents s1) \<subseteq> set (pending_admissions s)"
    using s1(2) all by (force simp: admitting_def advances_def)
  then have "set kept = admitting (parents s1)" and "distinct kept"
    using kept dist by auto
  moreover have core: "core_ok X ?s" using s1(1) by (simp add: core_ok_def counts_ok_def)
  ultimately have sys: "system_ok X ?s" by (simp add: system_ok_def)
  have set: "same_setting s ?s" "same_transactions s ?s"
    using s1(2) by (simp_all add: same_setting_def same_transactions_def advances_def sys_now_def)
  have "0 + length touched \<le> length (controllers ?s)" using s1(2,3) by (simp add: advances_def)
  then have "timely (\<lambda>s'. core_ok X s' \<and> quiet ?s s') (wake_touched 0 touched ?s)"
    by (rule wake_touched_timely [OF core])
  then have "timely (\<lambda>s'. system_ok X s' \<and> same_setting s s' \<and> same_transactions s s') (wake_touched 0 touched ?s)"
  proof (rule timely_mono, elim conjE)
    fix s' assume s': "core_ok X s'" "quiet ?s s'"
    have "same_setting s s'" by (rule same_setting_trans [OF set(1) same_setting_quiet [OF s'(2)]])
    moreover have "same_transactions s s'" using set(2) s'(2) by (simp add: same_transactions_def quiet_def)
    ultimately show "system_ok X s' \<and> same_setting s s' \<and> same_transactions s s'"
      using system_ok_quiet [OF sys s'] by simp
  qed
  then show "timely (\<lambda>s'. system_ok X s' \<and> same_setting s s' \<and> same_transactions s s') (case (kept, touched, s1) of
      (kept, touched, s1) \<Rightarrow> wake_touched 0 touched (s1\<lparr>pending_admissions := kept\<rparr>))"
    by simp
qed

end
