(* ===== verification/System_Run.thy ===== *)
theory System_Run
  imports System_Admission
begin

text \<open>
  Submission, the events and the completions keep the invariant of the system. What the client
  does in its callbacks, which may call back into the system, is the interface locale
  \<open>hbm_client\<close>; the reachable states of a system and its client close the theory.
\<close>

section \<open>Submission\<close>

lemma submit_range:
  assumes "tx_size_bytes tx \<noteq> 0"
  shows "tx_size_bytes tx - 1 > u64_max - tx_address tx \<longleftrightarrow>
    2 ^ 64 < unat (tx_address tx) + unat (tx_size_bytes tx)"
proof -
  have "unat (tx_size_bytes tx - 1) = unat (tx_size_bytes tx) - 1" and "0 < unat (tx_size_bytes tx)"
    using assms by (simp_all add: unat_minus_one unat_gt_0)
  then show ?thesis by (simp only: u64_overflow_test) linarith
qed

lemma channels_ok_shared:
  assumes "fst (stats_shape st') = fst (stats_shape st)"
  shows "channels_ok cfg m st' cs = channels_ok cfg m st cs"
proof -
  have "controller_ok (c\<lparr>stats := st'\<rparr>) = controller_ok (c\<lparr>stats := st\<rparr>)" for c
    using assms controller_ok_shared [of st' "c\<lparr>stats := st\<rparr>"] by simp
  then show ?thesis by (simp add: channels_ok_def channel_ok_def)
qed

lemma core_ok_own_counters:
  fixes channel :: u32
  assumes ok: "core_ok X s" and i: "unat channel < length (controllers s)"
  shows "unat channel < length (channels (sys_stats s))"
proof -
  have "shape_ok (channel_config (sys_config s) (word_of_nat (unat channel)) (banks_each (sys_mapper s)))
      (stats_shape (sys_stats s))"
    using core_ok_channel(1,6) [OF ok i] by (simp add: controller_ok_def)
  then show ?thesis by (simp add: shape_ok_def channel_config_def Let_def stats_shape_def ucast_id)
qed

text \<open>A rejected submission is counted, in the total and at its channel, and changes nothing else.\<close>

definition only_counted :: "'z system \<Rightarrow> 'z system \<Rightarrow> bool" where
  "only_counted s s' \<longleftrightarrow> (\<exists>st. s' = s\<lparr>sys_stats := st\<rparr> \<and>
     st\<lparr>rejected_transactions := 0, channels := []\<rparr> =
       (sys_stats s)\<lparr>rejected_transactions := 0, channels := []\<rparr> \<and>
     rejected_transactions st = rejected_transactions (sys_stats s) + 1)"

lemma reject_submission_counts:
  assumes ok: "system_ok X s" and i: "unat channel < length (controllers s)"
  shows "\<exists>s'. reject_submission s channel = Inr s' \<and> system_ok X s' \<and> only_counted s s'"
proof -
  have ch: "unat channel < length (channels (sys_stats s))"
    by (rule core_ok_own_counters [OF system_ok_core [OF ok] i])
  let ?i = "unat channel"
  let ?ch = "channels (sys_stats s) ! ?i"
  let ?st = "(sys_stats s)\<lparr>rejected_transactions := rejected_transactions (sys_stats s) + 1,
    channels := (channels (sys_stats s))[?i := ?ch\<lparr>queue_stats := (queue_stats ?ch)\<lparr>
      q_rejected_transactions := q_rejected_transactions (queue_stats ?ch) + 1\<rparr>\<rparr>]\<rparr>"
  have v: "reject_submission s channel = Inr (s\<lparr>sys_stats := ?st\<rparr>)"
    using ch by (simp add: reject_submission_def Let_def)
  have sh: "fst (stats_shape ?st) = fst (stats_shape (sys_stats s))"
    using ch by (auto simp: stats_shape_def list_eq_iff_nth_eq nth_list_update)
  have "system_ok X (s\<lparr>sys_stats := ?st\<rparr>)"
    using ok channels_ok_shared [OF sh] by (simp add: system_ok_def core_ok_def counts_ok_def)
  moreover have "only_counted s (s\<lparr>sys_stats := ?st\<rparr>)"
    unfolding only_counted_def by (rule exI [of _ ?st]) simp
  ultimately show ?thesis using v by blast
qed

text \<open>The system with a new transaction, before admission.\<close>

definition enlist :: "hbm_transaction \<Rightarrow> 'z system \<Rightarrow> 'z system" where
  "enlist tx s = s\<lparr>parents := AList.update (tx_id tx) (new_parent tx) (parents s),
     pending_admissions := pending_admissions s @ [tx_id tx],
     sys_stats := (sys_stats s)\<lparr>submitted_transactions := submitted_transactions (sys_stats s) + 1\<rparr>\<rparr>"

lemma new_parent_simps [simp]:
  "pr_transaction (new_parent tx) = tx" "remaining_accesses (new_parent tx) = 0"
  "admitted_bytes (new_parent tx) = 0" "completion_channel (new_parent tx) = 0"
  by (simp_all add: new_parent_def)

lemma core_ok_enlist:
  assumes ok: "system_ok X s" and new: "map_of (parents s) (tx_id tx) = None" and size: "tx_size_bytes tx \<noteq> 0"
    and range: "unat (tx_address tx) + unat (tx_size_bytes tx) \<le> 2 ^ 64"
    and bytes: "active_bytes (parents s) + unat (tx_size_bytes tx) < 2 ^ 64"
    and room: "size_of (parents s) < max_active_transactions (controller (sys_config s))"
  shows "core_ok X (enlist tx s)"
    and "admitting (parents (enlist tx s)) = set (pending_admissions (enlist tx s))"
    and "distinct (pending_admissions (enlist tx s))"
proof -
  let ?ps = "AList.update (tx_id tx) (new_parent tx) (parents s)"
  have core: "core_ok X s" and pend: "distinct (pending_admissions s)" "set (pending_admissions s) = admitting (parents s)"
    using ok by (simp_all add: system_ok_def)
  have reqs: "requests_ok (parents s)" and cnt: "counts_ok s" using core by (simp_all add: core_ok_def)
  have app: "?ps = parents s @ [(tx_id tx, new_parent tx)]" by (rule update_absent [OF new])
  have "0 < unat (tx_size_bytes tx)" using size by (simp add: unat_gt_0)
  then have small: "0 < tx_size_bytes tx" by (simp add: word_less_nat_alt)
  have "request_ok (tx_id tx) (new_parent tx)"
    using size range by (simp add: request_ok_def)
  then have "requests_ok ?ps"
    using reqs bytes by (auto simp: requests_ok_def map_of_update active_bytes_def AList.distinct_update app [symmetric])
      (simp add: app)
  moreover have "targets_ok (length (controllers s)) ?ps"
  proof -
    have "0 < length (controllers s)"
      using core channel_count_nonzero [OF setup_okD(3)] by (auto simp: core_ok_def channels_ok_def unat_gt_0)
    then show ?thesis using core by (simp add: core_ok_def targets_ok_def map_of_update)
  qed
  moreover have "work_ok (queued (controllers s) + flight (events (sys_queue s)) + X) (controllers s) ?ps"
    using core by (intro work_ok_insert [OF _ new]) (simp_all add: core_ok_def)
  moreover have "channels_ok (sys_config s) (sys_mapper s) ((sys_stats s)\<lparr>submitted_transactions :=
      submitted_transactions (sys_stats s) + 1\<rparr>) (controllers s)"
    using core by (subst channels_ok_shared [of _ "sys_stats s"]) (simp_all add: core_ok_def stats_shape_def)
  moreover have "counts_ok (enlist tx s)"
  proof -
    have le: "length (parents s) \<le> unat (max_active_transactions (controller (sys_config s)))"
      using cnt by (simp add: counts_ok_def)
    then have "unat (size_of (parents s)) = length (parents s)"
      using unat_u64_lt [of "max_active_transactions (controller (sys_config s))"] by (intro unat_size_of) linarith
    then have "length (parents s) < unat (max_active_transactions (controller (sys_config s)))"
      using room by (simp add: word_less_nat_alt)
    then show ?thesis using cnt by (simp add: counts_ok_def enlist_def app size_of_def)
  qed
  ultimately show "core_ok X (enlist tx s)"
    using core by (simp add: core_ok_def enlist_def)
  have "tx_id tx \<notin> admitting (parents s)" using new by (simp add: admitting_iff)
  with pend show "distinct (pending_admissions (enlist tx s))" by (simp add: enlist_def)
  show "admitting (parents (enlist tx s)) = set (pending_admissions (enlist tx s))"
    using pend(2) new small by (auto simp: enlist_def admitting_iff map_of_update split: if_splits)
qed

text \<open>
  What \<open>try_submit_now\<close> replies and does: it accepts a transaction that is then active, or
  refuses it and changes at most the counters of rejections.
\<close>

definition submits :: "hbm_transaction \<Rightarrow> 'z system \<Rightarrow> submit_result \<Rightarrow> 'z system \<Rightarrow> bool" where
  "submits tx s r s' \<longleftrightarrow>
     (sr_status r = Accepted \<and> sr_token r = tx_id tx \<and>
        (\<forall>p. map_option pr_transaction (map_of (parents s') p) =
          (if p = tx_id tx then Some tx else map_option pr_transaction (map_of (parents s) p)))) \<or>
     (sr_status r = Backpressure \<and> only_counted s s') \<or>
     (sr_status r \<in> {InvalidArgumentStatus, ArrivalInFuture, DuplicateId} \<and> s' = s)"

lemma try_submit_now_timely:
  assumes ok: "system_ok X s" and time: "time_left s"
    and bytes: "active_bytes (parents s) + unat (tx_size_bytes tx) < 2 ^ 64"
  shows "timely (\<lambda>(r, s'). system_ok X s' \<and> same_setting s s' \<and> submits tx s r s') (try_submit_now s tx)"
    (is "timely ?P _")
proof -
  consider (invalid) "tx_id tx = 0 \<or> tx_size_bytes tx = 0 \<or> tx_arrival_time tx > sys_now s \<or>
      map_of (parents s) (tx_id tx) \<noteq> None \<or> tx_size_bytes tx - 1 > u64_max - tx_address tx"
    | (valid) "tx_id tx \<noteq> 0" "tx_size_bytes tx \<noteq> 0" "\<not> tx_arrival_time tx > sys_now s"
      "map_of (parents s) (tx_id tx) = None" "\<not> tx_size_bytes tx - 1 > u64_max - tx_address tx"
    by blast
  then show ?thesis
  proof cases
    case invalid
    then have "\<exists>r. try_submit_now s tx = Inr (r, s) \<and> sr_status r \<in> {InvalidArgumentStatus, ArrivalInFuture, DuplicateId}"
      by (auto simp: try_submit_now_def submit_reply_def)
    with ok show ?thesis by (auto simp: submits_def)
  next
    case valid
    have core: "core_ok X s" by (rule system_ok_core [OF ok])
    then have su: "setup_ok (sys_config s) (sys_mapper s)" by (simp add: core_ok_def)
    have range: "unat (tx_address tx) + unat (tx_size_bytes tx) \<le> 2 ^ 64"
      using valid(5) submit_range [OF valid(2)] by simp
    have "(0 :: u64) < tx_size_bytes tx" using valid(2) by (simp add: word_neq_0_conv)
    then obtain g where g: "next_access s tx 0 = Inr g"
      and mapped: "map_address (sys_mapper s) (tx_address tx + 0) = Inr (la_address g)"
      using next_access_ends [OF setup_okD(1) [OF su] _ range, of 0] by (auto simp: group_ok_def)
    have i: "unat (a_flat_channel (la_address g)) < length (controllers s)"
      using mapped_owner(1) [OF su mapped] core by (simp add: core_ok_def channels_ok_def)
    let ?rd = "if tx_op tx = hbm_op.Read then 1 else (0 :: size_t)" and ?wr = "if tx_op tx = hbm_op.Read then 0 else (1 :: size_t)"
    let ?room = "size_of (parents s) < max_active_transactions (controller (sys_config s)) \<and>
      can_reserve (controllers s ! unat (a_flat_channel (la_address g))) ?rd ?wr"
    have eq: "try_submit_now s tx = (if \<not> ?room
        then ebind (reject_submission s (a_flat_channel (la_address g))) (\<lambda>s1.
          Inr (submit_reply Backpressure 0 ''admission capacity exceeded'', s1))
        else ebind (pump_admissions (enlist tx s)) (\<lambda>s1. Inr (submit_reply Accepted (tx_id tx) '''', s1)))"
      using valid g i
      by (simp del: not_le not_less add: linorder_not_le [symmetric] try_submit_now_def Let_def enlist_def)
    show ?thesis
    proof (cases ?room)
      case False
      obtain s1 where "reject_submission s (a_flat_channel (la_address g)) = Inr s1" "system_ok X s1" "only_counted s s1"
        using reject_submission_counts [OF ok i] by blast
      with False show ?thesis
        by (auto simp: eq submits_def submit_reply_def only_counted_def same_setting_def sys_now_def)
    next
      case True
      note e = core_ok_enlist [OF ok valid(4,2) range bytes conjunct1 [OF True]]
      have set: "same_setting s (enlist tx s)" by (simp add: same_setting_def enlist_def sys_now_def)
      have known: "\<forall>p \<in> set (pending_admissions (enlist tx s)). map_of (parents (enlist tx s)) p \<noteq> None"
        by (auto simp: e(2) [symmetric] admitting_iff)
      have "timely (\<lambda>s'. system_ok X s' \<and> same_setting (enlist tx s) s' \<and> same_transactions (enlist tx s) s')
          (pump_admissions (enlist tx s))"
        using time same_setting_time [OF set] e by (intro pump_admissions_timely [OF e(1) _ e(3) known]) simp_all
      then have "timely ?P (ebind (pump_admissions (enlist tx s)) (\<lambda>s1. Inr (submit_reply Accepted (tx_id tx) '''', s1)))"
        by (rule timely_bindI)
          (use set in \<open>auto simp: submits_def submit_reply_def same_transactions_def enlist_def map_of_update
             intro: same_setting_trans\<close>)
      with True show ?thesis by (simp add: eq)
    qed
  qed
qed

section \<open>Driving a controller\<close>

text \<open>What a step of the system under a client keeps, with the work \<open>X\<close> being announced.\<close>

definition keeps :: "work \<Rightarrow> 'z system \<Rightarrow> 'z system \<Rightarrow> bool" where
  "keeps X s s' \<longleftrightarrow> system_ok X s' \<and> same_setting s s'"

lemma keeps_trans: "same_setting a b \<Longrightarrow> keeps X b c \<Longrightarrow> keeps X a c"
  using same_setting_trans [of a b c] by (simp add: keeps_def)

lemma keeps_bindI:
  assumes "timely (keeps X s) m" and "\<And>s'. system_ok X s' \<Longrightarrow> same_setting s s' \<Longrightarrow> timely (keeps Y s') (f s')"
  shows "timely (keeps Y s) (ebind m f)"
  using assms(1)
proof (rule timely_bindI)
  fix s' assume s': "keeps X s s'"
  then have "timely (keeps Y s') (f s')" using assms(2) by (simp add: keeps_def)
  then show "timely (keeps Y s) (f s')"
    by (rule timely_mono) (use s' keeps_trans [of s s'] in \<open>simp add: keeps_def\<close>)
qed

lemma keeps_quiet:
  assumes "system_ok X s" and "timely (\<lambda>s'. core_ok Y s' \<and> quiet s s') m"
  shows "timely (keeps Y s) m"
  using assms(2)
  by (rule timely_mono) (use system_ok_quiet [OF assms(1)] same_setting_quiet in \<open>auto simp: keeps_def\<close>)

lemma system_ok_pump:
  assumes "system_ok X s" and "time_left s"
  shows "timely (keeps X s) (pump_admissions s)"
proof (rule timely_mono [OF pump_admissions_timely])
  show "core_ok X s" "time_left s" "distinct (pending_admissions s)"
    "\<forall>p \<in> set (pending_admissions s). map_of (parents s) p \<noteq> None"
    "admitting (parents s) \<subseteq> set (pending_admissions s)"
    using assms by (auto simp: system_ok_def admitting_iff)
qed (simp add: keeps_def)

lemma same_setting_channel:
  "same_setting s s' \<Longrightarrow> unat channel < length (controllers s) \<Longrightarrow> unat channel < length (controllers s')"
  by (simp add: same_setting_def)

text \<open>The end of a transfer, and the capacity notification of a client that wants it, are scheduled.\<close>

lemma drive_controller_timely:
  assumes ok: "system_ok X s" and time: "time_left s" and i: "unat channel < length (controllers s)"
  shows "timely (keeps X s) (drive_controller cl s channel)"
proof -
  let ?rest = "\<lambda>step s1. ebind (case issued_access step of
         None \<Rightarrow> Inr s1
       | Some issued \<Rightarrow>
           ebind (pump_admissions s1) (\<lambda>s2.
           ebind (schedule_event s2 (pa_completion_time issued) (TransferDone issued channel)) (\<lambda>s3.
           if on_capacity cl = None then Inr s3
           else schedule_event s3 (sys_now s3) (CapacityReady channel (sys_now s3))))) (\<lambda>s4.
     case wake_at step of
       None \<Rightarrow> Inr s4
     | Some t \<Rightarrow> schedule_controller_wake s4 channel t)"
  have rest: "timely (keeps X s1) (?rest step s1)"
    if s1: "system_ok (X + placed (unat channel) (served (issued_access step))) s1" "same_setting s s1" for step s1
  proof (rule keeps_bindI)
    have i1: "unat channel < length (controllers s1)" by (rule same_setting_channel [OF s1(2) i])
    have t1: "time_left s1" using time same_setting_time [OF s1(2)] by simp
    show "timely (keeps X s1) (case issued_access step of None \<Rightarrow> Inr s1
       | Some issued \<Rightarrow> ebind (pump_admissions s1) (\<lambda>s2.
           ebind (schedule_event s2 (pa_completion_time issued) (TransferDone issued channel)) (\<lambda>s3.
           if on_capacity cl = None then Inr s3
           else schedule_event s3 (sys_now s3) (CapacityReady channel (sys_now s3)))))"
    proof (cases "issued_access step")
      case None
      with s1 show ?thesis by (simp add: keeps_def)
    next
      case (Some p)
      have "timely (keeps X s1) (ebind (pump_admissions s1) (\<lambda>s2.
           ebind (schedule_event s2 (pa_completion_time p) (TransferDone p channel)) (\<lambda>s3.
           if on_capacity cl = None then Inr s3
           else schedule_event s3 (sys_now s3) (CapacityReady channel (sys_now s3)))))"
      proof (rule keeps_bindI [OF system_ok_pump [OF s1(1) t1]], rule keeps_bindI)
        fix s2 assume s2: "system_ok (X + placed (unat channel) (served (issued_access step))) s2" "same_setting s1 s2"
        note i2 = same_setting_channel [OF s2(2) i1]
        show "timely (keeps X s2) (schedule_event s2 (pa_completion_time p) (TransferDone p channel))"
          using s2(1) i2 by (intro keeps_quiet [OF s2(1) schedule_event_timely]) (simp_all add: Some system_ok_core)
        fix s3 assume s3: "system_ok X s3" "same_setting s2 s3"
        then have "timely (keeps X s3) (schedule_event s3 (sys_now s3) (CapacityReady channel (sys_now s3)))"
          using same_setting_channel [OF s3(2) i2]
          by (intro keeps_quiet [OF s3(1) schedule_quiet_event]) (simp_all add: system_ok_core)
        with s3 show "timely (keeps X s3) (if on_capacity cl = None then Inr s3
            else schedule_event s3 (sys_now s3) (CapacityReady channel (sys_now s3)))"
          by (simp add: keeps_def)
      qed
      with Some show ?thesis by simp
    qed
    fix s4 assume s4: "system_ok X s4" "same_setting s1 s4"
    then have "timely (keeps X s4) (schedule_controller_wake s4 channel t)" for t
      using same_setting_channel [OF s4(2) i1]
      by (intro keeps_quiet [OF s4(1) schedule_controller_wake_timely]) (simp_all add: system_ok_core)
    with s4 show "timely (keeps X s4) (case wake_at step of None \<Rightarrow> Inr s4
        | Some t \<Rightarrow> schedule_controller_wake s4 channel t)"
      by (simp add: keeps_def split: option.split)
  qed
  have "timely (\<lambda>(step, s'). core_ok (X + placed (unat channel) (served (issued_access step))) s' \<and> quiet s s')
      (with_controller s channel (\<lambda>c. drive c (sys_now s)))"
    using evolves_drive [OF core_ok_channel(1) [OF system_ok_core [OF ok] i]]
    by (intro with_controller_timely [OF system_ok_core [OF ok] i] timely_delivers)
  then show ?thesis
    unfolding drive_controller_def
  proof (rule timely_bind2, elim conjE)
    fix step s1 assume s1: "core_ok (X + placed (unat channel) (served (issued_access step))) s1" "quiet s s1"
    note set = same_setting_quiet [OF s1(2)]
    from rest [OF system_ok_quiet [OF ok s1] set] have "timely (keeps X s) (?rest step s1)"
      by (rule timely_mono) (use keeps_trans [OF set] in blast)
    then show "timely (keeps X s) (case (step, s1) of (step, s1) \<Rightarrow> ?rest step s1)" by simp
  qed
qed

section \<open>The client\<close>

text \<open>
  The contract of the callbacks: they keep the invariant, whatever work is still to be announced.
  When a completion is reported its bytes are free again, so that the client may submit as many.
\<close>

locale hbm_client =
  fixes cl :: "'z client"
  assumes completed: "on_completion cl = Some f \<Longrightarrow> system_ok X s \<Longrightarrow> time_left s \<Longrightarrow>
      active_bytes (parents s) + unat (co_size_bytes co) < 2 ^ 64 \<Longrightarrow> timely (keeps X s) (f co s)"
    and notified: "on_capacity cl = Some g \<Longrightarrow> system_ok X s \<Longrightarrow> time_left s \<Longrightarrow> timely (keeps X s) (g n s)"

section \<open>Completions\<close>

text \<open>The system after an access of a transaction has completed.\<close>

definition tally :: "'z system \<Rightarrow> nat \<Rightarrow> hbm_controller \<Rightarrow> transaction_id \<Rightarrow> parent_request \<Rightarrow> 'z system" where
  "tally s i c p r = (put_controller s i c)\<lparr>parents := AList.update p r (parents s)\<rparr>"

lemma note_finished_simps [simp]:
  "remaining_accesses (note_finished a channel t r) = remaining_accesses r - 1"
  "admitted_bytes (note_finished a channel t r) = admitted_bytes r"
  "pr_transaction (note_finished a channel t r) = pr_transaction r"
  by (simp_all add: note_finished_def Let_def)

lemma note_finished_channel:
  "completion_channel (note_finished a channel t r) = channel \<or>
   completion_channel (note_finished a channel t r) = completion_channel r"
  by (simp add: note_finished_def Let_def)

text \<open>The controller after \<open>complete_access\<close>.\<close>

definition released :: "hbm_controller \<Rightarrow> hbm_controller \<Rightarrow> bool" where
  "released c c' \<longleftrightarrow> controller_ok c' \<and> capacity_ok c' \<and> config c' = config c \<and> mapper c' = mapper c \<and>
     held c' = held c \<and> reserved_reads c' = 0 \<and> reserved_writes c' = 0 \<and>
     stats_shape (stats c') = stats_shape (stats c) \<and> outstanding_accesses c' = outstanding_accesses c - 1"

lemma complete_access_released:
  assumes "core_ok X s" and "i < length (controllers s)" and "outstanding_accesses (controllers s ! i) \<noteq> 0"
  shows "delivers (released ((controllers s ! i)\<lparr>stats := sys_stats s\<rparr>))
    (complete_access ((controllers s ! i)\<lparr>stats := sys_stats s\<rparr>) a)"
  using core_ok_channel [OF assms(1,2)] assms(3)
  by (intro delivers_mono [OF complete_access_delivers]) (simp_all add: released_def capacity_ok_def)

lemma tally_parts:
  assumes ok: "system_ok (X + {#(i, p)#}) s" and i: "i < length (controllers s)"
    and c': "released ((controllers s ! i)\<lparr>stats := sys_stats s\<rparr>) c'"
    and p: "map_of (parents s) p = Some r" and r': "remaining_accesses r' = remaining_accesses r - 1"
  shows "channels_ok (sys_config s) (sys_mapper s) (stats c') ((controllers s)[i := c'])"
    and "work_ok (queued ((controllers s)[i := c']) + flight (events (sys_queue s)) + X)
      ((controllers s)[i := c']) (AList.update p r' (parents s))"
    and "remaining_accesses r \<noteq> 0"
proof -
  have core: "core_ok (X + {#(i, p)#}) s" by (rule system_ok_core [OF ok])
  show "channels_ok (sys_config s) (sys_mapper s) (stats c') ((controllers s)[i := c'])"
    using core c' by (intro channels_ok_put [OF _ i]) (simp_all add: core_ok_def released_def)
  have w: "work_ok (add_mset (i, p) (queued (controllers s) + flight (events (sys_queue s)) + X)) (controllers s) (parents s)"
    using core by (simp add: core_ok_def)
  have "held c' = held (controllers s ! i)" using c' by (simp add: released_def held_def)
  then have "queued ((controllers s)[i := c']) = queued (controllers s)"
    using queued_served [OF i, of "{#}" c' "{#}"] by simp
  then show "work_ok (queued ((controllers s)[i := c']) + flight (events (sys_queue s)) + X)
      ((controllers s)[i := c']) (AList.update p r' (parents s))"
    using c' work_ok_finish [OF w p _ r', of c'] by (simp add: released_def)
  show "remaining_accesses r \<noteq> 0" using work_ok_present [OF w] p by (metis option.inject)
qed

text \<open>A transaction that is not finished stays active.\<close>

lemma system_ok_tally:
  fixes a :: logical_completion and t :: sim_time
  assumes ok: "system_ok (X + {#(unat channel, p)#}) s" and i: "unat channel < length (controllers s)"
    and c': "released ((controllers s ! unat channel)\<lparr>stats := sys_stats s\<rparr>) c'"
    and p: "map_of (parents s) p = Some r"
  defines "r' \<equiv> note_finished a channel t r"
  assumes more: "\<not> (remaining_accesses r' = 0 \<and> admitted_bytes r' = tx_size_bytes (pr_transaction r'))"
  shows "system_ok X (tally s (unat channel) c' p r')"
proof -
  have r': "remaining_accesses r' = remaining_accesses r - 1" by (simp add: r'_def)
  note parts = tally_parts [OF ok i c' p r']
  have core: "core_ok (X + {#(unat channel, p)#}) s" by (rule system_ok_core [OF ok])
  have req: "request_ok p r" by (rule core_ok_request [OF core p])
  have "unat (remaining_accesses r - 1) = unat (remaining_accesses r) - 1"
    using parts(3) by (rule unat_minus_one)
  then have "unat (remaining_accesses r - 1) \<le> unat (admitted_bytes r)"
    using request_okD(5) [OF req] by linarith
  then have "request_ok p r'"
    using req more by (simp add: request_ok_def r'_def Let_def word_le_nat_alt)
  then have "requests_ok (AList.update p r' (parents s))" "length (AList.update p r' (parents s)) = length (parents s)"
    using core by (auto intro!: requests_ok_update [OF _ p] simp: core_ok_def r'_def)
  moreover have "targets_ok (length (controllers s)) (AList.update p r' (parents s))"
    using core i p note_finished_channel [of a channel t r]
    by (auto simp: core_ok_def targets_ok_def map_of_update r'_def)
  moreover have "admitting (AList.update p r' (parents s)) = admitting (parents s)"
    using p by (auto simp: admitting_def map_of_update r'_def split: if_splits)
  ultimately show ?thesis
    using ok parts(1,2) c'
    by (simp add: system_ok_def core_ok_def tally_def counts_ok_def size_of_def released_def stats_shape_def)
qed

text \<open>A finished transaction leaves the system, which counts its completion.\<close>

definition retire :: "hbm_completion \<Rightarrow> transaction_id \<Rightarrow> 'z system \<Rightarrow> 'z system" where
  "retire co p s = s\<lparr>sys_stats := count_completion co (sys_stats s),
     completions := (if retain_completions (simulation (sys_config s))
       then completions s @ [co] else completions s),
     parents := AList.delete p (parents s)\<rparr>"

lemma system_ok_retire:
  fixes a :: logical_completion and t :: sim_time
  assumes ok: "system_ok (X + {#(unat channel, p)#}) s" and i: "unat channel < length (controllers s)"
    and c': "released ((controllers s ! unat channel)\<lparr>stats := sys_stats s\<rparr>) c'"
    and p: "map_of (parents s) p = Some r"
  defines "r' \<equiv> note_finished a channel t r"
  assumes fin: "remaining_accesses r' = 0" "admitted_bytes r' = tx_size_bytes (pr_transaction r')"
  shows "system_ok X (retire co p (tally s (unat channel) c' p r'))"
    and "active_bytes (parents (retire co p (tally s (unat channel) c' p r'))) +
      unat (tx_size_bytes (pr_transaction r)) < 2 ^ 64"
proof -
  have r': "remaining_accesses r' = remaining_accesses r - 1" by (simp add: r'_def)
  note parts = tally_parts [OF ok i c' p r']
  have core: "core_ok (X + {#(unat channel, p)#}) s" by (rule system_ok_core [OF ok])
  then have reqs: "requests_ok (parents s)" by (simp add: core_ok_def)
  let ?ps = "AList.update p r' (parents s)" and ?del = "AList.delete p (parents s)"
  have dist: "distinct (map fst (parents s))" using reqs by (simp add: requests_ok_def)
  have same: "AList.delete p ?ps = ?del" by (rule AList.delete_update_same)
  have bytes: "active_bytes ?del + unat (tx_size_bytes (pr_transaction r)) = active_bytes (parents s)"
    unfolding active_bytes_def by (rule summed_delete [OF dist p])
  show "active_bytes (parents (retire co p (tally s (unat channel) c' p r'))) +
      unat (tx_size_bytes (pr_transaction r)) < 2 ^ 64"
    using reqs bytes by (simp add: retire_def tally_def same requests_ok_def)
  have "requests_ok ?del"
    using reqs bytes dist by (auto simp: requests_ok_def map_of_delete AList.distinct_delete split: if_splits)
  moreover have "targets_ok (length (controllers s)) ?del"
    using core by (simp add: core_ok_def targets_ok_def map_of_delete)
  moreover have "work_ok (queued ((controllers s)[unat channel := c']) + flight (events (sys_queue s)) + X)
      ((controllers s)[unat channel := c']) ?del"
    using work_ok_delete [OF parts(2) AList.distinct_update [OF dist], of p r'] fin(1)
    by (simp add: same map_of_update)
  moreover have "admitting ?del = admitting (parents s)"
    using p fin(2) by (auto simp: admitting_def map_of_delete r'_def split: if_splits)
  moreover have "channels_ok (sys_config s) (sys_mapper s) (count_completion co (stats c')) ((controllers s)[unat channel := c'])"
    using parts(1) by (subst channels_ok_shared [of _ "stats c'"]) (simp_all add: count_completion_def Let_def stats_shape_def)
  moreover have "counts_ok (retire co p (tally s (unat channel) c' p r'))"
  proof -
    have len: "Suc (length ?del) = length (parents s)" by (rule length_delete [OF dist p])
    have "counts_ok s" using core by (simp add: core_ok_def)
    moreover have "submitted_transactions (count_completion co st) = submitted_transactions st"
      "completed_transactions (count_completion co st) = completed_transactions st + 1" for st
      by (simp_all add: count_completion_def Let_def)
    ultimately show ?thesis
      using c' len [symmetric]
      by (simp add: counts_ok_def retire_def tally_def same size_of_def released_def stats_shape_def)
  qed
  ultimately show "system_ok X (retire co p (tally s (unat channel) c' p r'))"
    using ok by (simp add: system_ok_def core_ok_def retire_def tally_def same)
qed

text \<open>The methods of the system, under a client that keeps the contract.\<close>

context hbm_client begin

lemma retire_timely:
  assumes ok: "system_ok X (retire co p s)" and time: "time_left s"
    and bytes: "active_bytes (parents (retire co p s)) + unat (co_size_bytes co) < 2 ^ 64"
    and i: "unat (co_channel co) < length (controllers s)"
  shows "timely (keeps X (retire co p s)) (ebind (call_client (on_completion cl) co (retire co p s)) (\<lambda>s2.
    if on_capacity cl = None then Inr s2
    else ebind (list_at (controllers s2) (unat (co_channel co))) (\<lambda>c.
      call_client (on_capacity cl) (notify_of s2 (co_channel co) c (sys_now s2)) s2)))"
proof (rule keeps_bindI)
  have set: "same_setting s (retire co p s)" by (simp add: retire_def same_setting_def sys_now_def)
  have time1: "time_left (retire co p s)" using time same_setting_time [OF set] by simp
  show "timely (keeps X (retire co p s)) (call_client (on_completion cl) co (retire co p s))"
    using completed [OF _ ok time1 bytes] ok by (simp add: call_client_def keeps_def split: option.split)
  fix s2 assume s2: "system_ok X s2" "same_setting (retire co p s) s2"
  have "time_left s2" using time1 same_setting_time [OF s2(2)] by simp
  moreover have "unat (co_channel co) < length (controllers s2)"
    using i same_setting_trans [OF set s2(2)] by (simp add: same_setting_def)
  ultimately show "timely (keeps X s2) (if on_capacity cl = None then Inr s2
    else ebind (list_at (controllers s2) (unat (co_channel co))) (\<lambda>c.
      call_client (on_capacity cl) (notify_of s2 (co_channel co) c (sys_now s2)) s2))"
    using notified [OF _ s2(1)] s2(1) by (auto simp: call_client_def keeps_def)
qed

lemma finish_access_timely:
  assumes ok: "system_ok (X + placed (unat channel) {#logical a#}) s" and time: "time_left s"
  shows "timely (keeps X s) (finish_access cl s a channel t)"
proof -
  let ?i = "unat channel" and ?p = "la_parent_id a"
  have pl: "placed ?i {#logical a#} = {#(?i, ?p)#}" by (simp add: logical_access.truncate_def)
  note ok = ok [unfolded pl]
  have core: "core_ok (X + {#(?i, ?p)#}) s" by (rule system_ok_core [OF ok])
  then have w: "work_ok (add_mset (?i, ?p) (queued (controllers s) + flight (events (sys_queue s)) + X)) (controllers s) (parents s)"
    by (simp add: core_ok_def)
  obtain r where i: "?i < length (controllers s)" and out: "outstanding_accesses (controllers s ! ?i) \<noteq> 0"
    and r: "map_of (parents s) ?p = Some r" and rem: "remaining_accesses r \<noteq> 0"
    by (rule work_ok_present [OF w])
  let ?r = "note_finished a channel t r"
  have "timely (keeps X s) (ebind (complete_access ((controllers s ! ?i)\<lparr>stats := sys_stats s\<rparr>) a) (\<lambda>c'.
      let s2 = tally s ?i c' ?p ?r in
      if remaining_accesses ?r = 0 \<and> admitted_bytes ?r = tx_size_bytes (pr_transaction ?r)
      then complete_parent cl s2 ?p else Inr s2))"
  proof (rule timely_bindI [OF timely_delivers [OF complete_access_released [OF core i out]]])
    fix c' assume c': "released ((controllers s ! ?i)\<lparr>stats := sys_stats s\<rparr>) c'"
    let ?s = "tally s ?i c' ?p ?r"
    have set: "same_setting s ?s" by (simp add: same_setting_def tally_def sys_now_def)
    show "timely (keeps X s) (let s2 = ?s in
      if remaining_accesses ?r = 0 \<and> admitted_bytes ?r = tx_size_bytes (pr_transaction ?r)
      then complete_parent cl s2 ?p else Inr s2)"
    proof (cases "remaining_accesses ?r = 0 \<and> admitted_bytes ?r = tx_size_bytes (pr_transaction ?r)")
      case False
      from system_ok_tally [OF ok i c' r False] set show ?thesis
        unfolding Let_def if_not_P [OF False] timely_Inr keeps_def by blast
    next
      case True
      then have fin: "remaining_accesses ?r = 0" "admitted_bytes ?r = tx_size_bytes (pr_transaction ?r)" by blast+
      let ?co = "completion_of ?r"
      have known: "map_of (parents ?s) ?p = Some ?r" by (simp add: tally_def map_of_update)
      note ret = system_ok_retire [OF ok i c' r fin]
      have "unat (completion_channel ?r) < length (controllers s)"
        using core i r note_finished_channel [of a channel t r] by (auto simp: core_ok_def targets_ok_def)
      then have ch: "unat (co_channel ?co) < length (controllers ?s)"
        by (simp add: completion_of_def Let_def tally_def)
      have bytes: "active_bytes (parents (retire ?co ?p ?s)) + unat (co_size_bytes ?co) < 2 ^ 64"
        using ret(2) by (simp add: completion_of_def Let_def)
      have "time_left ?s" using time same_setting_time [OF set] by simp
      from retire_timely [OF ret(1) this bytes ch]
      have "timely (keeps X (retire ?co ?p ?s)) (complete_parent cl ?s ?p)"
        by (simp add: complete_parent_def known Let_def retire_def)
      then have "timely (keeps X s) (complete_parent cl ?s ?p)"
        by (rule timely_mono) (use set in \<open>auto simp: keeps_def retire_def same_setting_def sys_now_def\<close>)
      with True show ?thesis by simp
    qed
  qed
  then show ?thesis
    using r rem by (simp add: finish_access_def do_controller_value [OF i] ebind_assoc tally_def throw_if_def)
qed

lemma finish_all_timely:
  "system_ok (X + placed (unat channel) (mset (map logical as))) s \<Longrightarrow> time_left s \<Longrightarrow>
   timely (keeps X s) (finish_all cl as channel t s)"
proof (induction as arbitrary: s)
  case Nil
  then show ?case by (simp add: keeps_def)
next
  case (Cons a as)
  have "timely (keeps (X + placed (unat channel) (mset (map logical as))) s) (finish_access cl s a channel t)"
    using Cons.prems by (intro finish_access_timely) (simp_all add: ac_simps)
  then show ?case
    unfolding finish_all.simps
  proof (rule keeps_bindI)
    fix s' assume s': "system_ok (X + placed (unat channel) (mset (map logical as))) s'" "same_setting s s'"
    then show "timely (keeps X s') (finish_all cl as channel t s')"
      using Cons.IH Cons.prems(2) same_setting_time [OF s'(2)] by simp
  qed
qed

text \<open>The closures.\<close>

lemma handle_event_timely:
  assumes ok: "system_ok (X + event_work ev) s" and time: "time_left s"
    and i: "unat (event_channel ev) < length (controllers s)"
  shows "timely (keeps X s) (handle_event cl ev s)"
proof (cases ev)
  case (Wake channel w)
  have ok': "system_ok X s" and i': "unat channel < length (controllers s)" using ok i Wake by simp_all
  have "timely (evolves ((controllers s ! unat channel)\<lparr>stats := sys_stats s\<rparr>) {#})
      (Inr (clear_wakeup ((controllers s ! unat channel)\<lparr>stats := sys_stats s\<rparr>) w))"
    using evolves_clear [OF core_ok_channel(1) [OF system_ok_core [OF ok'] i']] by simp
  then have "timely (keeps X s) (do_controller s channel (\<lambda>c. Inr (clear_wakeup c w)))"
    by (intro keeps_quiet [OF ok'] do_controller_timely [OF system_ok_core [OF ok'] i'])
  then have "timely (keeps X s) (ebind (do_controller s channel (\<lambda>c. Inr (clear_wakeup c w))) (\<lambda>s1.
      drive_controller cl s1 channel))"
  proof (rule keeps_bindI)
    fix s1 assume s1: "system_ok X s1" "same_setting s s1"
    then show "timely (keeps X s1) (drive_controller cl s1 channel)"
      using time same_setting_time [OF s1(2)] same_setting_channel [OF s1(2) i']
      by (intro drive_controller_timely) simp_all
  qed
  then show ?thesis by (simp add: Wake handle_event_def)
next
  case (RefreshDue channel due)
  have ok': "system_ok X s" and i': "unat channel < length (controllers s)" using ok i RefreshDue by simp_all
  have d: "timely (keeps X s) (do_controller s channel (\<lambda>c. handle_refresh_event c due))"
    using evolves_refresh_event [OF core_ok_channel(1) [OF system_ok_core [OF ok'] i']]
    by (intro keeps_quiet [OF ok'] do_controller_timely [OF system_ok_core [OF ok'] i'] timely_delivers)
  have "timely (keeps X s) (ebind (do_controller s channel (\<lambda>c. handle_refresh_event c due)) (\<lambda>s1.
       ebind (schedule_controller_wake s1 channel due) (\<lambda>s2.
       ebind (list_at (controllers s2) (unat channel)) (\<lambda>c.
       if has_outstanding c then schedule_refresh_due s2 channel else Inr s2))))"
  proof (rule keeps_bindI [OF d], rule keeps_bindI)
    fix s1 assume s1: "system_ok X s1" "same_setting s s1"
    note i1 = same_setting_channel [OF s1(2) i']
    show "timely (keeps X s1) (schedule_controller_wake s1 channel due)"
      by (rule keeps_quiet [OF s1(1) schedule_controller_wake_timely [OF system_ok_core [OF s1(1)] i1]])
    fix s2 assume s2: "system_ok X s2" "same_setting s1 s2"
    note i2 = same_setting_channel [OF s2(2) i1]
    have "timely (keeps X s2) (schedule_refresh_due s2 channel)"
      by (rule keeps_quiet [OF s2(1) schedule_refresh_due_timely [OF system_ok_core [OF s2(1)] i2]])
    with s2 i2 show "timely (keeps X s2) (ebind (list_at (controllers s2) (unat channel)) (\<lambda>c.
       if has_outstanding c then schedule_refresh_due s2 channel else Inr s2))"
      by (simp add: keeps_def)
  qed
  then show ?thesis by (simp add: RefreshDue handle_event_def)
next
  case (TransferDone p channel)
  with ok time finish_all_timely [of X channel "pa_completions p" s] show ?thesis
    by (simp add: handle_event_def)
next
  case (CapacityReady channel w)
  with ok time i notified [of _ X s] show ?thesis
    by (auto simp: handle_event_def call_client_def keeps_def split: option.split)
qed

end

end
