(* ===== verification/System_Reach.thy ===== *)
theory System_Reach
  imports System_Run
begin

text \<open>
  The constructor establishes the invariant, every event keeps it, and so it holds in every state
  that submissions, events and the passing of time can reach, for every client that keeps the
  contract \<open>hbm_client\<close>. The contract is met by a client without callbacks and by one that
  submits a new transaction for every completed one.
\<close>

section \<open>Construction\<close>

lemma validated:
  assumes "config_validate cfg = Inr ()"
  defines "org \<equiv> device_organization (device cfg)"
  shows "br_bytes (pseudo_channel_rate org) \<noteq> 0" "br_interval (pseudo_channel_rate org) \<noteq> 0"
    "physical_burst_bytes org \<noteq> 0" "physical_burst_bytes org \<le> max_group_bytes cfg"
    "enable_rfm (controller cfg) \<longrightarrow>
      (\<exists>std. ds_standard (device cfg) = Some std \<and> supports std hbm_command.RfmPerBank)"
  using assms(1) unfolding config_validate_ok Let_def org_def max_group_bytes_def by auto

lemma fresh_channel:
  assumes su: "setup_ok cfg m" and i: "i < unat (channel_count (m_topology m))"
  defines "st \<equiv> initial_stats\<lparr>channels := replicate (unat (channel_count (m_topology m)))
    (channel_counters cfg (banks_each m))\<rparr>"
  shows "channel_ok cfg m st i (make_controller (channel_config cfg (word_of_nat i) (banks_each m)) m st)"
proof -
  let ?cfg = "channel_config cfg (word_of_nat i) (banks_each m)"
  note su' = setup_okD [OF su]
  note v = validated [OF su'(5)]
  have b: "banks_each m \<noteq> 0"
    using banks_each_times(2) [OF su'(3)] topology_nonzero(3-5) [OF su'(3)] by (auto simp flip: unat_eq_0)
  have "unat (cfg_first_flat_bank ?cfg) + unat (cfg_bank_count ?cfg) \<le> unat (bank_count m)"
    using first_bank [OF su'(3) i] by (simp add: channel_config_def Let_def)
  then have "config_ok ?cfg m"
    using su'(2) b v(1,2,5) by (simp add: config_ok_def channel_config_def Let_def)
  moreover have "shape_ok ?cfg (stats_shape st)"
    using i unat_channel_index [OF i] su'(4)
    by (simp add: shape_ok_def st_def stats_shape_def channel_config_def Let_def channel_counters_def)
  ultimately have "controller_ok (make_controller ?cfg m st)" by (rule controller_ok_make)
  moreover have "(make_controller ?cfg m st)\<lparr>stats := st\<rparr> = make_controller ?cfg m st"
    by (simp add: make_controller_def)
  ultimately show ?thesis
    by (simp add: channel_ok_def) (simp add: make_controller_def)
qed

text \<open>A validated configuration whose layout decodes every address gives a sound system.\<close>

definition organized_mapper :: "hbm_config \<Rightarrow> address_mapper result" where
  "organized_mapper cfg = (let org = device_organization (device cfg) in
     make_address_mapper (topology org) (address_interleave_bytes org)
       (columns_per_row org) (rows_per_bank org) (address_mapping org))"

lemma make_system_ok:
  assumes v: "config_validate cfg = Inr ()" and m: "organized_mapper cfg = Inr m" and lay: "layout_ok m"
    and q: "events q = []"
  shows "\<exists>s. make_system cfg q = Inr s \<and> system_ok {#} s \<and> sys_queue s = q \<and> sys_config s = cfg \<and>
    parents s = [] \<and> sys_mapper s = m"
proof -
  let ?org = "device_organization (device cfg)" and ?n = "channel_count (m_topology m)"
  have top: "m_topology m = topology ?org"
    using m by (auto simp: organized_mapper_def Let_def make_address_mapper_def ebind_eq_Inr)
  have su: "setup_ok cfg m"
    using v lay top validated(3,4) [OF v] by (simp add: setup_ok_def split_config_ok_def)
  let ?st = "initial_stats\<lparr>channels := replicate (unat ?n) (channel_counters cfg (banks_each m))\<rparr>"
  let ?cs = "map (\<lambda>i. make_controller (channel_config cfg (word_of_nat i) (banks_each m)) m ?st) [0..<unat ?n]"
  let ?s = "\<lparr>sys_config = cfg, sys_queue = q, sys_mapper = m, sys_stats = ?st, controllers = ?cs,
    parents = [], pending_admissions = [], completions = [], pending_events = [], next_access_sequence = 0\<rparr>"
  have nz: "?n \<noteq> 0" by (rule channel_count_nonzero [OF setup_okD(3) [OF su]])
  have make: "make_system cfg q = Inr ?s"
    using v m nz by (simp add: make_system_def Let_def organized_mapper_def banks_each_def top)
  have chans: "channels_ok cfg m ?st ?cs"
    using fresh_channel [OF su] by (simp add: channels_ok_def)
  have "queued ?cs = {#}" by (simp add: queued_def)
  moreover have "total_out ?cs = 0"
    unfolding total_out_def by (simp add: o_def make_controller_def sum_list_triv)
  ultimately have "work_ok (queued ?cs + flight (events q) + {#}) ?cs []"
    by (simp add: work_ok_def q)
  then have "system_ok {#} ?s"
    using su chans q
    by (simp add: system_ok_def core_ok_def requests_ok_def active_bytes_def targets_ok_def events_ok_def
        counts_ok_def admitting_def size_of_def initial_stats_def)
  with make show ?thesis by (intro exI [of _ ?s]) simp
qed

lemma events_empty [simp]: "events empty_queue = []"
  by (simp add: empty_queue_def)

lemma make_system_Inr:
  assumes "make_system cfg q = Inr s" and "layout_ok (sys_mapper s)" and "events q = []"
  shows "system_ok {#} s"
proof -
  have "config_validate cfg = Inr ()" and "organized_mapper cfg = Inr (sys_mapper s)"
    using assms(1) by (auto simp: make_system_def organized_mapper_def Let_def ebind_eq_Inr split: if_splits)
  from make_system_ok [OF this assms(2,3)] assms(1) show ?thesis by auto
qed

text \<open>The built-in profiles give sound systems.\<close>

lemma profile_layouts:
  "list_all (\<lambda>cfg. \<exists>m. organized_mapper cfg = Inr m \<and> layout_ok m) [default_config, hbm2_2000, hbm3_6400, hbm4_8000]"
  by (simp add: organized_mapper_def make_address_mapper_def Let_def layout_ok_def mapper_ok_def topology_ok_def
      topology_validate_def default_config_def hbm2_2000_def hbm3_6400_def hbm4_8000_def device_custom_def
      default_device_def device_organization_def default_topology_def default_organization_def
      hbm2_organization_def hbm3_organization_def hbm4_organization_def)

lemma profile_systems:
  assumes "cfg \<in> {default_config, hbm2_2000, hbm3_6400, hbm4_8000}"
  shows "\<exists>s. make_system cfg empty_queue = Inr s \<and> system_ok {#} s \<and> layout_ok (sys_mapper s) \<and>
    sys_config s = cfg \<and> sys_queue s = empty_queue \<and> parents s = []"
proof -
  have "config_validate cfg = Inr ()" using assms profiles_validate by auto
  moreover obtain m where "organized_mapper cfg = Inr m" "layout_ok m" using assms profile_layouts by auto
  ultimately show ?thesis using make_system_ok [of cfg m empty_queue] by (auto simp: empty_queue_def)
qed

section \<open>Events\<close>

text \<open>The next event comes a refresh interval before the end of time.\<close>

definition next_in_time :: "'z system \<Rightarrow> bool" where
  "next_in_time s \<longleftrightarrow> (case events (sys_queue s) of [] \<Rightarrow> True
     | x # _ \<Rightarrow> unat (ev_time (snd x)) + unat (refresh_interval (controller (sys_config s))) < 2 ^ 64)"

context hbm_client begin

lemma run_next_timely:
  assumes ok: "system_ok {#} s" and time: "next_in_time s"
  shows "timely (\<lambda>(b, s'). system_ok {#} s' \<and> sys_config s' = sys_config s \<and> sys_mapper s' = sys_mapper s \<and>
    length (controllers s') = length (controllers s)) (system_run_next cl s)" (is "timely ?P _")
proof (cases "events (sys_queue s)")
  case Nil
  with ok show ?thesis by (simp add: system_run_next_def run_next_def)
next
  case (Cons x es)
  obtain k e where x: "x = (k, e)" by fastforce
  obtain token ev where ev: "ev_callback e = (token, ev)" by fastforce
  let ?q = "(sys_queue s)\<lparr>events := es, tokens := (tokens (sys_queue s))(ev_token e := None), eq_now := ev_time e\<rparr>"
  let ?s = "s\<lparr>sys_queue := ?q, pending_events := removeAll token (pending_events s)\<rparr>"
  have run: "system_run_next cl s = ebind (handle_event cl ev ?s) (\<lambda>s'. Inr (True, s'))"
    by (simp add: system_run_next_def run_next_def dispatch_one_def pop_event_def Cons x ev execute_def ebind_assoc)
  have ch: "unat (event_channel ev) < length (controllers ?s)"
    using ok by (simp add: system_ok_def core_ok_def events_ok_def Cons x ev)
  have "system_ok ({#} + event_work ev) ?s"
    using ok by (simp add: system_ok_def core_ok_def events_ok_def counts_ok_def Cons x ev ac_simps)
  moreover have "time_left ?s" using time by (simp add: next_in_time_def time_left_def sys_now_def Cons x)
  ultimately have "timely (keeps {#} ?s) (handle_event cl ev ?s)" using ch by (rule handle_event_timely)
  then show ?thesis
    unfolding run by (rule timely_bindI) (simp add: keeps_def same_setting_def)
qed

end

section \<open>Reachable states\<close>

inductive reaches :: "'z client \<Rightarrow> 'z system \<Rightarrow> 'z system \<Rightarrow> bool" for cl :: "'z client" and s0 :: "'z system"
where
  reach_start: "reaches cl s0 s0"
| reach_submit: "reaches cl s0 s \<Longrightarrow> time_left s \<Longrightarrow> active_bytes (parents s) + unat (tx_size_bytes tx) < 2 ^ 64 \<Longrightarrow>
    try_submit_now s tx = Inr (r, s') \<Longrightarrow> reaches cl s0 s'"
| reach_event: "reaches cl s0 s \<Longrightarrow> next_in_time s \<Longrightarrow> system_run_next cl s = Inr (b, s') \<Longrightarrow> reaches cl s0 s'"
| reach_wait: "reaches cl s0 s \<Longrightarrow> reaches cl s0 (s\<lparr>sys_queue := (sys_queue s)\<lparr>eq_now := t\<rparr>\<rparr>)"
| reach_client: "reaches cl s0 s \<Longrightarrow> reaches cl s0 (hbm_system.more_update f s)"

inductive_cases reaches_cases: "reaches cl s0 s"

lemma system_ok_clock [simp]: "system_ok X (s\<lparr>sys_queue := (sys_queue s)\<lparr>eq_now := t\<rparr>\<rparr>) = system_ok X s"
  by (simp add: system_ok_def core_ok_def counts_ok_def)

text \<open>A system with a state of the client.\<close>

lemma extend_unit [simp]: "hbm_system.extend (s :: hbm_system) () = s"
  by (cases s) (simp add: hbm_system.defs)

lemma system_ok_extend [simp]: "system_ok X (hbm_system.extend s w) = system_ok X s"
  by (simp add: hbm_system.defs system_ok_def core_ok_def counts_ok_def)

lemma system_ok_more [simp]: "system_ok X (hbm_system.more_update f s) = system_ok X s"
  by (simp add: system_ok_def core_ok_def counts_ok_def)

context hbm_client begin

lemma reaches_ok: "reaches cl s0 s \<Longrightarrow> system_ok {#} s0 \<Longrightarrow> system_ok {#} s"
proof (induction rule: reaches.induct)
  case (reach_submit s tx r s')
  then show ?case using timelyD [OF try_submit_now_timely [of "{#}" s tx]] by fastforce
next
  case (reach_event s b s')
  then show ?case using timelyD [OF run_next_timely [of s]] by fastforce
qed simp_all

end

section \<open>Clients that keep the contract\<close>

definition silent_client :: "'z client" where
  "silent_client = \<lparr>on_completion = None, on_capacity = None\<rparr>"

interpretation silent: hbm_client silent_client
  by unfold_locales (simp_all add: silent_client_def)

text \<open>A closed loop: each completion is answered by a transaction of the same size.\<close>

definition resubmit :: "hbm_completion \<Rightarrow> 'z system \<Rightarrow> 'z system result" where
  "resubmit co s = ebind (try_submit_now s \<lparr>tx_id = co_id co, tx_op = co_op co, tx_address = co_address co,
     tx_size_bytes = co_size_bytes co, tx_arrival_time = sys_now s, tx_client = co_client co,
     tx_metadata = co_metadata co\<rparr>) (\<lambda>(_, s'). Inr s')"

definition closed_loop_client :: "'z client" where
  "closed_loop_client = \<lparr>on_completion = Some resubmit, on_capacity = None\<rparr>"

interpretation closed_loop: hbm_client closed_loop_client
proof unfold_locales
  fix f X and s :: "'a system" and co :: hbm_completion
  assume f: "on_completion (closed_loop_client :: 'a client) = Some f" and ok: "system_ok X s" "time_left s"
    and bytes: "active_bytes (parents s) + unat (co_size_bytes co) < 2 ^ 64"
  have "timely (keeps X s) (resubmit co s)"
    unfolding resubmit_def
    by (rule timely_bind2 [OF try_submit_now_timely [OF ok]]) (use bytes in \<open>simp_all add: keeps_def\<close>)
  with f show "timely (keeps X s) (f co s)" by (simp add: closed_loop_client_def)
qed (simp add: closed_loop_client_def)

end
