(* ===== verification/System_Progress.thy ===== *)
theory System_Progress
  imports System_Reach
begin

text \<open>
  Why a system does not come to rest with work left: a controller with queued accesses is marked
  for a wake-up, every mark has its event in the queue, the accesses of a transaction that have
  not completed are exactly those queued or in flight, and a transaction waits for admission only
  while some queue is filled. Here: the elementary steps and admission keep these facts as long as
  the sequence numbers of the event queue last.
\<close>

section \<open>Results of steps that return\<close>

definition yields :: "('a \<Rightarrow> bool) \<Rightarrow> 'a result \<Rightarrow> bool" where
  "yields P m \<longleftrightarrow> (\<forall>a. m = Inr a \<longrightarrow> P a)"

lemma yields_simps [simp]: "yields P (Inr a) = P a" "yields P (Inl e)"
  by (simp_all add: yields_def)

lemma yieldsD: "yields P m \<Longrightarrow> m = Inr a \<Longrightarrow> P a"
  by simp

lemma yields_mono: "yields P m \<Longrightarrow> (\<And>a. m = Inr a \<Longrightarrow> P a \<Longrightarrow> Q a) \<Longrightarrow> yields Q m"
  by (simp add: yields_def)

lemma yields_conj: "yields P m \<Longrightarrow> yields Q m \<Longrightarrow> yields (\<lambda>a. P a \<and> Q a) m"
  by (simp add: yields_def)

lemma yields_bindI:
  "yields P m \<Longrightarrow> (\<And>a. m = Inr a \<Longrightarrow> P a \<Longrightarrow> yields Q (f a)) \<Longrightarrow> yields Q (ebind m f)"
  by (cases m) auto

lemma yields_return: "(\<And>a. yields Q (f a)) \<Longrightarrow> yields Q (ebind m f)"
  by (cases m) auto

lemma yields_bind2:
  assumes "yields (\<lambda>(x, y). P x y) m" and "\<And>x y. m = Inr (x, y) \<Longrightarrow> P x y \<Longrightarrow> yields Q (f (x, y))"
  shows "yields Q (ebind m f)"
  using assms by (intro yields_bindI [OF assms(1)]) auto

lemma yields_bind3:
  assumes "yields (\<lambda>(x, y, z). P x y z) m"
    and "\<And>x y z. m = Inr (x, y, z) \<Longrightarrow> P x y z \<Longrightarrow> yields Q (f (x, y, z))"
  shows "yields Q (ebind m f)"
  using assms by (intro yields_bindI [OF assms(1)]) auto

lemma yields_timely: "timely P m \<Longrightarrow> yields P m"
  by (cases m) auto

lemma yields_delivers: "delivers P m \<Longrightarrow> yields P m"
  by (cases m) auto

section \<open>Nothing left behind\<close>

definition wake_in :: "system_entry list \<Rightarrow> nat \<Rightarrow> sim_time \<Rightarrow> bool" where
  "wake_in es i t \<longleftrightarrow> (\<exists>x \<in> set es. \<exists>channel. snd (ev_callback (snd x)) = Wake channel t \<and> unat channel = i)"

text \<open>
  The channels in \<open>E\<close> may have accesses that no wake-up serves yet; \<open>X\<close> is the work whose
  completion is being announced.
\<close>

definition marked_ok :: "bool \<Rightarrow> nat \<Rightarrow> hbm_controller \<Rightarrow> system_entry list \<Rightarrow> bool" where
  "marked_ok exempt i c es \<longleftrightarrow> (\<not> exempt \<longrightarrow> held c \<noteq> {#} \<longrightarrow> wakeup_at c \<noteq> None) \<and>
     (\<forall>t. wakeup_at c = Some t \<longrightarrow> wake_in es i t)"

definition marks_ok :: "nat set \<Rightarrow> hbm_controller list \<Rightarrow> system_entry list \<Rightarrow> bool" where
  "marks_ok E cs es \<longleftrightarrow> (\<forall>i < length cs. marked_ok (i \<in> E) i (cs ! i) es)"

definition work_exact :: "work \<Rightarrow> requests \<Rightarrow> bool" where
  "work_exact W ps \<longleftrightarrow> (\<forall>p. open_of ps p = size (of_parent p W))"

definition numbered :: "system_entry list \<Rightarrow> u64 \<Rightarrow> bool" where
  "numbered es n \<longleftrightarrow> (\<forall>x \<in> set es. unat (snd (fst x)) < unat n)"

definition progress_ok :: "nat set \<Rightarrow> work \<Rightarrow> 'z system \<Rightarrow> bool" where
  "progress_ok E X s \<longleftrightarrow> marks_ok E (controllers s) (events (sys_queue s)) \<and>
     work_exact (queued (controllers s) + flight (events (sys_queue s)) + X) (parents s) \<and>
     numbered (events (sys_queue s)) (next_sequence (sys_queue s))"

text \<open>At least \<open>k\<close> more events can be scheduled.\<close>

definition room :: "nat \<Rightarrow> 'z system \<Rightarrow> bool" where
  "room k s \<longleftrightarrow> unat (next_sequence (sys_queue s)) + k < 2 ^ 64"

text \<open>Transactions wait for admission only while accesses are queued.\<close>

definition waiting_ok :: "'z system \<Rightarrow> bool" where
  "waiting_ok s \<longleftrightarrow> (pending_admissions s \<noteq> [] \<longrightarrow> queued (controllers s) \<noteq> {#})"

definition lively :: "nat \<Rightarrow> nat set \<Rightarrow> work \<Rightarrow> 'z system \<Rightarrow> bool" where
  "lively k E X s \<longleftrightarrow> core_ok X s \<and> progress_ok E X s \<and> room k s"

section \<open>The parts\<close>

lemma flight_emplace_new:
  "k \<notin> fst ` set es \<Longrightarrow> flight (map_emplace k v es) = event_work (snd (ev_callback v)) + flight es"
  by (induction k v es rule: map_emplace.induct) (auto simp: ac_simps)

lemma numbered_new: "numbered es n \<Longrightarrow> (t, n) \<notin> fst ` set es"
  by (force simp: numbered_def)

lemma numbered_emplace:
  assumes n: "numbered es n" and "unat n + 1 < 2 ^ 64"
  shows "numbered (map_emplace (t, n) v es) (n + 1)"
proof -
  have "unat (n + 1) = unat n + 1" using assms(2) by (simp add: unat_add_u64_small)
  then show ?thesis
    using n set_map_emplace [OF numbered_new [OF n, of t], of v] by (auto simp: numbered_def)
qed

lemma wake_in_mono: "wake_in es i t \<Longrightarrow> set es \<subseteq> set es' \<Longrightarrow> wake_in es' i t"
  by (auto simp: wake_in_def)

lemma marked_ok_mono: "marked_ok e i c es \<Longrightarrow> set es \<subseteq> set es' \<Longrightarrow> (e \<Longrightarrow> e') \<Longrightarrow> marked_ok e' i c es'"
  by (auto simp: marked_ok_def intro: wake_in_mono)

lemma marks_ok_mono: "marks_ok E cs es \<Longrightarrow> set es \<subseteq> set es' \<Longrightarrow> E \<subseteq> E' \<Longrightarrow> marks_ok E' cs es'"
  unfolding marks_ok_def by (blast intro: marked_ok_mono)

lemma marks_ok_at: "marks_ok E cs es \<Longrightarrow> i < length cs \<Longrightarrow> marked_ok (i \<in> E) i (cs ! i) es"
  by (simp add: marks_ok_def)

lemma marks_ok_update:
  assumes "marks_ok E cs es" and "marked_ok (i \<in> E') i c es" and "E - {i} \<subseteq> E'"
  shows "marks_ok E' (cs[i := c]) es"
  unfolding marks_ok_def
proof (intro allI impI)
  fix j assume "j < length (cs[i := c])"
  with assms(2,3) marks_ok_at [OF assms(1), of j] show "marked_ok (j \<in> E') j (cs[i := c] ! j) es"
    by (cases "j = i") (auto elim!: marked_ok_mono)
qed

lemma marks_ok_put:
  assumes "marks_ok E cs es" and "i < length cs" and "wakeup_at c = wakeup_at (cs ! i)"
    and "i \<in> E \<or> held c \<subseteq># held (cs ! i)"
  shows "marks_ok E (cs[i := c]) es"
proof (rule marks_ok_update [OF assms(1)])
  show "marked_ok (i \<in> E) i c es"
    using marks_ok_at [OF assms(1,2)] assms(3,4) by (auto simp: marked_ok_def)
qed simp

lemma marks_ok_mark:
  assumes "marks_ok E cs es" and "wakeup_at c = Some t" and "wake_in es i t"
  shows "marks_ok (E - {i}) (cs[i := c]) es"
  by (rule marks_ok_update [OF assms(1)]) (use assms in \<open>simp_all add: marked_ok_def\<close>)

lemma marks_ok_settled:
  assumes "marks_ok E cs es" and "i < length cs" and "held (cs ! i) = {#} \<or> wakeup_at (cs ! i) \<noteq> None"
  shows "marks_ok (E - {i}) cs es"
proof -
  have "marked_ok False i (cs ! i) es"
    using marks_ok_at [OF assms(1,2)] assms(3) by (auto simp: marked_ok_def)
  then show ?thesis using marks_ok_update [OF assms(1), of i "E - {i}" "cs ! i"] by simp
qed

lemma marks_ok_pop:
  assumes "marks_ok E cs (x # es)" and "\<And>channel t. snd (ev_callback (snd x)) \<noteq> Wake channel t"
  shows "marks_ok E cs es"
  using assms by (auto simp: marks_ok_def marked_ok_def wake_in_def)

text \<open>The wake-up of a channel leaves the queue and the mark of that time goes.\<close>

lemma marks_ok_woken:
  assumes m: "marks_ok {} cs (x # es)" and x: "snd (ev_callback (snd x)) = Wake channel t"
    and i: "unat channel < length cs" and c: "held c = held (cs ! unat channel)"
      "wakeup_at c = (if wakeup_at (cs ! unat channel) = Some t then None else wakeup_at (cs ! unat channel))"
  shows "marks_ok {unat channel} (cs[unat channel := c]) es"
  unfolding marks_ok_def
proof (intro allI impI)
  fix j assume "j < length (cs[unat channel := c])"
  then have "marked_ok False j (cs ! j) (x # es)" using marks_ok_at [OF m, of j] by simp
  then show "marked_ok (j \<in> {unat channel}) j (cs[unat channel := c] ! j) es"
    using c x i by (cases "j = unat channel") (auto simp: marked_ok_def wake_in_def split: if_splits)
qed

lemma work_exact_open: "work_exact W ps \<Longrightarrow> (\<And>p. open_of ps' p = open_of ps p) \<Longrightarrow> work_exact W ps'"
  by (simp add: work_exact_def)

lemma work_exact_admit:
  assumes "work_exact W ps" and p: "map_of ps p = Some r"
    and "unat (remaining_accesses r') = Suc (unat (remaining_accesses r))"
  shows "work_exact (add_mset (i, p) W) (AList.update p r' ps)"
proof -
  have "unat (remaining_accesses r) = size (of_parent p W)"
    using assms(1) p unfolding work_exact_def by (auto simp: open_of_def dest!: spec [of _ p])
  with assms show ?thesis by (simp add: work_exact_def open_of_update)
qed

lemma work_exact_finish:
  assumes w: "work_exact (add_mset (i, p) W) ps" and p: "map_of ps p = Some r"
    and m: "remaining_accesses r' = remaining_accesses r - 1"
  shows "work_exact W (AList.update p r' ps)"
proof -
  have o: "unat (remaining_accesses r) = Suc (size (of_parent p W))"
    using w p unfolding work_exact_def by (auto simp: open_of_def dest!: spec [of _ p])
  then have "remaining_accesses r \<noteq> 0" by auto
  then have "unat (remaining_accesses r') = size (of_parent p W)"
    using o by (simp add: m unat_minus_one)
  with w show ?thesis by (auto simp: work_exact_def open_of_update)
qed

section \<open>Elementary steps\<close>

lemma livelyD: "lively k E X s \<Longrightarrow> core_ok X s" "lively k E X s \<Longrightarrow> progress_ok E X s" "lively k E X s \<Longrightarrow> room k s"
  by (simp_all add: lively_def)

lemma room_mono: "room k s \<Longrightarrow> j \<le> k \<Longrightarrow> room j s"
  by (simp add: room_def)

lemma lively_room: "lively k E X s \<Longrightarrow> j \<le> k \<Longrightarrow> lively j E X s"
  using room_mono by (auto simp: lively_def)

lemma lively_exempt: "lively k E X s \<Longrightarrow> E \<subseteq> E' \<Longrightarrow> lively k E' X s"
  by (auto simp: lively_def progress_ok_def intro: marks_ok_mono)

lemma put_lively:
  assumes ok: "lively k E X s" and i: "i < length (controllers s)"
    and e: "evolves ((controllers s ! i)\<lparr>stats := sys_stats s\<rparr>) S c'" and w: "wakeup_at c' = wakeup_at (controllers s ! i)"
  shows "lively k E (X + placed i S) (put_controller s i c')"
    and "queued ((controllers s)[i := c']) + placed i S = queued (controllers s)"
proof -
  have h: "held (controllers s ! i) = held c' + S" using e by (simp add: evolves_def held_def)
  show q: "queued ((controllers s)[i := c']) + placed i S = queued (controllers s)"
    using queued_served [OF i, of "{#}" c' S] h by simp
  then have eq: "queued ((controllers s)[i := c']) + flight (events (sys_queue s)) + (X + placed i S) =
      queued (controllers s) + flight (events (sys_queue s)) + X"
    by (simp add: ac_simps)
  have "marks_ok E ((controllers s)[i := c']) (events (sys_queue s))"
    using ok by (intro marks_ok_put [OF _ i w]) (simp_all add: lively_def progress_ok_def h)
  then have "progress_ok E (X + placed i S) (put_controller s i c')"
    using ok by (simp add: lively_def progress_ok_def eq)
  with core_ok_put [OF livelyD(1) [OF ok] i e] ok
  show "lively k E (X + placed i S) (put_controller s i c')"
    by (simp add: lively_def room_def)
qed

lemma with_controller_lively:
  assumes ok: "lively k E X s" and i: "unat channel < length (controllers s)"
    and f: "yields (\<lambda>(x, c'). evolves ((controllers s ! unat channel)\<lparr>stats := sys_stats s\<rparr>) (S x) c' \<and>
        wakeup_at c' = wakeup_at (controllers s ! unat channel) \<and> Q x c')
      (f ((controllers s ! unat channel)\<lparr>stats := sys_stats s\<rparr>))"
  shows "yields (\<lambda>(x, s'). lively k E (X + placed (unat channel) (S x)) s' \<and> quiet s s' \<and>
      queued (controllers s') + placed (unat channel) (S x) = queued (controllers s) \<and>
      Q x (controllers s' ! unat channel)) (with_controller s channel f)"
  unfolding with_controller_value [OF i]
  by (rule yields_bindI [OF f]) (use put_lively [OF ok i] i in auto)

text \<open>The sequence number of a new event is new, so that the event is not lost.\<close>

lemma schedule_event_lively:
  assumes ok: "lively (Suc k) E (X + event_work ev) s" and ch: "unat (event_channel ev) < length (controllers s)"
  shows "yields (\<lambda>s'. lively k E X s' \<and> quiet s s' \<and> controllers s' = controllers s \<and>
      (\<exists>x \<in> set (events (sys_queue s')). snd (ev_callback (snd x)) = ev)) (schedule_event s t ev)"
proof (cases "t < eq_now (sys_queue s)")
  case True
  then show ?thesis by (simp add: schedule_event_def schedule_at_def)
next
  case False
  let ?q = "sys_queue s" and ?n = "next_sequence (sys_queue s)"
  let ?e = "\<lparr>ev_time = t, ev_sequence = ?n, ev_token = next_token ?q, ev_callback = (next_token ?q, ev)\<rparr>"
  let ?es = "map_emplace (t, ?n) ?e (events ?q)"
  obtain s' where s': "schedule_event s t ev = Inr s'" "controllers s' = controllers s" "parents s' = parents s"
    "events (sys_queue s') = ?es" "next_sequence (sys_queue s') = ?n + 1"
    using False by (simp add: schedule_event_def schedule_at_def Let_def)
  have prog: "progress_ok E (X + event_work ev) s" and room: "unat ?n + 1 + k < 2 ^ 64"
    using ok by (simp_all add: lively_def room_def)
  then have num: "numbered (events ?q) ?n" by (simp add: progress_ok_def)
  have n1: "unat (?n + 1) = unat ?n + 1" using room by (simp add: unat_add_u64_small)
  note set_es = set_map_emplace [OF numbered_new [OF num, of t], of ?e]
  have fl: "queued (controllers s) + flight ?es + X = queued (controllers s) + flight (events ?q) + (X + event_work ev)"
    using flight_emplace_new [OF numbered_new [OF num, of t], of ?e] by (simp add: ac_simps)
  have "set (events ?q) \<subseteq> set ?es" using set_es by blast
  then have "marks_ok E (controllers s) ?es"
    using prog by (auto simp: progress_ok_def elim: marks_ok_mono)
  moreover have "numbered ?es (?n + 1)" using num room by (intro numbered_emplace) simp_all
  ultimately have "progress_ok E X s'" using prog by (simp add: progress_ok_def s' fl)
  moreover have "core_ok X s'" "quiet s s'"
    using timelyD [OF schedule_event_timely [OF livelyD(1) [OF ok] ch] s'(1)] by simp_all
  moreover have "room k s'" using room by (simp add: room_def s' n1)
  ultimately show ?thesis using set_es by (simp add: s' lively_def)
qed

lemma core_ok_controllers:
  "core_ok X s \<Longrightarrow> length (controllers s) = unat (channel_count (m_topology (sys_mapper s)))"
  by (simp add: core_ok_def channels_ok_def)

lemma schedule_controller_wake_lively:
  assumes ok: "lively (Suc k) E X s" and i: "unat channel < length (controllers s)"
  shows "yields (\<lambda>s'. lively k (E - {unat channel}) X s' \<and> quiet s s' \<and>
      queued (controllers s') = queued (controllers s)) (schedule_controller_wake s channel when)"
proof -
  let ?w = "max when (sys_now s)" and ?i = "unat channel"
  let ?c = "(controllers s ! ?i)\<lparr>stats := sys_stats s\<rparr>" and ?c' = "(controllers s ! ?i)\<lparr>stats := sys_stats s, wakeup_at := Some ?w\<rparr>"
  have q: "queued ((controllers s)[?i := c]) = queued (controllers s)" if "held c = held (controllers s ! ?i)" for c
    using queued_update [OF i, of c] that by simp
  have ev: "evolves ?c {#} ?c" "evolves ?c {#} ?c'"
    using core_ok_channel(1) [OF livelyD(1) [OF ok] i]
    by (auto simp: evolves_def controller_ok_def capacity_ok_def held_def)
  show ?thesis
  proof (cases "\<exists>w. wakeup_at (controllers s ! ?i) = Some w \<and> w \<le> ?w")
    case True
    then have v: "schedule_controller_wake s channel when = Inr (put_controller s ?i ?c)"
      using i by (auto simp: schedule_controller_wake_def with_controller_value mark_wakeup_def Let_def)
    have p: "lively (Suc k) E X (put_controller s ?i ?c)" using put_lively(1) [OF ok i ev(1)] by simp
    have "marks_ok (E - {?i}) ((controllers s)[?i := ?c]) (events (sys_queue s))"
      using p True i by (intro marks_ok_settled) (auto simp: lively_def progress_ok_def)
    then have "lively k (E - {?i}) X (put_controller s ?i ?c)"
      using lively_room [OF p, of k] by (simp add: lively_def progress_ok_def)
    then show ?thesis by (simp add: v q held_def)
  next
    case False
    then have v: "schedule_controller_wake s channel when = schedule_event (put_controller s ?i ?c') ?w (Wake channel ?w)"
      using i by (auto simp: schedule_controller_wake_def with_controller_value mark_wakeup_def Let_def split: option.split)
    let ?s = "put_controller s ?i (?c'\<lparr>wakeup_at := wakeup_at (controllers s ! ?i)\<rparr>)"
    have s: "lively (Suc k) E X ?s" using put_lively(1) [OF ok i, of "{#}"] ev(1) by simp
    let ?sch = "\<lambda>s. schedule_event s ?w (Wake channel ?w)"
    have rel: "?sch (put_controller s ?i ?c') = ebind (?sch ?s) (\<lambda>s'. Inr (s'\<lparr>controllers := (controllers s)[?i := ?c']\<rparr>))"
      by (simp add: schedule_event_def put_controller_def schedule_at_def Let_def)
    have core: "yields (\<lambda>s'. core_ok X s' \<and> quiet (put_controller s ?i ?c') s') (?sch (put_controller s ?i ?c'))"
      using core_ok_put [OF livelyD(1) [OF ok] i ev(2)] i
      by (intro yields_timely [OF schedule_quiet_event]) simp_all
    have sch: "yields (\<lambda>s'. lively k E X s' \<and> quiet ?s s' \<and> controllers s' = controllers ?s \<and>
      (\<exists>x \<in> set (events (sys_queue s')). snd (ev_callback (snd x)) = Wake channel ?w)) (?sch ?s)"
      by (rule schedule_event_lively) (use s i in simp_all)
    have "yields (\<lambda>s'. progress_ok (E - {?i}) X s' \<and> room k s' \<and> queued (controllers s') = queued (controllers s))
        (?sch (put_controller s ?i ?c'))"
      unfolding rel
    proof (rule yields_bindI [OF sch], elim conjE)
      fix s' assume s': "lively k E X s'" "controllers s' = controllers ?s"
        "\<exists>x \<in> set (events (sys_queue s')). snd (ev_callback (snd x)) = Wake channel ?w"
      have "marks_ok (E - {?i}) ((controllers s')[?i := ?c']) (events (sys_queue s'))"
        using s' by (intro marks_ok_mark) (auto simp: lively_def progress_ok_def wake_in_def)
      moreover have "queued (controllers s') = queued (controllers s)" "queued ((controllers s)[?i := ?c']) = queued (controllers s)"
        using s'(2) by (simp_all add: q held_def)
      ultimately show "yields (\<lambda>s'. progress_ok (E - {?i}) X s' \<and> room k s' \<and> queued (controllers s') = queued (controllers s))
          (Inr (s'\<lparr>controllers := (controllers s)[?i := ?c']\<rparr>))"
        using s' by (simp add: lively_def progress_ok_def room_def)
    qed
    from yields_conj [OF core this] show ?thesis
      unfolding v by (rule yields_mono) (auto simp: lively_def intro: quiet_trans [OF quiet_put])
  qed
qed

lemma yields_quiet:
  assumes "yields (\<lambda>s'. lively k E X s' \<and> quiet b s' \<and> queued (controllers s') = queued (controllers b)) m"
    and "quiet a b" and "queued (controllers b) = queued (controllers a)"
  shows "yields (\<lambda>s'. lively k E X s' \<and> quiet a s' \<and> queued (controllers s') = queued (controllers a)) m"
  using assms(1) by (rule yields_mono) (use assms(2,3) quiet_trans [of a b] in auto)

lemma schedule_refresh_due_lively:
  assumes ok: "lively (Suc k) E X s" and i: "unat channel < length (controllers s)"
  shows "yields (\<lambda>s'. lively k E X s' \<and> quiet s s' \<and> queued (controllers s') = queued (controllers s))
    (schedule_refresh_due s channel)"
proof -
  have "wakeup_at (snd (claim_refresh_event c)) = wakeup_at c" for c
    by (simp add: claim_refresh_event_def split: option.split)
  then have "yields (\<lambda>(x, s'). lively (Suc k) E (X + placed (unat channel) {#}) s' \<and> quiet s s' \<and>
      queued (controllers s') + placed (unat channel) {#} = queued (controllers s) \<and> True)
      (with_controller s channel (\<lambda>c. Inr (claim_refresh_event c)))"
    using evolves_claim [OF core_ok_channel(1) [OF livelyD(1) [OF ok] i]]
    by (intro with_controller_lively [OF ok i]) (simp add: case_prod_unfold)
  then show ?thesis
    unfolding schedule_refresh_due_def
  proof (rule yields_bind2)
    fix due s1 assume s1: "lively (Suc k) E (X + placed (unat channel) {#}) s1 \<and> quiet s s1 \<and>
      queued (controllers s1) + placed (unat channel) {#} = queued (controllers s) \<and> True"
    then have i1: "unat channel < length (controllers s1)" using i by (simp add: quiet_def)
    have "yields (\<lambda>s'. lively k E X s' \<and> quiet s1 s' \<and> queued (controllers s') = queued (controllers s1))
        (schedule_event s1 t (RefreshDue channel t))" for t
      by (rule yields_mono [OF schedule_event_lively]) (use s1 i1 in auto)
    from yields_quiet [OF this] s1
    have "yields (\<lambda>s'. lively k E X s' \<and> quiet s s' \<and> queued (controllers s') = queued (controllers s))
        (schedule_event s1 t (RefreshDue channel t))" for t
      by simp
    with s1 show "yields (\<lambda>s'. lively k E X s' \<and> quiet s s' \<and> queued (controllers s') = queued (controllers s))
        (case (due, s1) of (due, s') \<Rightarrow> (case due of None \<Rightarrow> Inr s' | Some t \<Rightarrow> schedule_event s' t (RefreshDue channel t)))"
      by (auto split: option.split intro: lively_room)
  qed
qed

section \<open>Admission\<close>

fun touched_set :: "nat \<Rightarrow> bool list \<Rightarrow> nat set" where
  "touched_set k [] = {}"
| "touched_set k (t # ts) = (if t then {k} else {}) \<union> touched_set (Suc k) ts"

lemma touched_set_update: "i < length ts \<Longrightarrow> touched_set k (ts[i := True]) = insert (k + i) (touched_set k ts)"
proof (induction ts arbitrary: k i)
  case (Cons t ts)
  then show ?case by (cases i) auto
qed simp

lemma touched_set_none [simp]: "touched_set k (replicate n False) = {}"
  by (induction n arbitrary: k) auto

lemma queued_held: "i < length cs \<Longrightarrow> held (cs ! i) \<noteq> {#} \<Longrightarrow> queued cs \<noteq> {#}"
  by (auto simp: queued_def placed_def sum_eq_empty_iff)

lemma queued_obtain:
  assumes "queued cs \<noteq> {#}"
  obtains i where "i < length cs" "held (cs ! i) \<noteq> {#}"
  using assms by (auto simp: queued_def placed_def sum_eq_empty_iff)

lemma admit_round_lively:
  assumes ok: "lively k (E \<union> touched_set 0 touched) X s" and time: "time_left s"
    and p: "map_of (parents s) tid = Some r" and len: "length touched = length (controllers s)"
  shows "yields (\<lambda>(again, touched', s'). lively k (E \<union> touched_set 0 touched') X s' \<and> advances {tid} s s' \<and>
      length touched' = length touched \<and> queued (controllers s) \<subseteq># queued (controllers s') \<and>
      (\<not> again \<longrightarrow> tid \<in> admitting (parents s') \<longrightarrow> queued (controllers s') \<noteq> {#}))
    (admit_round tid (touched, s))"
proof (rule yields_mono [OF yields_timely [OF admit_round_timely [OF livelyD(1) [OF ok] time p, of touched]]],
    clarify, intro conjI)
  fix again touched' s'
  assume core: "core_ok X s'" and adv: "advances {tid} s s'" and len': "length touched' = length touched"
    and a: "admits tid r touched s again touched' s'"
  have "lively k (E \<union> touched_set 0 touched') X s' \<and> queued (controllers s) \<subseteq># queued (controllers s') \<and>
      (\<not> again \<longrightarrow> tid \<in> admitting (parents s') \<longrightarrow> queued (controllers s') \<noteq> {#})"
  proof (cases again)
    case False
    with a have s': "s' = s" "touched' = touched" and h: "admitted_bytes r < tx_size_bytes (pr_transaction r) \<longrightarrow>
        (\<exists>i < length (controllers s). held (controllers s ! i) \<noteq> {#})"
      by (simp_all add: admits_def)
    have "queued (controllers s) \<noteq> {#}" if "tid \<in> admitting (parents s)"
      using that h p queued_held by (auto simp: admitting_iff)
    with ok show ?thesis by (simp add: s')
  next
    case True
    with a obtain i c' x r' where i: "i < length (controllers s)" and t: "touched' = touched[i := True]"
      and cs: "controllers s' = (controllers s)[i := c']" and h: "held c' = held (controllers s ! i) + {#x#}"
      and x: "la_parent_id x = tid" and w: "wakeup_at c' = wakeup_at (controllers s ! i)"
      and ps: "parents s' = AList.update tid r' (parents s)" and q: "sys_queue s' = sys_queue s"
      and r': "unat (remaining_accesses r') = Suc (unat (remaining_accesses r))"
      unfolding admits_def by (simp only: if_True) blast
    have tset: "touched_set 0 touched' = insert i (touched_set 0 touched)"
      using i len by (simp add: t touched_set_update)
    have que: "queued ((controllers s)[i := c']) = add_mset (i, tid) (queued (controllers s))"
      using queued_served [OF i, of "{#x#}" c' "{#}"] h x by simp
    have prog: "progress_ok (E \<union> touched_set 0 touched) X s" and "room k s" using ok by (simp_all add: lively_def)
    then have "marks_ok (E \<union> touched_set 0 touched') ((controllers s)[i := c']) (events (sys_queue s))"
      unfolding tset by (intro marks_ok_put [OF _ i w]) (auto simp: progress_ok_def elim: marks_ok_mono)
    moreover have "work_exact (queued ((controllers s)[i := c']) + flight (events (sys_queue s)) + X)
        (AList.update tid r' (parents s))"
      using work_exact_admit [OF _ p r'] prog by (simp add: que progress_ok_def)
    ultimately have "progress_ok (E \<union> touched_set 0 touched') X s'"
      using prog by (simp add: progress_ok_def cs q ps)
    with core \<open>room k s\<close> show ?thesis by (simp add: True lively_def room_def q cs que)
  qed
  then show "lively k (E \<union> touched_set 0 touched') X s'" "queued (controllers s) \<subseteq># queued (controllers s')"
    "\<not> again \<longrightarrow> tid \<in> admitting (parents s') \<longrightarrow> queued (controllers s') \<noteq> {#}" by simp_all
qed

text \<open>What admission to the transactions in \<open>T\<close> keeps.\<close>

definition admission_lively ::
    "nat \<Rightarrow> nat set \<Rightarrow> work \<Rightarrow> transaction_id set \<Rightarrow> 'z system \<Rightarrow> bool list \<times> 'z system \<Rightarrow> bool" where
  "admission_lively k E X T s x \<longleftrightarrow> lively k (E \<union> touched_set 0 (fst x)) X (snd x) \<and>
     advances T s (snd x) \<and> length (fst x) = length (controllers s) \<and>
     queued (controllers s) \<subseteq># queued (controllers (snd x)) \<and>
     (T \<inter> admitting (parents (snd x)) \<noteq> {} \<longrightarrow> queued (controllers (snd x)) \<noteq> {#})"

lemma admission_lively_mono:
  assumes "admission_lively k E X T a x" and "advances U s a" and "length (controllers a) = length (controllers s)"
    and "queued (controllers s) \<subseteq># queued (controllers a)" and "U \<union> T \<subseteq> T'"
    and "(T' - T) \<inter> admitting (parents (snd x)) \<noteq> {} \<Longrightarrow> queued (controllers (snd x)) \<noteq> {#}"
  shows "admission_lively k E X T' s x"
proof -
  have "advances T' s (snd x)"
    using advances_trans [OF assms(2), of T "snd x"] assms(1)
    by (intro advances_mono [OF _ assms(5)]) (simp add: admission_lively_def)
  moreover have "queued (controllers s) \<subseteq># queued (controllers (snd x))"
    using assms(1,4) by (auto simp: admission_lively_def)
  ultimately show ?thesis using assms(1,3,6) unfolding admission_lively_def by auto
qed

lemma admit_loop_induct [consumes 1, case_names round]:
  assumes "admit_loop tid x = Some m"
    and "\<And>loop tid x m. (\<And>tid x m. loop tid x = Some m \<Longrightarrow> P tid x m) \<Longrightarrow> (case admit_round tid x of
        Inl e \<Rightarrow> Some (Inl e) | Inr (again, x') \<Rightarrow> if again then loop tid x' else Some (Inr x')) = Some m \<Longrightarrow> P tid x m"
  shows "P tid x m"
proof -
  have "(case (tid, x) of (t, y) \<Rightarrow> P t y) m"
  proof (rule admit_loop.raw_induct [where P = P])
    show "(case (tid, x) of (t, y) \<Rightarrow> admit_loop t y) = Some m" using assms(1) by simp
  qed (rule assms(2))
  then show ?thesis by simp
qed

lemma admit_loop_lively:
  "admit_loop tid x = Some m \<Longrightarrow> lively k (E \<union> touched_set 0 (fst x)) X (snd x) \<Longrightarrow> time_left (snd x) \<Longrightarrow>
   map_of (parents (snd x)) tid \<noteq> None \<Longrightarrow> length (fst x) = length (controllers (snd x)) \<Longrightarrow>
   yields (admission_lively k E X {tid} (snd x)) m"
proof (induction rule: admit_loop_induct)
  case (round loop tid x m)
  obtain touched s where x: "x = (touched, s)" by fastforce
  with round obtain r where r: "map_of (parents s) tid = Some r" and len: "length touched = length (controllers s)"
    by auto
  have ok: "lively k (E \<union> touched_set 0 touched) X s" and time: "time_left s" using round(3,4) x by simp_all
  note step = admit_round_lively [OF ok time r len]
  show ?case
  proof (cases "admit_round tid (touched, s)")
    case (Inl e)
    with round(2) show ?thesis by (auto simp: x)
  next
    case (Inr y)
    obtain again touched1 s1 where y: "y = (again, touched1, s1)" by (metis prod.exhaust)
    from step have s1: "lively k (E \<union> touched_set 0 touched1) X s1" "advances {tid} s s1" "length touched1 = length touched"
      "queued (controllers s) \<subseteq># queued (controllers s1)"
      and stop: "\<not> again \<Longrightarrow> tid \<in> admitting (parents s1) \<Longrightarrow> queued (controllers s1) \<noteq> {#}"
      by (simp_all add: Inr y)
    have lens: "length (controllers s1) = length (controllers s)" using s1(2) by (simp add: advances_def)
    show ?thesis
    proof (cases again)
      case False
      with round(2) s1 stop len show ?thesis by (auto simp: x Inr y admission_lively_def)
    next
      case True
      have "time_left s1" "map_of (parents s1) tid \<noteq> None" "length touched1 = length (controllers s1)"
        using time r len lens s1(3) advances_time [OF s1(2)] advances_known [OF s1(2), of tid] by simp_all
      then have "yields (admission_lively k E X {tid} s1) m"
        using round(1) [of tid "(touched1, s1)" m] round(2) True s1(1) by (simp add: x Inr y)
      then show ?thesis
        by (rule yields_mono) (use admission_lively_mono [OF _ s1(2) lens s1(4), of _ _ _ "{tid}" _ "{tid}"] in \<open>simp add: x\<close>)
    qed
  qed
qed

lemma pump_list_lively:
  "lively k (E \<union> touched_set 0 touched) X s \<Longrightarrow> time_left s \<Longrightarrow> (\<forall>p \<in> set ids. map_of (parents s) p \<noteq> None) \<Longrightarrow>
   length touched = length (controllers s) \<Longrightarrow> distinct ids \<Longrightarrow>
   yields (\<lambda>(kept, x). admission_lively k E X (set ids) s x) (pump_list ids (touched, s))"
proof (induction ids arbitrary: s touched)
  case Nil
  then show ?case by (simp add: admission_lively_def)
next
  case (Cons tid ids)
  let ?P = "\<lambda>(kept, x). admission_lively k E X (set (tid # ids)) s x"
  have "yields (admission_lively k E X {tid} s) (outcome (admit_loop tid (touched, s)))"
    using Cons.prems admit_loop_lively [of tid "(touched, s)" _ k E X]
    by (cases "admit_loop tid (touched, s)") auto
  then show ?case
    unfolding pump_list.simps
  proof (rule yields_bindI)
    fix x assume x: "admission_lively k E X {tid} s x"
    obtain touched1 s1 where x1: "x = (touched1, s1)" by fastforce
    from x have s1: "lively k (E \<union> touched_set 0 touched1) X s1" "advances {tid} s s1"
      "length touched1 = length (controllers s)" "queued (controllers s) \<subseteq># queued (controllers s1)"
      and stop: "tid \<in> admitting (parents s1) \<Longrightarrow> queued (controllers s1) \<noteq> {#}"
      by (simp_all add: x1 admission_lively_def)
    have lens: "length (controllers s1) = length (controllers s)" using s1(2) by (simp add: advances_def)
    obtain r1 where r1: "map_of (parents s1) tid = Some r1"
      using advances_known [OF s1(2), of tid] Cons.prems(3) by auto
    have pre: "time_left s1" "\<forall>p \<in> set ids. map_of (parents s1) p \<noteq> None" "length touched1 = length (controllers s1)"
      "distinct ids"
      using Cons.prems advances_time [OF s1(2)] advances_known [OF s1(2)] s1(3) lens by auto
    have "yields ?P (ebind (pump_list ids (touched1, s1)) (\<lambda>(kept, x').
        Inr (if admitted_bytes r1 = tx_size_bytes (pr_transaction r1) then kept else tid # kept, x')))"
    proof (rule yields_bind2 [OF Cons.IH [OF s1(1) pre]])
      fix kept x2 assume x2: "admission_lively k E X (set ids) s1 x2"
      have "advances (set ids) s1 (snd x2)" and que: "queued (controllers s1) \<subseteq># queued (controllers (snd x2))"
        using x2 by (simp_all add: admission_lively_def)
      then have "tid \<in> admitting (parents (snd x2)) \<longleftrightarrow> tid \<in> admitting (parents s1)"
        using Cons.prems(5) by (simp add: advances_def admitting_iff)
      then have "admission_lively k E X (set (tid # ids)) s x2"
        using stop que by (intro admission_lively_mono [OF x2 s1(2) lens s1(4)]) auto
      then show "yields ?P (case (kept, x2) of (kept, x') \<Rightarrow>
          Inr (if admitted_bytes r1 = tx_size_bytes (pr_transaction r1) then kept else tid # kept, x'))" by simp
    qed
    then show "yields ?P (case x of (touched, s) \<Rightarrow> (case map_of (parents s) tid of
        None \<Rightarrow> Inl (OutOfRange ''unordered_map::at'')
      | Some parent \<Rightarrow> ebind (pump_list ids (touched, s)) (\<lambda>(kept, x').
          Inr (if admitted_bytes parent = tx_size_bytes (pr_transaction parent) then kept
              else tid # kept, x'))))"
      by (simp add: x1 r1)
  qed
qed

lemma wake_touched_lively:
  "lively (2 * length ts + n) (E \<union> touched_set k ts) X s \<Longrightarrow> k + length ts \<le> length (controllers s) \<Longrightarrow>
   yields (\<lambda>s'. lively n E X s' \<and> quiet s s' \<and> queued (controllers s') = queued (controllers s)) (wake_touched k ts s)"
proof (induction ts arbitrary: k s)
  case Nil
  then show ?case by simp
next
  case (Cons t ts)
  let ?i = "word_of_nat k :: u32" and ?E = "E \<union> touched_set (Suc k) ts"
  have u: "unat ?i = k"
    using Cons.prems(2) core_ok_controllers [OF livelyD(1) [OF Cons.prems(1)]]
    by (intro unat_channel_index [of k "channel_count (m_topology (sys_mapper s))"]) simp
  show ?case
  proof (cases t)
    case False
    then have "lively (2 * length ts + n) ?E X s"
      by (intro lively_room [OF Cons.prems(1) [simplified False touched_set.simps if_False Un_empty_left]]) simp
    with Cons.IH [of "Suc k" s] Cons.prems(2) False show ?thesis by simp
  next
    case True
    have "lively (Suc (Suc (2 * length ts + n))) (insert k ?E) X s" using Cons.prems(1) True by simp
    from schedule_refresh_due_lively [OF this, of ?i] Cons.prems(2) u
    have due: "yields (\<lambda>s'. lively (Suc (2 * length ts + n)) (insert k ?E) X s' \<and> quiet s s' \<and>
        queued (controllers s') = queued (controllers s)) (schedule_refresh_due s ?i)" by simp
    have "yields (\<lambda>s'. lively n E X s' \<and> quiet s s' \<and> queued (controllers s') = queued (controllers s))
        (ebind (schedule_refresh_due s ?i) (\<lambda>s1. ebind (schedule_controller_wake s1 ?i (sys_now s1)) (wake_touched (Suc k) ts)))"
    proof (rule yields_bindI [OF due], elim conjE)
      fix s1 assume s1: "lively (Suc (2 * length ts + n)) (insert k ?E) X s1" "quiet s s1"
        "queued (controllers s1) = queued (controllers s)"
      have "unat ?i < length (controllers s1)" using Cons.prems(2) u s1(2) by (simp add: quiet_def)
      from schedule_controller_wake_lively [OF s1(1) this]
      have wake: "yields (\<lambda>s'. lively (2 * length ts + n) ?E X s' \<and> quiet s1 s' \<and>
          queued (controllers s') = queued (controllers s1)) (schedule_controller_wake s1 ?i (sys_now s1))"
        by (rule yields_mono) (auto simp: u elim!: lively_exempt)
      have "yields (\<lambda>s'. lively n E X s' \<and> quiet s1 s' \<and> queued (controllers s') = queued (controllers s1))
          (ebind (schedule_controller_wake s1 ?i (sys_now s1)) (wake_touched (Suc k) ts))"
      proof (rule yields_bindI [OF wake], elim conjE)
        fix s2 assume s2: "lively (2 * length ts + n) ?E X s2" "quiet s1 s2"
          "queued (controllers s2) = queued (controllers s1)"
        have "Suc k + length ts \<le> length (controllers s2)" using Cons.prems(2) s1(2) s2(2) by (simp add: quiet_def)
        from yields_quiet [OF Cons.IH [OF s2(1) this] s2(2,3)]
        show "yields (\<lambda>s'. lively n E X s' \<and> quiet s1 s' \<and> queued (controllers s') = queued (controllers s1))
          (wake_touched (Suc k) ts s2)" .
      qed
      from yields_quiet [OF this s1(2,3)]
      show "yields (\<lambda>s'. lively n E X s' \<and> quiet s s' \<and> queued (controllers s') = queued (controllers s))
        (ebind (schedule_controller_wake s1 ?i (sys_now s1)) (wake_touched (Suc k) ts))" .
    qed
    with True show ?thesis by simp
  qed
qed

text \<open>The events that one admission may schedule.\<close>

definition wake_count :: "'z system \<Rightarrow> nat" where
  "wake_count s = 2 * length (controllers s)"

lemma pump_admissions_lively:
  assumes ok: "lively (wake_count s + n) E X s" and time: "time_left s" and dist: "distinct (pending_admissions s)"
    and known: "\<forall>p \<in> set (pending_admissions s). map_of (parents s) p \<noteq> None"
    and all: "admitting (parents s) \<subseteq> set (pending_admissions s)"
  shows "yields (\<lambda>s'. lively n E X s' \<and> system_ok X s' \<and> same_setting s s' \<and> waiting_ok s' \<and>
    queued (controllers s) \<subseteq># queued (controllers s')) (pump_admissions s)"
proof -
  let ?t = "replicate (length (controllers s)) False"
  have list: "yields (\<lambda>(kept, x). (\<exists>touched s1. x = (touched, s1) \<and> set kept = admitting (parents s1)) \<and>
      admission_lively (wake_count s + n) E X (set (pending_admissions s)) s x) (pump_list (pending_admissions s) (?t, s))"
  proof (rule yields_mono [OF yields_conj])
    show "yields (\<lambda>(kept, x). admission_lively (wake_count s + n) E X (set (pending_admissions s)) s x)
        (pump_list (pending_admissions s) (?t, s))"
      using ok by (intro pump_list_lively [OF _ time known _ dist]) simp_all
    show "yields (\<lambda>(kept, touched', s'). core_ok X s' \<and> advances (set (pending_admissions s)) s s' \<and>
        length touched' = length ?t \<and> kept = filter (\<lambda>p. p \<in> admitting (parents s')) (pending_admissions s))
        (pump_list (pending_admissions s) (?t, s))"
      by (rule yields_timely [OF pump_list_timely [OF livelyD(1) [OF ok] time known dist]])
  qed (use all in \<open>force simp: admitting_def advances_def\<close>)
  have "yields (\<lambda>s'. lively n E X s' \<and> waiting_ok s' \<and> queued (controllers s) \<subseteq># queued (controllers s')) (pump_admissions s)"
    unfolding pump_admissions_def
  proof (rule yields_bind2 [OF list], elim conjE exE)
    fix kept x touched s1 assume x: "x = (touched, s1)" and kept: "set kept = admitting (parents s1)"
      and "admission_lively (wake_count s + n) E X (set (pending_admissions s)) s x"
    then have s1: "lively (wake_count s + n) (E \<union> touched_set 0 touched) X s1"
      "advances (set (pending_admissions s)) s s1" "length touched = length (controllers s)"
      "queued (controllers s) \<subseteq># queued (controllers s1)"
      and stop: "set (pending_admissions s) \<inter> admitting (parents s1) \<noteq> {} \<Longrightarrow> queued (controllers s1) \<noteq> {#}"
      by (simp_all add: admission_lively_def)
    let ?s = "s1\<lparr>pending_admissions := kept\<rparr>"
    have "lively (2 * length touched + n) (E \<union> touched_set 0 touched) X ?s"
      using s1(1,3) by (simp add: lively_def wake_count_def core_ok_def counts_ok_def progress_ok_def room_def)
    moreover have "0 + length touched \<le> length (controllers ?s)" using s1(2,3) by (simp add: advances_def)
    ultimately have w: "yields (\<lambda>s'. lively n E X s' \<and> quiet ?s s' \<and> queued (controllers s') = queued (controllers ?s))
        (wake_touched 0 touched ?s)"
      by (rule wake_touched_lively)
    have "admitting (parents s1) \<subseteq> set (pending_admissions s)"
      using s1(2) all by (force simp: admitting_def advances_def)
    then have "kept \<noteq> [] \<longrightarrow> queued (controllers s1) \<noteq> {#}" using kept stop by (cases kept) auto
    then have "yields (\<lambda>s'. lively n E X s' \<and> waiting_ok s' \<and> queued (controllers s) \<subseteq># queued (controllers s'))
        (wake_touched 0 touched ?s)"
      using s1(4) by (intro yields_mono [OF w]) (simp add: waiting_ok_def quiet_def)
    then show "yields (\<lambda>s'. lively n E X s' \<and> waiting_ok s' \<and> queued (controllers s) \<subseteq># queued (controllers s'))
        (case (kept, x) of (kept, touched, s1) \<Rightarrow> wake_touched 0 touched (s1\<lparr>pending_admissions := kept\<rparr>))"
      by (simp add: x)
  qed
  from yields_conj [OF this yields_timely [OF pump_admissions_timely [OF livelyD(1) [OF ok] time dist known all]]]
  show ?thesis by (rule yields_mono) simp
qed

end
