(* ===== verification/System_Liveness.thy ===== *)
theory System_Liveness
  imports System_Progress
begin

text \<open>
  The steps of a system whose client does not submit from its callbacks keep every queued access
  waited for; so a system with an active transaction has an event to run.
\<close>

section \<open>Steps of the system\<close>

text \<open>Between two steps every queued access has its wake-up.\<close>

definition alive :: "nat \<Rightarrow> work \<Rightarrow> 'z system \<Rightarrow> bool" where
  "alive k X s \<longleftrightarrow> system_ok X s \<and> lively k {} X s \<and> waiting_ok s"

lemma aliveD: "alive k X s \<Longrightarrow> system_ok X s" "alive k X s \<Longrightarrow> lively k {} X s" "alive k X s \<Longrightarrow> waiting_ok s"
  by (simp_all add: alive_def)

lemma yields_alive:
  assumes "system_ok X s" and "yields (\<lambda>s'. lively k {} Y s' \<and> quiet s s' \<and> queued (controllers s') = queued (controllers s)) m"
    and "waiting_ok s"
  shows "yields (\<lambda>s'. alive k Y s' \<and> same_setting s s') m"
  using assms(2)
proof (rule yields_mono, elim conjE)
  fix s' assume "lively k {} Y s'" "quiet s s'" "queued (controllers s') = queued (controllers s)"
  then show "alive k Y s' \<and> same_setting s s'"
    using system_ok_quiet [OF assms(1) livelyD(1)] same_setting_quiet [of s s'] assms(3)
    by (simp add: alive_def waiting_ok_def quiet_def)
qed

lemma drive_outcome:
  assumes "controller_ok c"
  shows "yields (\<lambda>(step, c'). evolves c (served (issued_access step)) c' \<and> wakeup_at c' = wakeup_at c \<and>
      (wake_at step = None \<longrightarrow> held c' = {#} \<and> issued_access step = None)) (drive c t)"
proof (rule yields_mono [OF yields_delivers [OF drive_delivers [OF assms]]], clarify)
  fix step c' assume v: "drive c t = Inr (step, c')" and s: "stepped c step c'"
  have "issued_access step = None" if "wake_at step = None"
    using v that by (auto simp: drive_def ebind_eq_Inr split: if_splits option.splits prod.splits)
  with s evolves_stepped [OF s] show "evolves c (served (issued_access step)) c' \<and> wakeup_at c' = wakeup_at c \<and>
      (wake_at step = None \<longrightarrow> held c' = {#} \<and> issued_access step = None)"
    by (simp add: stepped_def confined_def held_def)
qed

lemma schedule_keeps_lively:
  assumes "lively (Suc k) E (X + event_work ev) s" and "unat (event_channel ev) < length (controllers s)"
  shows "yields (\<lambda>s'. lively k E X s' \<and> quiet s s' \<and> controllers s' = controllers s) (schedule_event s t ev)"
  by (rule yields_mono [OF schedule_event_lively [OF assms]]) blast

text \<open>
  The first half of \<open>drive_controller\<close>: an access that was issued makes room, the waiting
  transactions are admitted at once, and the end of the transfer is scheduled.
\<close>

definition after_issue :: "'z client \<Rightarrow> u32 \<Rightarrow> physical_access option \<Rightarrow> 'z system \<Rightarrow> 'z system result" where
  "after_issue cl channel p s = (case p of None \<Rightarrow> Inr s
     | Some issued \<Rightarrow> ebind (pump_admissions s) (\<lambda>s2.
         ebind (schedule_event s2 (pa_completion_time issued) (TransferDone issued channel)) (\<lambda>s3.
         if on_capacity cl = None then Inr s3
         else schedule_event s3 (sys_now s3) (CapacityReady channel (sys_now s3)))))"

lemma drive_controller_parts:
  "drive_controller cl s channel = ebind (with_controller s channel (\<lambda>c. drive c (sys_now s))) (\<lambda>(step, s1).
     ebind (after_issue cl channel (issued_access step) s1) (\<lambda>s4.
     case wake_at step of None \<Rightarrow> Inr s4 | Some t \<Rightarrow> schedule_controller_wake s4 channel t))"
  by (simp add: drive_controller_def after_issue_def)

definition issued_ok :: "nat \<Rightarrow> nat set \<Rightarrow> work \<Rightarrow> 'z system \<Rightarrow> 'z system \<Rightarrow> bool" where
  "issued_ok n E X s s' \<longleftrightarrow> lively n E X s' \<and> system_ok X s' \<and> same_setting s s' \<and> waiting_ok s'"

lemma issued_ok_quiet:
  assumes "issued_ok k E Y a b" and "lively n E X c" and "quiet b c" and "controllers c = controllers b"
  shows "issued_ok n E X a c"
  using assms system_ok_quiet [OF _ livelyD(1) [OF assms(2)] assms(3)]
    same_setting_trans [OF _ same_setting_quiet [OF assms(3)], of a]
  by (auto simp: issued_ok_def waiting_ok_def quiet_def)

lemma announce_capacity_lively:
  assumes ok: "issued_ok (Suc n) E X a s" and i: "unat channel < length (controllers s)"
  shows "yields (issued_ok n E X a) (if on_capacity cl = None then Inr s
      else schedule_event s (sys_now s) (CapacityReady channel (sys_now s)))"
proof (cases "on_capacity cl = None")
  case True
  with ok lively_room [of "Suc n" E X s n] show ?thesis by (simp add: issued_ok_def)
next
  case False
  have "lively (Suc n) E (X + event_work (CapacityReady channel (sys_now s))) s" using ok by (simp add: issued_ok_def)
  from schedule_keeps_lively [OF this] i
  have "yields (\<lambda>s'. lively n E X s' \<and> quiet s s' \<and> controllers s' = controllers s)
      (schedule_event s (sys_now s) (CapacityReady channel (sys_now s)))" by simp
  then have "yields (issued_ok n E X a) (schedule_event s (sys_now s) (CapacityReady channel (sys_now s)))"
    by (rule yields_mono) (blast intro: issued_ok_quiet [OF ok])
  with False show ?thesis by auto
qed

lemma after_issue_lively:
  assumes sys: "system_ok (X + placed (unat channel) (served p)) s"
    and ok: "lively (wake_count s + 2 + n) E (X + placed (unat channel) (served p)) s"
    and time: "time_left s" and wait: "p = None \<longrightarrow> waiting_ok s" and i: "unat channel < length (controllers s)"
  shows "yields (\<lambda>s'. issued_ok n E X s s' \<and> (p = None \<longrightarrow> s' = s)) (after_issue cl channel p s)"
proof (cases p)
  case None
  with sys lively_room [OF ok, of n] wait show ?thesis by (simp add: after_issue_def issued_ok_def)
next
  case (Some x)
  let ?ev = "TransferDone x channel"
  have X: "X + placed (unat channel) (served p) = X + event_work ?ev" by (simp add: Some)
  have pump: "yields (issued_ok (Suc (Suc n)) E (X + event_work ?ev) s) (pump_admissions s)"
  proof (rule yields_mono [OF pump_admissions_lively])
    show "lively (wake_count s + Suc (Suc n)) E (X + event_work ?ev) s" using ok by (simp add: X)
  qed (use sys time in \<open>auto simp: issued_ok_def system_ok_def admitting_iff\<close>)
  have "yields (issued_ok n E X s) (after_issue cl channel (Some x) s)"
    unfolding after_issue_def option.case
  proof (rule yields_bindI [OF pump])
    fix s2 assume s2: "issued_ok (Suc (Suc n)) E (X + event_work ?ev) s s2"
    then have i2: "unat channel < length (controllers s2)" and l2: "lively (Suc (Suc n)) E (X + event_work ?ev) s2"
      using i by (simp_all add: issued_ok_def same_setting_def)
    have "yields (\<lambda>s'. lively (Suc n) E X s' \<and> quiet s2 s' \<and> controllers s' = controllers s2)
        (schedule_event s2 (pa_completion_time x) ?ev)"
      using i2 by (intro schedule_keeps_lively [OF l2]) simp
    then show "yields (issued_ok n E X s) (ebind (schedule_event s2 (pa_completion_time x) ?ev) (\<lambda>s3.
        if on_capacity cl = None then Inr s3 else schedule_event s3 (sys_now s3) (CapacityReady channel (sys_now s3))))"
    proof (rule yields_bindI, elim conjE)
      fix s3 assume s3: "lively (Suc n) E X s3" "quiet s2 s3" "controllers s3 = controllers s2"
      show "yields (issued_ok n E X s) (if on_capacity cl = None then Inr s3
          else schedule_event s3 (sys_now s3) (CapacityReady channel (sys_now s3)))"
        using i2 s3(3) by (intro announce_capacity_lively [OF issued_ok_quiet [OF s2 s3]]) simp
    qed
  qed
  then show ?thesis by (simp add: Some)
qed

text \<open>The second half: the controller asks to be woken again unless nothing is queued.\<close>

lemma drive_controller_lively:
  assumes sys: "system_ok X s" and ok: "lively (wake_count s + 3 + n) {unat channel} X s" and time: "time_left s"
    and wait: "waiting_ok s" and i: "unat channel < length (controllers s)"
  shows "yields (\<lambda>s'. alive n X s' \<and> same_setting s s') (drive_controller cl s channel)" (is "yields ?end _")
proof -
  let ?i = "unat channel" and ?k = "wake_count s + 3 + n"
  let ?Q = "\<lambda>step c'. wake_at step = None \<longrightarrow> held c' = {#} \<and> issued_access step = None"
  have "yields (\<lambda>(step, s'). lively ?k {?i} (X + placed ?i (served (issued_access step))) s' \<and> quiet s s' \<and>
      queued (controllers s') + placed ?i (served (issued_access step)) = queued (controllers s) \<and>
      ?Q step (controllers s' ! ?i)) (with_controller s channel (\<lambda>c. drive c (sys_now s)))"
    using drive_outcome [OF core_ok_channel(1) [OF livelyD(1) [OF ok] i], of "sys_now s"]
    by (intro with_controller_lively [OF ok i]) simp
  then show ?thesis
    unfolding drive_controller_parts
  proof (rule yields_bind2, elim conjE)
    fix step s1
    assume s1: "lively ?k {?i} (X + placed ?i (served (issued_access step))) s1" "quiet s s1"
      "queued (controllers s1) + placed ?i (served (issued_access step)) = queued (controllers s)"
      and idle: "?Q step (controllers s1 ! ?i)"
    note set1 = same_setting_quiet [OF s1(2)]
    have i1: "?i < length (controllers s1)" by (rule same_setting_channel [OF set1 i])
    have "wake_count s1 = wake_count s" using set1 by (simp add: wake_count_def same_setting_def)
    then have l1: "lively (wake_count s1 + 2 + Suc n) {?i} (X + placed ?i (served (issued_access step))) s1"
      using s1(1) by (simp add: numeral_3_eq_3)
    have w1: "issued_access step = None \<longrightarrow> waiting_ok s1"
      using s1(2,3) wait by (auto simp: waiting_ok_def quiet_def)
    have t1: "time_left s1" using time same_setting_time [OF set1] by simp
    from after_issue_lively [OF system_ok_quiet [OF sys livelyD(1) [OF s1(1)] s1(2)] l1 t1 w1 i1, of cl]
    show "yields ?end (case (step, s1) of (step, s1) \<Rightarrow> ebind (after_issue cl channel (issued_access step) s1) (\<lambda>s4.
        case wake_at step of None \<Rightarrow> Inr s4 | Some t \<Rightarrow> schedule_controller_wake s4 channel t))"
      unfolding prod.case
    proof (rule yields_bindI, elim conjE)
      fix s4 assume "issued_ok (Suc n) {?i} X s1 s4" and same: "issued_access step = None \<longrightarrow> s4 = s1"
      then have s4: "lively (Suc n) {?i} X s4" "system_ok X s4" "same_setting s1 s4" "waiting_ok s4"
        by (simp_all add: issued_ok_def)
      note set4 = same_setting_trans [OF set1 s4(3)]
      have i4: "?i < length (controllers s4)" by (rule same_setting_channel [OF s4(3) i1])
      show "yields ?end (case wake_at step of None \<Rightarrow> Inr s4 | Some t \<Rightarrow> schedule_controller_wake s4 channel t)"
      proof (cases "wake_at step")
        case None
        then have "marks_ok ({?i} - {?i}) (controllers s4) (events (sys_queue s4))"
          using idle same s4(1) i4 by (intro marks_ok_settled) (simp_all add: lively_def progress_ok_def)
        then have "lively n {} X s4"
          using lively_room [OF s4(1), of n] by (simp add: lively_def progress_ok_def)
        with None s4(2,4) set4 show ?thesis by (simp add: alive_def)
      next
        case (Some t)
        have "yields (\<lambda>s'. lively n {} X s' \<and> quiet s4 s' \<and> queued (controllers s') = queued (controllers s4))
            (schedule_controller_wake s4 channel t)"
          using schedule_controller_wake_lively [OF s4(1) i4] by simp
        from yields_alive [OF s4(2) this s4(4)] have "yields ?end (schedule_controller_wake s4 channel t)"
          by (rule yields_mono) (use same_setting_trans [OF set4] in blast)
        with Some show ?thesis by simp
      qed
    qed
  qed
qed

section \<open>Clients that leave the system alone\<close>

text \<open>
  The contract of a client whose callbacks work on its own state only: they return, and the system
  is the same afterwards. It gives the contract \<open>hbm_client\<close>.
\<close>

locale passive_client =
  fixes cl :: "'z client"
  assumes passive_completion: "on_completion cl = Some f \<Longrightarrow>
      \<exists>s'. f co s = Inr s' \<and> hbm_system.truncate s' = hbm_system.truncate s"
    and passive_capacity: "on_capacity cl = Some g \<Longrightarrow>
      \<exists>s'. g n s = Inr s' \<and> hbm_system.truncate s' = hbm_system.truncate s"

lemma truncate_fields:
  assumes "hbm_system.truncate s' = hbm_system.truncate s"
  shows "sys_config s' = sys_config s" "sys_queue s' = sys_queue s" "sys_mapper s' = sys_mapper s"
    "sys_stats s' = sys_stats s" "controllers s' = controllers s" "parents s' = parents s"
    "pending_admissions s' = pending_admissions s" "completions s' = completions s"
    "pending_events s' = pending_events s" "next_access_sequence s' = next_access_sequence s"
  using assms by (simp_all add: hbm_system.defs)

lemma keeps_truncate: "system_ok X s \<Longrightarrow> hbm_system.truncate s' = hbm_system.truncate s \<Longrightarrow> keeps X s s'"
  using truncate_fields [of s' s]
  by (simp add: keeps_def system_ok_def core_ok_def counts_ok_def same_setting_def sys_now_def)

sublocale passive_client \<subseteq> hbm_client
proof unfold_locales
  fix f X and s :: "'z system" and co
  assume "on_completion cl = Some f" "system_ok X s"
  with passive_completion [of f co s] keeps_truncate show "timely (keeps X s) (f co s)" by fastforce
next
  fix g X and s :: "'z system" and n
  assume "on_capacity cl = Some g" "system_ok X s"
  with passive_capacity [of g n s] keeps_truncate show "timely (keeps X s) (g n s)" by fastforce
qed

text \<open>What is left of \<open>alive\<close> beside the invariant of the system.\<close>

definition unstuck :: "nat \<Rightarrow> work \<Rightarrow> 'z system \<Rightarrow> bool" where
  "unstuck k X s \<longleftrightarrow> progress_ok {} X s \<and> room k s \<and> waiting_ok s"

lemma alive_unstuck: "alive k X s \<longleftrightarrow> system_ok X s \<and> unstuck k X s"
  by (auto simp: alive_def unstuck_def lively_def system_ok_def)

lemma unstuck_truncate: "hbm_system.truncate s' = hbm_system.truncate s \<Longrightarrow> unstuck k X s' = unstuck k X s"
  using truncate_fields [of s' s] by (simp add: unstuck_def progress_ok_def room_def waiting_ok_def)

lemma complete_access_still:
  "complete_access c a = Inr c' \<Longrightarrow> held c' = held c \<and> wakeup_at c' = wakeup_at c"
  by (auto simp: complete_access_def update_channel_def throw_if_def ebind_eq_Inr held_def Let_def split: if_splits)

lemma unstuck_tally:
  assumes ok: "unstuck k (X + {#(i, p)#}) s" and i: "i < length (controllers s)"
    and c': "held c' = held (controllers s ! i)" "wakeup_at c' = wakeup_at (controllers s ! i)"
    and p: "map_of (parents s) p = Some r" and r': "remaining_accesses r' = remaining_accesses r - 1"
  shows "unstuck k X (tally s i c' p r')"
proof -
  have q: "queued ((controllers s)[i := c']) = queued (controllers s)"
    using queued_served [OF i, of "{#}" c' "{#}"] c'(1) by simp
  have "marks_ok {} ((controllers s)[i := c']) (events (sys_queue s))"
    using ok c' by (intro marks_ok_put [OF _ i]) (simp_all add: unstuck_def progress_ok_def)
  moreover have "work_exact (queued (controllers s) + flight (events (sys_queue s)) + X) (AList.update p r' (parents s))"
    using ok by (intro work_exact_finish [OF _ p r', of i]) (simp add: unstuck_def progress_ok_def)
  ultimately show ?thesis
    using ok by (simp add: unstuck_def progress_ok_def tally_def q room_def waiting_ok_def)
qed

lemma unstuck_retire:
  assumes ok: "unstuck k X s" and "map_of (parents s) p = Some r" and "remaining_accesses r = 0"
  shows "unstuck k X (retire co p s)"
proof -
  have "open_of (AList.delete p (parents s)) q = open_of (parents s) q" for q
    using assms(2,3) by (simp add: open_of_def map_of_delete)
  then have "work_exact W (parents s) \<Longrightarrow> work_exact W (AList.delete p (parents s))" for W
    by (simp add: work_exact_def)
  with ok show ?thesis
    by (simp add: unstuck_def progress_ok_def retire_def room_def waiting_ok_def)
qed

context passive_client begin

lemma client_calls:
  "yields (\<lambda>s'. hbm_system.truncate s' = hbm_system.truncate s) (call_client (on_completion cl) co s)"
  "yields (\<lambda>s'. hbm_system.truncate s' = hbm_system.truncate s) (call_client (on_capacity cl) n s)"
  using passive_completion [of _ co s] passive_capacity [of _ n s]
  by (fastforce simp: call_client_def split: option.split)+

lemma complete_parent_unstuck:
  assumes "unstuck k X s" and p: "map_of (parents s) p = Some r" and "remaining_accesses r = 0"
  shows "yields (unstuck k X) (complete_parent cl s p)"
proof -
  let ?co = "completion_of r"
  note ret = unstuck_retire [OF assms, of ?co]
  have "yields (unstuck k X) (ebind (call_client (on_completion cl) ?co (retire ?co p s)) (\<lambda>s2.
    if on_capacity cl = None then Inr s2 else ebind (list_at (controllers s2) (unat (co_channel ?co))) (\<lambda>c.
      call_client (on_capacity cl) (notify_of s2 (co_channel ?co) c (sys_now s2)) s2)))"
  proof (rule yields_bindI [OF client_calls(1)])
    fix s2 :: "'z system" assume "hbm_system.truncate s2 = hbm_system.truncate (retire ?co p s)"
    then have s2: "unstuck k X s2" using ret by (simp only: unstuck_truncate [of s2 "retire ?co p s"])
    have "yields (unstuck k X) (call_client (on_capacity cl) n s2)" for n
      by (rule yields_mono [OF client_calls(2)]) (simp only: s2 unstuck_truncate [of _ s2])
    then have "yields (unstuck k X) (ebind (list_at (controllers s2) (unat (co_channel ?co))) (\<lambda>c.
        call_client (on_capacity cl) (notify_of s2 (co_channel ?co) c (sys_now s2)) s2))"
      by (rule yields_return)
    with s2 show "yields (unstuck k X) (if on_capacity cl = None then Inr s2 else
      ebind (list_at (controllers s2) (unat (co_channel ?co))) (\<lambda>c.
        call_client (on_capacity cl) (notify_of s2 (co_channel ?co) c (sys_now s2)) s2))"
      by (simp del: not_None_eq)
  qed
  then show ?thesis by (simp add: complete_parent_def p Let_def retire_def)
qed

lemma finish_access_alive:
  assumes ok: "alive k (X + placed (unat channel) {#logical a#}) s" and time: "time_left s"
  shows "yields (\<lambda>s'. alive k X s' \<and> same_setting s s') (finish_access cl s a channel t)"
proof -
  let ?i = "unat channel" and ?p = "la_parent_id a"
  have pl: "placed ?i {#logical a#} = {#(?i, ?p)#}" by (simp add: logical_access.truncate_def)
  have sys: "system_ok (X + {#(?i, ?p)#}) s" and un: "unstuck k (X + {#(?i, ?p)#}) s"
    using ok unfolding pl alive_unstuck by blast+
  have "work_ok (add_mset (?i, ?p) (queued (controllers s) + flight (events (sys_queue s)) + X)) (controllers s) (parents s)"
    using system_ok_core [OF sys] by (simp add: core_ok_def)
  then obtain r where i: "?i < length (controllers s)" and r: "map_of (parents s) ?p = Some r"
    and rem: "remaining_accesses r \<noteq> 0"
    by (rule work_ok_present)
  let ?r = "note_finished a channel t r"
  have "yields (unstuck k X) (ebind (complete_access ((controllers s ! ?i)\<lparr>stats := sys_stats s\<rparr>) a) (\<lambda>c'.
      let s2 = tally s ?i c' ?p ?r in
      if remaining_accesses ?r = 0 \<and> admitted_bytes ?r = tx_size_bytes (pr_transaction ?r)
      then complete_parent cl s2 ?p else Inr s2))"
  proof (rule yields_bindI [where P = "\<lambda>_. True"])
    fix c' assume c': "complete_access ((controllers s ! ?i)\<lparr>stats := sys_stats s\<rparr>) a = Inr c'"
    have tal: "unstuck k X (tally s ?i c' ?p ?r)"
      using complete_access_still [OF c'] by (intro unstuck_tally [OF un i _ _ r]) (simp_all add: held_def)
    have known: "map_of (parents (tally s ?i c' ?p ?r)) ?p = Some ?r" by (simp add: tally_def map_of_update)
    from complete_parent_unstuck [OF tal known] tal
    show "yields (unstuck k X) (let s2 = tally s ?i c' ?p ?r in
      if remaining_accesses ?r = 0 \<and> admitted_bytes ?r = tx_size_bytes (pr_transaction ?r)
      then complete_parent cl s2 ?p else Inr s2)"
      unfolding Let_def by (simp del: note_finished_simps)
  qed (simp add: yields_def)
  then have "yields (unstuck k X) (finish_access cl s a channel t)"
    using r rem by (simp add: finish_access_def do_controller_value [OF i] ebind_assoc tally_def throw_if_def)
  from yields_conj [OF yields_timely [OF finish_access_timely [OF aliveD(1) [OF ok] time]] this]
  show ?thesis by (rule yields_mono) (simp add: keeps_def alive_unstuck)
qed

lemma finish_all_alive:
  "alive k (X + placed (unat channel) (mset (map logical as))) s \<Longrightarrow> time_left s \<Longrightarrow>
   yields (\<lambda>s'. alive k X s' \<and> same_setting s s') (finish_all cl as channel t s)"
proof (induction as arbitrary: s)
  case Nil
  then show ?case by simp
next
  case (Cons a as)
  have "yields (\<lambda>s'. alive k (X + placed (unat channel) (mset (map logical as))) s' \<and> same_setting s s')
      (finish_access cl s a channel t)"
    using Cons.prems by (intro finish_access_alive) (simp_all add: ac_simps)
  then show ?case
    unfolding finish_all.simps
  proof (rule yields_bindI, elim conjE)
    fix s' assume s': "alive k (X + placed (unat channel) (mset (map logical as))) s'" "same_setting s s'"
    have "yields (\<lambda>t. alive k X t \<and> same_setting s' t) (finish_all cl as channel t s')"
      using Cons.IH [OF s'(1)] Cons.prems(2) same_setting_time [OF s'(2)] by simp
    then show "yields (\<lambda>t. alive k X t \<and> same_setting s t) (finish_all cl as channel t s')"
      by (rule yields_mono) (use same_setting_trans [OF s'(2)] in blast)
  qed
qed

end

section \<open>Events\<close>

lemma do_controller_lively:
  assumes ok: "lively k E X s" and i: "unat channel < length (controllers s)"
    and f: "yields (\<lambda>c'. evolves ((controllers s ! unat channel)\<lparr>stats := sys_stats s\<rparr>) {#} c' \<and>
        wakeup_at c' = wakeup_at (controllers s ! unat channel))
      (f ((controllers s ! unat channel)\<lparr>stats := sys_stats s\<rparr>))"
  shows "yields (\<lambda>s'. lively k E X s' \<and> quiet s s' \<and> queued (controllers s') = queued (controllers s))
    (do_controller s channel f)"
  unfolding do_controller_value [OF i]
  by (rule yields_bindI [OF f]) (use put_lively [OF ok i, of "{#}"] in auto)

lemma refresh_due_lively:
  assumes ok: "lively (Suc (Suc n)) {} X s" and i: "unat channel < length (controllers s)"
  shows "yields (\<lambda>s'. lively n {} X s' \<and> quiet s s' \<and> queued (controllers s') = queued (controllers s))
    (ebind (do_controller s channel (\<lambda>c. handle_refresh_event c due)) (\<lambda>s1.
     ebind (schedule_controller_wake s1 channel due) (\<lambda>s2.
     ebind (list_at (controllers s2) (unat channel)) (\<lambda>c.
     if has_outstanding c then schedule_refresh_due s2 channel else Inr s2))))"
    (is "yields (?R s) _")
proof (rule yields_bindI)
  let ?c = "(controllers s ! unat channel)\<lparr>stats := sys_stats s\<rparr>"
  have "yields (refreshed ?c) (handle_refresh_event ?c due)"
    by (rule yields_delivers [OF handle_refresh_event_delivers [OF core_ok_channel(1) [OF livelyD(1) [OF ok] i]]])
  then have "yields (\<lambda>c'. evolves ?c {#} c' \<and> wakeup_at c' = wakeup_at (controllers s ! unat channel)) (handle_refresh_event ?c due)"
    by (rule yields_mono) (simp add: evolves_refreshed, simp add: refreshed_def confined_def)
  then show "yields (\<lambda>s'. lively (Suc (Suc n)) {} X s' \<and> quiet s s' \<and> queued (controllers s') = queued (controllers s))
      (do_controller s channel (\<lambda>c. handle_refresh_event c due))"
    by (rule do_controller_lively [OF ok i])
  fix s1 assume s1: "lively (Suc (Suc n)) {} X s1 \<and> quiet s s1 \<and> queued (controllers s1) = queued (controllers s)"
  then have i1: "unat channel < length (controllers s1)" using i by (simp add: quiet_def)
  have wake: "yields (\<lambda>s'. lively (Suc n) {} X s' \<and> quiet s1 s' \<and> queued (controllers s') = queued (controllers s1))
      (schedule_controller_wake s1 channel due)"
    using schedule_controller_wake_lively [of "Suc n" "{}" X s1 channel due] s1 i1 by simp
  have "yields (?R s1) (ebind (schedule_controller_wake s1 channel due) (\<lambda>s2.
     ebind (list_at (controllers s2) (unat channel)) (\<lambda>c.
     if has_outstanding c then schedule_refresh_due s2 channel else Inr s2)))"
  proof (rule yields_bindI [OF wake], elim conjE)
    fix s2 assume s2: "lively (Suc n) {} X s2" "quiet s1 s2" "queued (controllers s2) = queued (controllers s1)"
    then have i2: "unat channel < length (controllers s2)" using i1 by (simp add: quiet_def)
    have "?R s1 s2" using s2 lively_room [of "Suc n" "{}" X s2 n] by simp
    moreover have "yields (?R s1) (schedule_refresh_due s2 channel)"
      by (rule yields_quiet [OF schedule_refresh_due_lively [OF s2(1) i2] s2(2,3)])
    ultimately show "yields (?R s1) (ebind (list_at (controllers s2) (unat channel)) (\<lambda>c.
        if has_outstanding c then schedule_refresh_due s2 channel else Inr s2))"
      by (intro yields_return) simp
  qed
  then show "yields (?R s) (ebind (schedule_controller_wake s1 channel due) (\<lambda>s2.
     ebind (list_at (controllers s2) (unat channel)) (\<lambda>c.
     if has_outstanding c then schedule_refresh_due s2 channel else Inr s2)))"
    by (rule yields_quiet) (use s1 in simp_all)
qed

text \<open>The system when its next event has been taken off the queue.\<close>

definition popped :: "'z system \<Rightarrow> 'z system" where
  "popped s = (case events (sys_queue s) of [] \<Rightarrow> s
     | x # es \<Rightarrow> s\<lparr>sys_queue := (sys_queue s)\<lparr>events := es, tokens := (tokens (sys_queue s))(ev_token (snd x) := None),
         eq_now := ev_time (snd x)\<rparr>, pending_events := removeAll (fst (ev_callback (snd x))) (pending_events s)\<rparr>)"

lemma system_run_next_popped:
  assumes "events (sys_queue s) = x # es"
  shows "system_run_next cl s =
    ebind (handle_event cl (snd (ev_callback (snd x))) (popped s)) (\<lambda>s'. Inr (True, s'))"
  using assms
  by (cases x; cases "ev_callback (snd x)")
    (simp add: system_run_next_def run_next_def dispatch_one_def pop_event_def popped_def execute_def ebind_assoc)

lemma popped_fields:
  assumes "events (sys_queue s) = x # es"
  shows "controllers (popped s) = controllers s" "parents (popped s) = parents s" "sys_stats (popped s) = sys_stats s"
    "pending_admissions (popped s) = pending_admissions s" "events (sys_queue (popped s)) = es"
    "next_sequence (sys_queue (popped s)) = next_sequence (sys_queue s)" "sys_config (popped s) = sys_config s"
    "hbm_system.more (popped s) = hbm_system.more s"
  using assms by (simp_all add: popped_def)

lemma popped_ok:
  assumes ok: "system_ok {#} s" and es: "events (sys_queue s) = x # es" and time: "next_in_time s"
  shows "system_ok (event_work (snd (ev_callback (snd x)))) (popped s)" "time_left (popped s)"
    "unat (event_channel (snd (ev_callback (snd x)))) < length (controllers (popped s))"
  using ok time es
  by (simp_all add: popped_def system_ok_def core_ok_def events_ok_def counts_ok_def next_in_time_def time_left_def
      sys_now_def ac_simps)

lemma popped_alive:
  assumes ok: "alive k {#} s" and es: "events (sys_queue s) = x # es" and time: "next_in_time s"
    and other: "\<And>channel t. snd (ev_callback (snd x)) \<noteq> Wake channel t"
  shows "alive k (event_work (snd (ev_callback (snd x)))) (popped s)"
proof -
  have "progress_ok {} {#} s" using ok by (simp add: alive_def lively_def)
  then have "progress_ok {} (event_work (snd (ev_callback (snd x)))) (popped s)"
    using marks_ok_pop [OF _ other, of "{}" "controllers s" es]
    by (simp add: progress_ok_def popped_fields [OF es] es numbered_def ac_simps)
  with ok popped_ok(1) [OF aliveD(1) [OF ok] es time] show ?thesis
    by (simp add: alive_unstuck unstuck_def room_def waiting_ok_def popped_fields [OF es])
qed

lemma popped_wake:
  assumes ok: "alive k {#} s" and es: "events (sys_queue s) = x # es" and time: "next_in_time s"
    and x: "snd (ev_callback (snd x)) = Wake channel t"
  shows "yields (\<lambda>s'. lively k {unat channel} {#} s' \<and> quiet (popped s) s' \<and> waiting_ok s')
    (do_controller (popped s) channel (\<lambda>c. Inr (clear_wakeup c t)))"
proof -
  let ?i = "unat channel"
  note sys = popped_ok [OF aliveD(1) [OF ok] es time, unfolded x, simplified]
  have i: "?i < length (controllers s)" using sys(3) by (simp add: popped_fields [OF es])
  let ?c = "(controllers (popped s) ! ?i)\<lparr>stats := sys_stats (popped s)\<rparr>" and ?s = "put_controller (popped s) ?i"
  have core: "core_ok {#} (?s (clear_wakeup ?c t))"
    using core_ok_put [OF system_ok_core [OF sys(1)] sys(3) evolves_clear]
      core_ok_channel(1) [OF system_ok_core [OF sys(1)] sys(3)] by simp
  have h: "held (clear_wakeup ?c t) = held (controllers s ! ?i)"
    by (simp add: clear_wakeup_def held_def popped_fields [OF es])
  then have q: "queued ((controllers s)[?i := clear_wakeup ?c t]) = queued (controllers s)"
    using queued_served [OF i, of "{#}" "clear_wakeup ?c t" "{#}"] by simp
  have prog: "progress_ok {} {#} s" using ok by (simp add: alive_def lively_def)
  then have "marks_ok {?i} ((controllers s)[?i := clear_wakeup ?c t]) es"
    using x i h by (intro marks_ok_woken [where x = x and t = t]) (simp_all add: progress_ok_def es clear_wakeup_def popped_fields [OF es])
  with prog have "progress_ok {?i} {#} (?s (clear_wakeup ?c t))"
    by (simp add: progress_ok_def popped_fields [OF es] es x q [unfolded popped_fields [OF es]] numbered_def)
  with core ok show ?thesis
    using sys(3) by (simp add: do_controller_value lively_def alive_def room_def waiting_ok_def popped_fields [OF es]
        q [unfolded popped_fields [OF es]])
qed

text \<open>The events one step of the system may schedule.\<close>

definition step_count :: "'z system \<Rightarrow> nat" where
  "step_count s = wake_count s + 3"

lemma alive_room: "alive k X s \<Longrightarrow> j \<le> k \<Longrightarrow> alive j X s"
  by (auto simp: alive_def intro: lively_room)

context passive_client begin

lemma handle_event_alive:
  assumes ok: "alive (step_count s + n) {#} s" and es: "events (sys_queue s) = x # es" and time: "next_in_time s"
  shows "yields (alive n {#}) (handle_event cl (snd (ev_callback (snd x))) (popped s))"
proof -
  let ?ev = "snd (ev_callback (snd x))" and ?k = "step_count s + n"
  note sys = popped_ok [OF aliveD(1) [OF ok] es time]
  have lens: "wake_count (popped s) = wake_count s" by (simp add: wake_count_def popped_fields [OF es])
  show ?thesis
  proof (cases ?ev)
    case (Wake channel t)
    note sys' = sys [unfolded Wake, simplified]
    have "yields (alive n {#}) (ebind (do_controller (popped s) channel (\<lambda>c. Inr (clear_wakeup c t))) (\<lambda>s1.
        drive_controller cl s1 channel))"
    proof (rule yields_bindI [OF popped_wake [OF ok es time Wake]], elim conjE)
      fix s1 assume s1: "lively ?k {unat channel} {#} s1" "quiet (popped s) s1" "waiting_ok s1"
      note set = same_setting_quiet [OF s1(2)]
      have "lively (wake_count s1 + 3 + n) {unat channel} {#} s1"
        using s1(1,2) lens by (simp add: step_count_def wake_count_def quiet_def)
      moreover have "time_left s1" using sys(2) same_setting_time [OF set] by simp
      moreover have "unat channel < length (controllers s1)" using sys'(3) s1(2) by (simp add: quiet_def)
      ultimately have "yields (\<lambda>s'. alive n {#} s' \<and> same_setting s1 s') (drive_controller cl s1 channel)"
        using s1(3) by (intro drive_controller_lively system_ok_quiet [OF sys'(1) livelyD(1) [OF s1(1)] s1(2)])
      then show "yields (alive n {#}) (drive_controller cl s1 channel)" by (rule yields_mono) simp
    qed
    then show ?thesis by (simp add: Wake handle_event_def)
  next
    case (RefreshDue channel due)
    note al = popped_alive [OF ok es time, unfolded RefreshDue, simplified]
    have "lively (Suc (Suc n)) {} {#} (popped s)"
      using aliveD(2) [OF al] by (rule lively_room) (simp add: step_count_def)
    from refresh_due_lively [OF this, of channel due] sys(3)
    have "yields (\<lambda>s'. lively n {} {#} s' \<and> quiet (popped s) s' \<and> queued (controllers s') = queued (controllers (popped s)))
        (handle_event cl (RefreshDue channel due) (popped s))" by (simp add: RefreshDue handle_event_def)
    from yields_alive [OF aliveD(1) [OF al] this aliveD(3) [OF al]] show ?thesis
      unfolding RefreshDue by (rule yields_mono) simp
  next
    case (TransferDone p channel)
    have "alive n ({#} + placed (unat channel) (mset (map logical (pa_completions p)))) (popped s)"
      using alive_room [OF popped_alive [OF ok es time, unfolded TransferDone, simplified], of n] by simp
    from finish_all_alive [OF this sys(2)] show ?thesis
      unfolding TransferDone handle_event_def system_event.case by (rule yields_mono) simp
  next
    case (CapacityReady channel t)
    have al: "alive n {#} (popped s)"
      using alive_room [OF popped_alive [OF ok es time, unfolded CapacityReady, simplified], of n] by simp
    have "yields (alive n {#}) (call_client (on_capacity cl) m (popped s))" for m
    proof (rule yields_mono [OF client_calls(2)])
      fix s' :: "'z system" assume t: "hbm_system.truncate s' = hbm_system.truncate (popped s)"
      show "alive n {#} s'"
        using keeps_truncate [OF aliveD(1) [OF al] t] unstuck_truncate [OF t] al
        by (simp add: alive_unstuck keeps_def)
    qed
    then show ?thesis
      unfolding CapacityReady handle_event_def system_event.case by (intro yields_return)
  qed
qed

lemma run_next_alive:
  assumes ok: "alive (step_count s + n) {#} s" and time: "next_in_time s"
  shows "yields (\<lambda>(b, s'). alive n {#} s') (system_run_next cl s)"
proof (cases "events (sys_queue s)")
  case Nil
  with alive_room [OF ok, of n] show ?thesis by (simp add: system_run_next_def run_next_def)
next
  case (Cons x es)
  show ?thesis
    unfolding system_run_next_popped [OF Cons]
    by (rule yields_bindI [OF handle_event_alive [OF ok Cons time]]) simp
qed

end

section \<open>Submission\<close>

lemma enlist_fields:
  "sys_queue (enlist tx s) = sys_queue s" "controllers (enlist tx s) = controllers s"
  by (simp_all add: enlist_def)

lemma enlist_lively:
  assumes ok: "alive k X s" and new: "map_of (parents s) (tx_id tx) = None" and core: "core_ok X (enlist tx s)"
  shows "lively k {} X (enlist tx s)"
proof -
  have "open_of (parents (enlist tx s)) q = open_of (parents s) q" for q
    using new by (simp add: enlist_def open_of_def map_of_update)
  with ok core show ?thesis
    by (simp add: alive_def lively_def progress_ok_def room_def enlist_fields work_exact_def)
qed

lemma reject_submission_alive: "alive k X s \<Longrightarrow> reject_submission s channel = Inr s' \<Longrightarrow> unstuck k X s'"
  by (auto simp: reject_submission_def Let_def ebind_eq_Inr alive_unstuck unstuck_def progress_ok_def room_def waiting_ok_def)

text \<open>The part of \<open>try_submit_now\<close> for a valid transaction.\<close>

definition submit_valid ::
    "'z system \<Rightarrow> hbm_transaction \<Rightarrow> u32 \<Rightarrow> size_t \<Rightarrow> size_t \<Rightarrow> (submit_result \<times> 'z system) result" where
  "submit_valid s tx channel rd wr =
     ebind (if size_of (parents s) \<ge> max_active_transactions (controller (sys_config s)) then Inr False
        else ebind (element (controllers s) (unat channel)) (\<lambda>c. Inr (can_reserve c rd wr))) (\<lambda>room.
      if \<not> room then ebind (reject_submission s channel) (\<lambda>s1. Inr (submit_reply Backpressure 0 ''admission capacity exceeded'', s1))
      else ebind (pump_admissions (enlist tx s)) (\<lambda>s1. Inr (submit_reply Accepted (tx_id tx) '''', s1)))"

lemma try_submit_now_cases [case_names invalid valid]:
  obtains (invalid) r where "try_submit_now s tx = Inr (r, s)" "sr_status r \<noteq> Backpressure" "\<not> accepted r"
  | (valid) rd wr where "tx_size_bytes tx \<noteq> 0" "map_of (parents s) (tx_id tx) = None"
      "\<not> tx_size_bytes tx - 1 > u64_max - tx_address tx"
      "try_submit_now s tx = ebind (next_access s tx 0) (\<lambda>first. submit_valid s tx (a_flat_channel (la_address first)) rd wr)"
      "rd = (if tx_op tx = hbm_op.Read then 1 else 0)" "wr = (if tx_op tx = hbm_op.Read then 0 else 1)"
proof (cases "tx_id tx = 0 \<or> tx_size_bytes tx = 0 \<or> tx_arrival_time tx > sys_now s \<or>
    map_of (parents s) (tx_id tx) \<noteq> None \<or> tx_size_bytes tx - 1 > u64_max - tx_address tx")
  case True
  then have "\<exists>r. try_submit_now s tx = Inr (r, s) \<and> sr_status r \<noteq> Backpressure \<and> \<not> accepted r"
    by (auto simp: try_submit_now_def submit_reply_def accepted_def)
  then show ?thesis using invalid by blast
next
  case False
  then have "try_submit_now s tx = ebind (next_access s tx 0) (\<lambda>first. submit_valid s tx
      (a_flat_channel (la_address first)) (if tx_op tx = hbm_op.Read then 1 else 0) (if tx_op tx = hbm_op.Read then 0 else 1))"
    unfolding try_submit_now_def submit_valid_def Let_def enlist_def by simp
  with False show ?thesis using valid by blast
qed

lemma enlist_pump_unstuck:
  assumes ok: "alive (wake_count s + n) X s" and time: "time_left s"
    and bytes: "active_bytes (parents s) + unat (tx_size_bytes tx) < 2 ^ 64"
    and new: "map_of (parents s) (tx_id tx) = None" and size: "tx_size_bytes tx \<noteq> 0"
    and range: "\<not> tx_size_bytes tx - 1 > u64_max - tx_address tx"
    and room: "size_of (parents s) < max_active_transactions (controller (sys_config s))"
  shows "yields (unstuck n X) (pump_admissions (enlist tx s))"
proof -
  have r: "unat (tx_address tx) + unat (tx_size_bytes tx) \<le> 2 ^ 64" using range submit_range [OF size] by simp
  note e = core_ok_enlist [OF aliveD(1) [OF ok] new size r bytes room]
  have "lively (wake_count (enlist tx s) + n) {} X (enlist tx s)"
    using enlist_lively [OF ok new e(1)] by (simp add: wake_count_def enlist_fields)
  moreover have "time_left (enlist tx s)" using time by (simp add: time_left_def sys_now_def enlist_def)
  moreover have "\<forall>p \<in> set (pending_admissions (enlist tx s)). map_of (parents (enlist tx s)) p \<noteq> None"
    by (auto simp: e(2) [symmetric] admitting_iff)
  ultimately show ?thesis
    using e(2,3) by (intro yields_mono [OF pump_admissions_lively]) (auto simp: unstuck_def lively_def)
qed

lemma submit_valid_unstuck:
  assumes ok: "alive (wake_count s + n) X s" and time: "time_left s"
    and bytes: "active_bytes (parents s) + unat (tx_size_bytes tx) < 2 ^ 64"
    and tx: "map_of (parents s) (tx_id tx) = None" "tx_size_bytes tx \<noteq> 0"
      "\<not> tx_size_bytes tx - 1 > u64_max - tx_address tx"
  shows "yields (\<lambda>(r, s'). unstuck n X s') (submit_valid s tx channel rd wr)" (is "yields ?P _")
  unfolding submit_valid_def
proof (rule yields_bindI [where P = "\<lambda>room. room \<longrightarrow> size_of (parents s) < max_active_transactions (controller (sys_config s))"])
  fix room assume r: "room \<longrightarrow> size_of (parents s) < max_active_transactions (controller (sys_config s))"
  show "yields ?P (if \<not> room then ebind (reject_submission s channel) (\<lambda>s1. Inr (submit_reply Backpressure 0 ''admission capacity exceeded'', s1))
      else ebind (pump_admissions (enlist tx s)) (\<lambda>s1. Inr (submit_reply Accepted (tx_id tx) '''', s1)))"
  proof (cases room)
    case True
    then have "yields (unstuck n X) (pump_admissions (enlist tx s))"
      using r by (intro enlist_pump_unstuck [OF ok time bytes tx]) simp
    then have "yields ?P (ebind (pump_admissions (enlist tx s)) (\<lambda>s1. Inr (submit_reply Accepted (tx_id tx) '''', s1)))"
      by (rule yields_bindI) simp
    with True show ?thesis by simp
  next
    case False
    have "yields (unstuck n X) (reject_submission s channel)"
      using reject_submission_alive [OF alive_room [OF ok, of n]] by (simp add: yields_def)
    then have "yields ?P (ebind (reject_submission s channel) (\<lambda>s1. Inr (submit_reply Backpressure 0 ''admission capacity exceeded'', s1)))"
      by (rule yields_bindI) simp
    with False show ?thesis by simp
  qed
qed (auto simp: yields_def ebind_eq_Inr)

lemma try_submit_now_alive:
  assumes ok: "alive (wake_count s + n) X s" and time: "time_left s"
    and bytes: "active_bytes (parents s) + unat (tx_size_bytes tx) < 2 ^ 64"
  shows "yields (\<lambda>(r, s'). alive n X s') (try_submit_now s tx)"
proof -
  have "yields (\<lambda>(r, s'). unstuck n X s') (try_submit_now s tx)"
  proof (cases rule: try_submit_now_cases [of s tx])
    case (invalid r)
    then show ?thesis using alive_room [OF ok, of n] by (simp add: alive_unstuck)
  next
    case (valid rd wr)
    show ?thesis
      unfolding valid(4) by (intro yields_return submit_valid_unstuck [OF ok time bytes] valid(1-3))
  qed
  from yields_conj [OF yields_timely [OF try_submit_now_timely [OF aliveD(1) [OF ok] time bytes]] this]
  show ?thesis by (rule yields_mono) (auto simp: alive_unstuck)
qed

section \<open>A system with work has an event\<close>

lemma alive_make:
  assumes "system_ok {#} s" and "events (sys_queue s) = []" and "parents s = []" and "queued (controllers s) = {#}"
    and "\<And>c. c \<in> set (controllers s) \<Longrightarrow> wakeup_at c = None" and "room k s"
  shows "alive k {#} s"
proof -
  have "held (controllers s ! i) = {#}" if "i < length (controllers s)" for i
    using queued_held [OF that] assms(4) by blast
  moreover have "admitting (parents s) = {}" by (simp add: assms(3) admitting_def)
  then have "pending_admissions s = []" using assms(1) by (simp add: system_ok_def)
  ultimately show ?thesis
    using assms by (simp add: alive_unstuck unstuck_def progress_ok_def marks_ok_def marked_ok_def work_exact_def
        open_of_def numbered_def waiting_ok_def)
qed

lemma alive_has_event:
  assumes ok: "alive k {#} s" and act: "parents s \<noteq> []"
  shows "events (sys_queue s) \<noteq> []"
proof
  assume none: "events (sys_queue s) = []"
  have prog: "progress_ok {} {#} s" and core: "core_ok {#} s" using ok by (simp_all add: alive_def lively_def)
  have "held (controllers s ! i) = {#}" if "i < length (controllers s)" for i
    using prog that by (auto simp: progress_ok_def marks_ok_def marked_ok_def none wake_in_def)
  then have idle: "queued (controllers s) = {#}" using queued_obtain by metis
  then have pend: "pending_admissions s = []" using ok by (simp add: alive_def waiting_ok_def)
  obtain p r where "(p, r) \<in> set (parents s)" using act by (cases "parents s") auto
  moreover have "distinct (map fst (parents s))" using core by (simp add: core_ok_def requests_ok_def)
  ultimately have r: "map_of (parents s) p = Some r" by simp
  have "open_of (parents s) p = 0"
    using prog by (simp add: progress_ok_def work_exact_def none idle)
  then have "remaining_accesses r = 0" by (simp add: open_of_def r unat_eq_0)
  then have "admitted_bytes r \<noteq> tx_size_bytes (pr_transaction r)" "admitted_bytes r \<le> tx_size_bytes (pr_transaction r)"
    using core_ok_request [OF core r] by (simp_all add: request_ok_def Let_def)
  then have "p \<in> admitting (parents s)" using r by (auto simp: admitting_iff order_less_le)
  with aliveD(1) [OF ok] pend show False by (simp add: system_ok_def)
qed

section \<open>Reachable states\<close>

text \<open>
  As \<open>reaches\<close>, while the sequence numbers of the event queue last: no step schedules
  \<open>2 ^ 34\<close> events, since there are fewer than \<open>2 ^ 32\<close> channels.
\<close>

definition sequence_left :: "'z system \<Rightarrow> bool" where
  "sequence_left s \<longleftrightarrow> room (2 ^ 34) s"

inductive progresses :: "'z client \<Rightarrow> 'z system \<Rightarrow> 'z system \<Rightarrow> bool" for cl :: "'z client" and s0 :: "'z system"
where
  progress_start: "progresses cl s0 s0"
| progress_submit: "progresses cl s0 s \<Longrightarrow> time_left s \<Longrightarrow> sequence_left s \<Longrightarrow>
    active_bytes (parents s) + unat (tx_size_bytes tx) < 2 ^ 64 \<Longrightarrow> try_submit_now s tx = Inr (r, s') \<Longrightarrow>
    progresses cl s0 s'"
| progress_event: "progresses cl s0 s \<Longrightarrow> next_in_time s \<Longrightarrow> sequence_left s \<Longrightarrow>
    system_run_next cl s = Inr (b, s') \<Longrightarrow> progresses cl s0 s'"
| progress_wait: "progresses cl s0 s \<Longrightarrow> progresses cl s0 (s\<lparr>sys_queue := (sys_queue s)\<lparr>eq_now := t\<rparr>\<rparr>)"
| progress_client: "progresses cl s0 s \<Longrightarrow> progresses cl s0 (hbm_system.more_update f s)"

inductive_cases progresses_cases: "progresses cl s0 s"

lemma progresses_reaches: "progresses cl s0 s \<Longrightarrow> reaches cl s0 s"
  by (induction rule: progresses.induct) (auto intro: reaches.intros)

lemma step_count_bound: "core_ok X s \<Longrightarrow> step_count s \<le> 2 ^ 34"
  using unat_u32_lt [of "channel_count (m_topology (sys_mapper s))"] core_ok_controllers [of X s]
  by (simp add: step_count_def wake_count_def)

lemma alive_sequence: "alive 0 X s \<Longrightarrow> sequence_left s \<Longrightarrow> alive (step_count s) X s \<and> alive (wake_count s) X s"
  using step_count_bound [of X s] room_mono [of "2 ^ 34" s]
  by (simp add: alive_def lively_def sequence_left_def step_count_def)

lemma alive_clock [simp]: "alive k X (s\<lparr>sys_queue := (sys_queue s)\<lparr>eq_now := t\<rparr>\<rparr>) = alive k X s"
  by (simp add: alive_unstuck unstuck_def progress_ok_def room_def waiting_ok_def)

lemma alive_more [simp]: "alive k X (hbm_system.more_update f s) = alive k X s"
  by (simp add: alive_unstuck unstuck_def progress_ok_def room_def waiting_ok_def)

lemma alive_extend [simp]: "alive k X (hbm_system.extend s w) = alive k X s"
proof -
  have "unstuck k X (hbm_system.extend s w) = unstuck k X s"
    by (simp add: unstuck_def progress_ok_def room_def waiting_ok_def hbm_system.defs)
  then show ?thesis by (simp add: alive_unstuck)
qed

context passive_client begin

lemma progresses_alive: "progresses cl s0 s \<Longrightarrow> alive 0 {#} s0 \<Longrightarrow> alive 0 {#} s"
proof (induction rule: progresses.induct)
  case (progress_submit s tx r s')
  then show ?case
    using yieldsD [OF try_submit_now_alive [of s 0 "{#}" tx]] alive_sequence [of "{#}" s] by auto
next
  case (progress_event s b s')
  then show ?case
    using yieldsD [OF run_next_alive [of s 0]] alive_sequence [of "{#}" s] by auto
qed simp_all

end

lemma make_system_alive:
  assumes make: "make_system cfg q = Inr s" and "layout_ok (sys_mapper s)" and "events q = []"
  shows "alive 0 {#} s"
proof (rule alive_make)
  show "system_ok {#} s" by (rule make_system_Inr [OF assms])
  have parts: "parents s = []" "sys_queue s = q" "\<forall>c \<in> set (controllers s). wakeup_at c = None \<and> held c = {#}"
    using make by (auto simp: make_system_def Let_def ebind_eq_Inr make_controller_def held_def split: if_splits)
  then show "events (sys_queue s) = []" "parents s = []" "\<And>c. c \<in> set (controllers s) \<Longrightarrow> wakeup_at c = None"
    using assms(3) by simp_all
  have "held (controllers s ! i) = {#}" if "i < length (controllers s)" for i
    using parts(3) nth_mem [OF that] by blast
  then show "queued (controllers s) = {#}" using queued_obtain by metis
  show "room 0 s" by (simp add: room_def unat_u64_lt [simplified])
qed

interpretation silent_passive: passive_client silent_client
  by unfold_locales (simp_all add: silent_client_def)

end
