(* ===== verification/System_Properties.thy ===== *)
theory System_Properties
  imports System_Liveness
begin

text \<open>
  The properties of the configuration and of the system: validation, construction, the splitting
  of transactions into accesses, submission and completion.
\<close>

section \<open>Configuration\<close>



definition wrapping_config :: hbm_config where
  "wrapping_config = default_config\<lparr>device := device_custom\<lparr>ds_organization :=
     (ds_organization device_custom)\<lparr>topology :=
       default_topology\<lparr>stacks := 0x10000, channels_per_stack := 0x10000\<rparr>\<rparr>\<rparr>\<rparr>"

lemma wrapping_config_organization:
  "device_organization (device wrapping_config) = (ds_organization device_custom)\<lparr>topology :=
     default_topology\<lparr>stacks := 0x10000, channels_per_stack := 0x10000\<rparr>\<rparr>"
  by (simp add: wrapping_config_def device_organization_def device_custom_def default_device_def)

text \<open>
  C38. Validation does not look at the product of the dimensions: with 65536 stacks of 65536
  channels the 32-bit channel count wraps to zero, the configuration is accepted, and the
  constructor divides by zero.
\<close>

theorem wrapped_channel_count_divides_by_zero:
  "config_validate wrapping_config = Inr () \<and>
   make_system wrapping_config empty_queue = Inl (UndefinedBehaviour ''division by zero'')"
proof -
  have valid: "config_validate wrapping_config = Inr ()"
    using profiles_validate(1) unfolding config_validate_ok wrapping_config_organization
    by (simp add: Let_def wrapping_config_def default_config_def default_controller_config_def
        default_simulation_config_def device_organization_def topology_validate_def
        default_topology_def device_custom_def default_device_def)
  have count: "channel_count (default_topology\<lparr>stacks := 0x10000, channels_per_stack := 0x10000\<rparr>) = 0"
    by (simp add: channel_count_def)
  have "\<exists>m. make_address_mapper (topology (device_organization (device wrapping_config)))
      (address_interleave_bytes (device_organization (device wrapping_config)))
      (columns_per_row (device_organization (device wrapping_config)))
      (rows_per_bank (device_organization (device wrapping_config)))
      (address_mapping (device_organization (device wrapping_config))) = Inr m"
    by (simp add: wrapping_config_organization make_address_mapper_def topology_validate_def
        default_topology_def device_custom_def default_device_def)
  then show ?thesis
    using valid by (auto simp: make_system_def Let_def wrapping_config_organization count)
qed

section \<open>Accesses\<close>

text \<open>
  C12. \<open>next_access\<close> ends and returns a nonempty part of the transaction that starts at the
  offset, respects the access granularity and lies in one row of one bank.
\<close>

theorem next_access_one_row:
  assumes "split_config_ok (sys_config s) (sys_mapper s)" and "offset < tx_size_bytes tx"
    and "unat (tx_address tx) + unat (tx_size_bytes tx) \<le> 2 ^ 64"
  shows "\<exists>g. next_access s tx offset = Inr g \<and> la_byte_address g = tx_address tx + offset \<and>
    0 < unat (la_size_bytes g) \<and> unat offset + unat (la_size_bytes g) \<le> unat (tx_size_bytes tx) \<and>
    la_size_bytes g \<le> max_group_bytes (sys_config s) \<and>
    (\<forall>d < la_size_bytes g. \<exists>r. map_address (sys_mapper s) (tx_address tx + offset + d) = Inr r \<and>
      same_resource (la_address g) r)"
  using next_access_ends [OF assms] group_ok_start(1) by (fastforce simp: group_ok_def unat_gt_0)

lemma hbm4_system:
  obtains s where "make_system hbm4_8000 empty_queue = Inr s" "system_ok {#} s" "layout_ok (sys_mapper s)"
    "split_config_ok (sys_config s) (sys_mapper s)" "sys_config s = hbm4_8000" "sys_queue s = empty_queue"
    "parents s = []"
  using profile_systems [of hbm4_8000] setup_okD(1) by (auto simp: system_ok_def core_ok_def)

definition sample_transaction :: hbm_transaction where
  "sample_transaction = \<lparr>tx_id = 1, tx_op = hbm_op.Read, tx_address = 0x1010, tx_size_bytes = 200,
     tx_arrival_time = 0, tx_client = 0, tx_metadata = default_metadata\<rparr>"

theorem next_access_one_row_witness:
  "\<exists>s g. make_system hbm4_8000 empty_queue = Inr s \<and> next_access s sample_transaction 48 = Inr g \<and>
     la_byte_address g = 0x1040"
proof -
  obtain s where s: "make_system hbm4_8000 empty_queue = Inr s" "split_config_ok (sys_config s) (sys_mapper s)"
    by (rule hbm4_system)
  show ?thesis
    using next_access_one_row [OF s(2), of 48 sample_transaction] s(1) by (auto simp: sample_transaction_def)
qed

text \<open>
  C9. Starting each access where the previous one ended splits a transaction into accesses that
  cover each of its bytes exactly once, in order.
\<close>

theorem accesses_partition_transaction:
  assumes "split_config_ok (sys_config s) (sys_mapper s)"
    and "unat (tx_address tx) + unat (tx_size_bytes tx) \<le> 2 ^ 64"
  shows "\<exists>gs. splits s tx 0 gs \<and> (\<forall>hs. splits s tx 0 hs \<longrightarrow> hs = gs) \<and> concat (map bytes_of gs) =
    [unat (tx_address tx)..<unat (tx_address tx) + unat (tx_size_bytes tx)]"
  using splits_partition [OF assms, of 0] splits_unique [of s tx 0] by auto

theorem accesses_partition_transaction_witness:
  "\<exists>s gs. make_system hbm4_8000 empty_queue = Inr s \<and> splits s sample_transaction 0 gs \<and>
     concat (map bytes_of gs) = [4112..<4312]"
proof -
  obtain s where s: "make_system hbm4_8000 empty_queue = Inr s" "split_config_ok (sys_config s) (sys_mapper s)"
    by (rule hbm4_system)
  show ?thesis
    using accesses_partition_transaction [OF s(2), of sample_transaction] s(1)
    by (auto simp: sample_transaction_def)
qed

section \<open>All reachable states\<close>

text \<open>
  C6. Whatever a client that keeps the contract does, and in whatever order it submits and runs
  events, the system stays sound: its controllers satisfy their invariant, and the work in the
  queues and in flight agrees with the counts of the controllers and of the transactions.
\<close>

theorem reachable_states_sound:
  assumes "make_system cfg q = Inr s0" and "layout_ok (sys_mapper s0)" and "events q = []"
    and "hbm_client cl" and "reaches cl (hbm_system.extend s0 w) s"
  shows "system_ok {#} s"
  using hbm_client.reaches_ok [OF assms(4,5)] make_system_Inr [OF assms(1-3)] by simp

text \<open>One submission from the fresh system.\<close>

lemma sample_submitted:
  obtains s0 where "make_system hbm4_8000 empty_queue = Inr s0" "layout_ok (sys_mapper s0)"
    "time_left s0" "parents s0 = []" "sys_queue s0 = empty_queue" "sys_config s0 = hbm4_8000"
proof (rule hbm4_system)
  fix s assume "make_system hbm4_8000 empty_queue = Inr s" "layout_ok (sys_mapper s)" "sys_config s = hbm4_8000"
    "sys_queue s = empty_queue" "parents s = []"
  then show thesis
    using that unat_u64_lt by (simp add: time_left_def sys_now_def empty_queue_def)
qed

theorem reachable_states_sound_witness:
  "\<exists>s0. make_system hbm4_8000 empty_queue = Inr s0 \<and>
     system_ok {#} ((hbm_system.extend s0 ())\<lparr>sys_queue := (sys_queue s0)\<lparr>eq_now := 5\<rparr>\<rparr>)"
proof -
  obtain s0 where s0: "make_system hbm4_8000 empty_queue = Inr s0" "layout_ok (sys_mapper s0)"
    by (rule hbm4_system)
  from reachable_states_sound [OF s0 events_empty closed_loop.hbm_client_axioms
      reach_wait [OF reach_start [of closed_loop_client "hbm_system.extend s0 ()"], of 5]] s0(1)
  show ?thesis by (auto simp: hbm_system.defs)
qed





text \<open>
  C10. In every reachable state each transaction that was accepted is active or completed, the
  active ones are no more than the configuration allows, and the retained completions are those
  that were counted.
\<close>

theorem transactions_conserved:
  assumes "make_system cfg q = Inr s0" and "layout_ok (sys_mapper s0)" and "events q = []"
    and "hbm_client cl" and "reaches cl (hbm_system.extend s0 w) s"
  shows "submitted_transactions (sys_stats s) = completed_transactions (sys_stats s) + active_request_count s \<and>
    active_request_count s \<le> max_active_transactions (controller (sys_config s)) \<and>
    (retain_completions (simulation (sys_config s)) \<longrightarrow>
      completed_transactions (sys_stats s) = size_of (completions s))"
proof -
  have ok: "system_ok {#} s"
    using hbm_client.reaches_ok [OF assms(4,5)] make_system_Inr [OF assms(1-3)] by simp
  then have "length (parents s) \<le> unat (max_active_transactions (controller (sys_config s)))"
    by (simp add: system_ok_def core_ok_def counts_ok_def)
  moreover from this have "unat (size_of (parents s)) = length (parents s)"
    using unat_u64_lt [of "max_active_transactions (controller (sys_config s))"] by (intro unat_size_of) linarith
  ultimately show ?thesis
    using ok by (simp add: system_ok_def core_ok_def counts_ok_def active_request_count_def word_le_nat_alt)
qed

theorem transactions_conserved_witness:
  "\<exists>s0. make_system hbm4_8000 empty_queue = Inr s0 \<and>
     submitted_transactions (sys_stats s0) = completed_transactions (sys_stats s0) + active_request_count s0"
proof -
  obtain s0 where s0: "make_system hbm4_8000 empty_queue = Inr s0" "layout_ok (sys_mapper s0)"
    by (rule hbm4_system)
  from transactions_conserved [OF s0 events_empty silent.hbm_client_axioms reach_start, of "()"] s0(1)
  show ?thesis by (auto simp: hbm_system.defs active_request_count_def)
qed

text \<open>
  C7. The system does not come to rest with work left: in every reachable state with an active
  transaction the event queue has an event, provided the client only watches and the sequence
  numbers of the queue last.
\<close>

theorem active_system_has_event:
  assumes "make_system cfg q = Inr s0" and "layout_ok (sys_mapper s0)" and "events q = []"
    and "passive_client cl" and "progresses cl (hbm_system.extend s0 w) s" and "parents s \<noteq> []"
  shows "events (sys_queue s) \<noteq> []"
  using passive_client.progresses_alive [OF assms(4,5)] make_system_alive [OF assms(1-3)]
    alive_has_event [OF _ assms(6)]
  by simp

text \<open>A submission evaluated: one access of 20 bytes is under way.\<close>

definition small_transaction :: hbm_transaction where
  "small_transaction = sample_transaction\<lparr>tx_size_bytes := 20\<rparr>"

lemma small_transaction_submitted:
  "case make_system hbm4_8000 empty_queue of Inl e \<Rightarrow> False | Inr s \<Rightarrow>
     (case try_submit_now s small_transaction of Inl e \<Rightarrow> False | Inr (r, s') \<Rightarrow>
       accepted r \<and> map fst (parents s') = [1] \<and> pending_admissions s' = [])"
  by code_simp

theorem active_system_has_event_witness:
  "\<exists>s0 x s. make_system hbm4_8000 empty_queue = Inr s0 \<and> try_submit_now s0 small_transaction = Inr (x, s) \<and>
     parents s \<noteq> [] \<and> events (sys_queue s) \<noteq> []"
proof -
  obtain s0 where s0: "make_system hbm4_8000 empty_queue = Inr s0" "layout_ok (sys_mapper s0)"
    "time_left s0" "parents s0 = []" "sys_queue s0 = empty_queue"
    by (rule sample_submitted)
  with small_transaction_submitted obtain x s where s: "try_submit_now s0 small_transaction = Inr (x, s)"
    "map fst (parents s) = [1]"
    by (auto split: sum.splits)
  have "sequence_left s0" by (simp add: sequence_left_def room_def s0(5) empty_queue_def)
  then have "progresses silent_client s0 s"
    using s0(4) by (intro progress_submit [OF progress_start s0(3) _ _ s(1)])
      (simp_all add: active_bytes_def small_transaction_def sample_transaction_def)
  then have "progresses silent_client (hbm_system.extend s0 ()) s" by simp
  moreover have "parents s \<noteq> []" using s(2) by auto
  ultimately show ?thesis
    using active_system_has_event [OF s0(1,2) events_empty silent_passive.passive_client_axioms, of "()" s] s0(1) s(1)
    by blast
qed

end
