(* ===== verification/Trace_Driver.thy ===== *)
theory Trace_Driver
  imports System_Reach
begin

text \<open>
  \<^verbatim>\<open>src/main.cpp\<close>: the command line, the reader of trace files, the client that replays a
  trace against a system, retrying on backpressure, and its reports. The text of the files and of
  the standard streams are strings; opening a file is left out. \<^verbatim>\<open>std::getline\<close> and
  \<^verbatim>\<open>std::stoull\<close> are modelled as the C++ standard describes them.
\<close>

section \<open>Reading\<close>

lemma length_drop_until: "length (drop 1 (dropWhile P xs)) \<le> length xs"
  by (simp add: le_diff_conv le_SucI length_dropWhile_le)

text \<open>
  \<^verbatim>\<open>while (std::getline(stream, field, delimiter))\<close>: the parts of a text; nothing follows a
  delimiter at its end.
\<close>

function getlines :: "char \<Rightarrow> string \<Rightarrow> string list" where
  "getlines d [] = []"
| "getlines d (c # cs) = takeWhile (\<lambda>x. x \<noteq> d) (c # cs) #
     getlines d (drop 1 (dropWhile (\<lambda>x. x \<noteq> d) (c # cs)))"
  by pat_completeness auto

termination
  by (relation "measure (\<lambda>(d, s). length s)") (auto simp: less_Suc_eq_le length_drop_until [simplified])

definition split_csv :: "string \<Rightarrow> string list" where
  "split_csv line = getlines (CHR '','') line"

definition digit_value :: "char \<Rightarrow> nat option" where
  "digit_value c = (let n = of_char c :: nat in
     if 48 \<le> n \<and> n \<le> 57 then Some (n - 48)
     else if 97 \<le> n \<and> n \<le> 122 then Some (n - 87)
     else if 65 \<le> n \<and> n \<le> 90 then Some (n - 55)
     else None)"

definition is_digit :: "nat \<Rightarrow> char \<Rightarrow> bool" where
  "is_digit base c = (case digit_value c of None \<Rightarrow> False | Some v \<Rightarrow> v < base)"

definition digits_value :: "nat \<Rightarrow> string \<Rightarrow> nat" where
  "digits_value base ds = foldl (\<lambda>n c. n * base + (case digit_value c of None \<Rightarrow> 0 | Some v \<Rightarrow> v)) 0 ds"

definition is_space :: "char \<Rightarrow> bool" where
  "is_space c = (let n = of_char c :: nat in n = 32 \<or> 9 \<le> n \<and> n \<le> 13)"

text \<open>The base and the digits: \<^verbatim>\<open>0x\<close> before a hexadecimal digit, \<^verbatim>\<open>0\<close>, or decimal.\<close>

definition number_base :: "string \<Rightarrow> nat \<times> string" where
  "number_base cs =
     (if cs = [] \<or> hd cs \<noteq> CHR ''0'' then (10, cs)
      else case tl cs of
        x # c # ds \<Rightarrow> if (x = CHR ''x'' \<or> x = CHR ''X'') \<and> is_digit 16 c then (16, c # ds) else (8, cs)
      | _ \<Rightarrow> (8, cs))"

text \<open>
  \<^verbatim>\<open>std::stoull(value, &consumed, 0)\<close>: blanks, a sign, and the longest run of digits; what
  follows is not looked at. A minus sign negates modulo \<open>2 ^ 64\<close>.
\<close>

definition parse_u64 :: "string \<Rightarrow> u64 result" where
  "parse_u64 text =
     (let s = dropWhile is_space text;
          negative = (s \<noteq> [] \<and> hd s = CHR ''-'');
          unsigned = (if s \<noteq> [] \<and> (hd s = CHR ''-'' \<or> hd s = CHR ''+'') then tl s else s);
          (base, cs) = number_base unsigned;
          ds = takeWhile (is_digit base) cs;
          n = digits_value base ds
      in if ds = [] then Inl (InvalidArgument ''stoull'')
         else if 2 ^ 64 \<le> n then Inl (OutOfRange ''stoull'')
         else Inr (if negative then - word_of_nat n else word_of_nat n))"

text \<open>One row of a trace; the fields are read in the order of the braced initializer.\<close>

definition parse_row :: "transaction_id \<Rightarrow> string \<Rightarrow> hbm_transaction result" where
  "parse_row tid line =
     (let fields = split_csv line in
      if length fields < 4 \<or> length fields > 5 then Inl (RuntimeError ''expected 4 or 5 CSV columns'')
      else
      ebind (if fields ! 1 = ''READ'' \<or> fields ! 1 = ''read'' then Inr hbm_op.Read
        else if fields ! 1 = ''WRITE'' \<or> fields ! 1 = ''write'' then Inr hbm_op.Write
        else Inl (RuntimeError ''op must be READ or WRITE'')) (\<lambda>op.
      ebind (parse_u64 (fields ! 2)) (\<lambda>address.
      ebind (parse_u64 (fields ! 3)) (\<lambda>bytes.
      ebind (parse_u64 (fields ! 0)) (\<lambda>arrival.
      ebind (if length fields = 5 then ebind (parse_u64 (fields ! 4)) (\<lambda>c. Inr (ucast c)) else Inr 0) (\<lambda>source.
      Inr \<lparr>tx_id = tid, tx_op = op, tx_address = address, tx_size_bytes = bytes,
        tx_arrival_time = arrival, tx_client = source, tx_metadata = default_metadata\<rparr>))))))"

section \<open>The command line\<close>

record options =
  opt_completions :: string
  opt_config :: hbm_config
  opt_queue_capacity :: "size_t option"

definition default_options :: options where
  "default_options = \<lparr>opt_completions = [], opt_config = default_config, opt_queue_capacity = None\<rparr>"

text \<open>\<open>Inl\<close> in the value is a message on \<^verbatim>\<open>std::cerr\<close> and the exit code 2.\<close>

fun parse_options :: "string list \<Rightarrow> options \<Rightarrow> (string + options) result" where
  "parse_options [] opts = Inr (Inr opts)"
| "parse_options [opt] opts = Inr (Inl (''option '' @ opt @ '' requires a value''))"
| "parse_options (opt # arg # args) opts =
     (if opt = ''--completions'' then parse_options args (opts\<lparr>opt_completions := arg\<rparr>)
      else if opt = ''--queue-capacity'' then
        ebind (parse_u64 arg) (\<lambda>n. parse_options args (opts\<lparr>opt_queue_capacity := Some n\<rparr>))
      else if opt = ''--profile'' then
        (if arg = ''hbm2_2000'' then parse_options args (opts\<lparr>opt_config := hbm2_2000\<rparr>)
         else if arg = ''hbm3_6400'' then parse_options args (opts\<lparr>opt_config := hbm3_6400\<rparr>)
         else Inr (Inl (''unknown profile: '' @ arg)))
      else Inr (Inl (''unknown option: '' @ opt)))"

definition run_config :: "options \<Rightarrow> hbm_config" where
  "run_config opts = (case opt_queue_capacity opts of
     None \<Rightarrow> opt_config opts
   | Some n \<Rightarrow> (opt_config opts)\<lparr>controller := (controller (opt_config opts))
       \<lparr>read_queue_capacity := n, write_queue_capacity := n\<rparr>\<rparr>)"

section \<open>Writing\<close>

fun decimal :: "nat \<Rightarrow> string" where
  "decimal n = (if n div 10 = 0 then [] else decimal (n div 10)) @ [char_of (n mod 10 + 48)]"

declare decimal.simps [simp del]

definition number :: "u64 \<Rightarrow> string" where
  "number n = decimal (unat n)"

fun join_csv :: "string list \<Rightarrow> string" where
  "join_csv [] = []"
| "join_csv [f] = f"
| "join_csv (f # fs) = f @ CHR '','' # join_csv fs"

fun class_index :: "traffic_class \<Rightarrow> nat" where
  "class_index Demand = 0"
| "class_index Prefetch = 1"
| "class_index Fill = 2"
| "class_index Writeback = 3"
| "class_index Background = 4"

fun class_name :: "hbm_access_class \<Rightarrow> string" where
  "class_name RowHit = ''row_hit''"
| "class_name RowClosed = ''row_closed''"
| "class_name RowConflict = ''row_conflict''"

definition completion_header :: string where
  "completion_header =
     ''id,op,address,size_bytes,channel,arrival_ps,completion_ps,latency_ps,access_class,'' @
     ''queue_wait_ps,command_phase_ps,data_ready_ps,data_bus_wait_ps,data_service_ps,'' @
     ''traffic_class,priority,opaque_tag,ordering_domain''"

definition completion_line :: "hbm_completion \<Rightarrow> string" where
  "completion_line co = (let l = co_latency_breakdown co; m = co_metadata co in join_csv
     [number (co_id co), if co_op co = hbm_op.Read then ''READ'' else ''WRITE'', number (co_address co),
      number (co_size_bytes co), decimal (unat (co_channel co)), number (co_arrival_time co),
      number (co_completion_time co), number (co_latency co), class_name (co_access_class co),
      number (queue_wait l), number (command_phase l), number (data_ready l),
      number (data_bus_wait l), number (data_service l), decimal (class_index (traffic_class m)),
      decimal (unat (priority m)), number (opaque_tag m), decimal (unat (ordering_domain m))])"

text \<open>\<^verbatim>\<open>name << ',' << value << '\n'\<close>, and the lines of a text.\<close>

definition counter_line :: "string \<Rightarrow> u64 \<Rightarrow> string" where
  "counter_line label n = label @ CHR '','' # number n"

definition print_lines :: "string list \<Rightarrow> string" where
  "print_lines ls = concat (map (\<lambda>l. l @ [CHR 0x0A]) ls)"

definition stats_lines :: "hbm_stats \<Rightarrow> string list" where
  "stats_lines st =
     [counter_line ''completed_transactions'' (completed_transactions st),
      counter_line ''modeled_accesses'' (modeled_accesses st),
      counter_line ''physical_accesses'' (physical_accesses st),
      counter_line ''physical_read_bytes'' (physical_read_bytes st),
      counter_line ''physical_write_bytes'' (physical_write_bytes st),
      counter_line ''issued_commands'' (issued_commands st),
      counter_line ''read_bytes'' (read_bytes st),
      counter_line ''write_bytes'' (write_bytes st),
      counter_line ''row_hits'' (row_hits st),
      counter_line ''row_closed'' (row_closed st),
      counter_line ''row_conflicts'' (row_conflicts st),
      counter_line ''act_commands'' (act_commands st),
      counter_line ''pre_commands'' (pre_commands st),
      counter_line ''read_commands'' (read_commands st),
      counter_line ''write_commands'' (write_commands st),
      counter_line ''rejected_transactions'' (rejected_transactions st),
      counter_line ''rfm_events'' (rfm_events st)]"

definition resource_lines :: "string \<Rightarrow> string \<Rightarrow> resource_stats list \<Rightarrow> string list" where
  "resource_lines prefix kind rs = map (\<lambda>i. counter_line
     (prefix @ kind @ decimal i @ ''_busy_ps'') (rs_busy_time (rs ! i))) [0..<length rs]"

definition channel_lines :: "nat \<Rightarrow> channel_stats \<Rightarrow> string list" where
  "channel_lines channel ch =
     (let prefix = ''channel_'' @ decimal channel; q = queue_stats ch in
      map (\<lambda>(label, n). counter_line (prefix @ label) n)
       [(''_bytes'', completed_bytes ch),
        (''_data_bus_busy_ps'', data_bus_busy_time ch),
        (''_command_bus_busy_ps'', rs_busy_time (command_bus_stats ch)),
        (''_row_command_bus_busy_ps'', rs_busy_time (row_command_bus_stats ch)),
        (''_column_command_bus_busy_ps'', rs_busy_time (column_command_bus_stats ch)),
        (''_max_read_queue'', max_read_depth q),
        (''_max_write_queue'', max_write_depth q),
        (''_queue_wait_ps'', queue_wait_time q),
        (''_command_wait_ps'', command_wait_time q),
        (''_array_wait_ps'', array_wait_time q),
        (''_data_bus_wait_ps'', data_bus_wait_time q),
        (''_data_service_ps'', data_service_time q),
        (''_merged_accesses'', merged_accesses q),
        (''_refresh_stall_ps'', refresh_stall_time q),
        (''_starvation_events'', starvation_events q),
        (''_refreshes'', refreshes ch),
        (''_per_bank_refreshes'', per_bank_refreshes ch),
        (''_rfm_events'', ch_rfm_events ch)]
      @ resource_lines prefix ''_pc_'' (pseudo_channel_stats ch)
      @ resource_lines prefix ''_bank_'' (bank_stats ch))"

definition report_lines :: "hbm_stats \<Rightarrow> string list" where
  "report_lines st = stats_lines st @
     concat (map (\<lambda>i. channel_lines i (channels st ! i)) [0..<length (channels st)])"

section \<open>The client\<close>

text \<open>
  The variables the two callbacks capture extend the state of the system: \<^verbatim>\<open>capacity_changed\<close>
  and the lines of \<^verbatim>\<open>completion_output\<close>.
\<close>

record driver = hbm_system +
  capacity_changed :: bool
  completion_output :: "string list"

type_synonym driver_state = "unit driver_ext"

definition record_completion :: "hbm_completion \<Rightarrow> driver \<Rightarrow> driver result" where
  "record_completion co s = Inr (s\<lparr>completion_output := completion_output s @ [completion_line co]\<rparr>)"

definition note_capacity :: "capacity_notification \<Rightarrow> driver \<Rightarrow> driver result" where
  "note_capacity n s = Inr (s\<lparr>capacity_changed := True\<rparr>)"


definition trace_client :: "bool \<Rightarrow> driver_state client" where
  "trace_client reporting =
     \<lparr>on_completion = (if reporting then Some record_completion else None),
      on_capacity = Some note_capacity\<rparr>"

definition start_driver :: "hbm_system \<Rightarrow> driver" where
  "start_driver s = hbm_system.extend s (driver.fields False [])"

section \<open>The replay\<close>

definition system_run_until :: "'z client \<Rightarrow> 'z system \<Rightarrow> sim_time \<Rightarrow> 'z system result" where
  "system_run_until cl s until =
     ebind (outcome (run_until (execute cl) (sys_queue s) s until)) (\<lambda>(q, s'). Inr (s'\<lparr>sys_queue := q\<rparr>))"

text \<open>The inner loop waits for a capacity notification, the outer one submits again.\<close>

partial_function (option) await_capacity :: "driver_state client \<Rightarrow> driver \<Rightarrow> driver result option" where
  "await_capacity cl s =
     (if capacity_changed s then Some (Inr s)
      else case system_run_next cl s of
        Inl e \<Rightarrow> Some (Inl e)
      | Inr (again, s') \<Rightarrow>
          if \<not> again then Some (Inl (RuntimeError ''backpressure without a future capacity event''))
          else await_capacity cl s')"

partial_function (option) submit_loop ::
    "driver_state client \<Rightarrow> hbm_transaction \<Rightarrow> submit_result \<Rightarrow> driver \<Rightarrow> (submit_result \<times> driver) result option" where
  "submit_loop cl tx r s =
     (if sr_status r \<noteq> Backpressure then Some (Inr (r, s))
      else case await_capacity cl s of
        None \<Rightarrow> None
      | Some (Inl e) \<Rightarrow> Some (Inl e)
      | Some (Inr s1) \<Rightarrow>
          (case try_submit_now (s1\<lparr>capacity_changed := False\<rparr>) tx of
             Inl e \<Rightarrow> Some (Inl e)
           | Inr (r', s') \<Rightarrow> submit_loop cl tx r' s'))"

declare await_capacity.simps [code] submit_loop.simps [code]

text \<open>The transaction of one row: time advances to its arrival unless it is already later.\<close>

definition replay_transaction :: "driver_state client \<Rightarrow> hbm_transaction \<Rightarrow> driver \<Rightarrow> driver result" where
  "replay_transaction cl tx s =
     ebind (if tx_arrival_time tx \<ge> sys_now s then system_run_until cl s (tx_arrival_time tx) else Inr s) (\<lambda>s1.
     ebind (try_submit_now (s1\<lparr>capacity_changed := False\<rparr>) tx) (\<lambda>(r, s2).
     ebind (outcome (submit_loop cl tx r s2)) (\<lambda>(r', s3).
     if accepted r' then Inr s3 else Inl (RuntimeError (sr_message r')))))"

record replay =
  rp_id :: transaction_id
  rp_last_arrival :: sim_time
  rp_driver :: driver

definition replay_line :: "driver_state client \<Rightarrow> string \<Rightarrow> replay \<Rightarrow> replay result" where
  "replay_line cl line rp =
     (if line = [] \<or> hd line = CHR ''#'' then Inr rp
      else
      ebind (parse_row (rp_id rp) line) (\<lambda>tx.
      if tx_arrival_time tx < rp_last_arrival rp
      then Inl (RuntimeError ''trace arrivals must be nondecreasing'')
      else ebind (replay_transaction cl tx (rp_driver rp)) (\<lambda>s.
      Inr \<lparr>rp_id = rp_id rp + 1, rp_last_arrival = tx_arrival_time tx, rp_driver = s\<rparr>)))"

text \<open>An exception comes with the number of its line.\<close>

fun replay_lines :: "driver_state client \<Rightarrow> nat \<Rightarrow> string list \<Rightarrow> replay \<Rightarrow> (nat \<times> error) + replay" where
  "replay_lines cl n [] rp = Inr rp"
| "replay_lines cl n (line # lines) rp = (case replay_line cl line rp of
     Inl e \<Rightarrow> Inl (Suc n, e)
   | Inr rp' \<Rightarrow> replay_lines cl (Suc n) lines rp')"

section \<open>The program\<close>

text \<open>
  What the program leaves behind; \<open>files\<close> are the readable files and \<open>writable\<close> says which
  paths can be opened for writing. The file of completions is given for a complete run only. An
  exception that \<^verbatim>\<open>main\<close> does not catch, undefined behaviour and a run that does not
  return are the errors of the result.
\<close>

record program_end =
  exit_code :: int
  std_out :: string
  std_err :: string
  completion_file :: "string option"

definition complain :: "string \<Rightarrow> program_end" where
  "complain message = \<lparr>exit_code = 2, std_out = [], std_err = message @ [CHR 0x0A], completion_file = None\<rparr>"

definition usage :: string where
  "usage = ''usage: hbmsim TRACE.csv [--profile hbm2_2000|hbm3_6400] [--queue-capacity N] [--completions FILE.csv]'' @
     [CHR 0x0A] @ ''columns: arrival_ps,op,address,size_bytes[,client]''"

text \<open>\<^verbatim>\<open>error.what()\<close>, for the errors that are exceptions.\<close>

fun exception_message :: "error \<Rightarrow> string option" where
  "exception_message (InvalidArgument s) = Some s"
| "exception_message (OutOfRange s) = Some s"
| "exception_message (OverflowError s) = Some s"
| "exception_message (LogicError s) = Some s"
| "exception_message (RuntimeError s) = Some s"
| "exception_message (UndefinedBehaviour s) = None"
| "exception_message Diverges = None"

definition replay_trace :: "string \<Rightarrow> driver \<Rightarrow> bool \<Rightarrow> program_end result" where
  "replay_trace trace s reporting =
     (let cl = trace_client reporting in
      case replay_lines cl 0 (getlines (CHR 0x0A) trace)
          \<lparr>rp_id = 1, rp_last_arrival = 0, rp_driver = s\<rparr> of
        Inl (n, e) \<Rightarrow> (case exception_message e of
            None \<Rightarrow> Inl e
          | Some what \<Rightarrow> Inr (complain (''trace line '' @ decimal n @ '': '' @ what)))
      | Inr rp \<Rightarrow>
          ebind (system_run cl (rp_driver rp)) (\<lambda>s'.
          Inr \<lparr>exit_code = 0, std_out = print_lines (report_lines (sys_stats s')), std_err = [],
            completion_file = (if reporting
              then Some (print_lines (completion_header # completion_output s')) else None)\<rparr>))"

definition main :: "(string \<Rightarrow> string option) \<Rightarrow> (string \<Rightarrow> bool) \<Rightarrow> string list \<Rightarrow> program_end result" where
  "main files writable args = (case args of
     [] \<Rightarrow> Inr (complain usage)
   | path # rest \<Rightarrow>
       ebind (parse_options rest default_options) (\<lambda>parsed. case parsed of
         Inl message \<Rightarrow> Inr (complain message)
       | Inr opts \<Rightarrow>
           (case files path of
              None \<Rightarrow> Inr (complain (''cannot open trace: '' @ path))
            | Some trace \<Rightarrow>
                ebind (make_system (run_config opts) empty_queue) (\<lambda>s.
                let reporting = (opt_completions opts \<noteq> []) in
                if reporting \<and> \<not> writable (opt_completions opts)
                then Inr (complain (''cannot write completions: '' @ opt_completions opts))
                else replay_trace trace (start_driver s) reporting))))"

end
