(* ===== verification/Trace_Text.thy ===== *)
theory Trace_Text
  imports Trace_Driver
begin

text \<open>
  The numbers and the rows the trace driver writes, and that its readers understand them: decimal
  numbers, comma-separated fields and lines.
\<close>

section \<open>Decimal numbers\<close>

lemma digit_value_char: "d < 10 \<Longrightarrow> digit_value (char_of (d + 48)) = Some d"
  by (simp add: digit_value_def)

lemma decimal_step:
  "decimal n = (if n < 10 then [] else decimal (n div 10)) @ [char_of (n mod 10 + 48)]"
  by (subst decimal.simps) (simp add: div_eq_0_iff)

lemma decimal_induct [case_names digit more]:
  assumes "\<And>n. n < 10 \<Longrightarrow> P n" and "\<And>n. \<not> n < 10 \<Longrightarrow> P (n div 10) \<Longrightarrow> P n"
  shows "P (n :: nat)"
proof (induction n rule: less_induct)
  case (less n)
  then show ?case using assms by (cases "n < 10") auto
qed

lemma decimal_nonempty [simp]: "decimal n \<noteq> []"
  by (subst decimal_step) simp

lemma decimal_digits: "c \<in> set (decimal n) \<Longrightarrow> is_digit 10 c"
proof (induction n rule: decimal_induct)
  case (digit n)
  then show ?case by (simp add: decimal_step [of n] is_digit_def digit_value_char)
next
  case (more n)
  then show ?case by (auto simp: decimal_step [of n] is_digit_def digit_value_char)
qed

lemma digits_value_append:
  "digits_value b (ds @ [c]) = digits_value b ds * b + (case digit_value c of None \<Rightarrow> 0 | Some v \<Rightarrow> v)"
  by (simp add: digits_value_def)

lemma digits_value_decimal: "digits_value 10 (decimal n) = n"
proof (induction n rule: decimal_induct)
  case (digit n)
  then show ?case by (simp add: decimal_step [of n] digits_value_def digit_value_char)
next
  case (more n)
  then show ?case by (simp add: decimal_step [of n] digits_value_append digit_value_char)
qed

lemma hd_decimal: "0 < n \<Longrightarrow> hd (decimal n) \<noteq> CHR ''0''"
proof (induction n rule: decimal_induct)
  case (digit n)
  then have "of_char (char_of (n + 48) :: char) = n + 48" by simp
  moreover have "of_char (CHR ''0'') = (48 :: nat)" by simp
  ultimately show ?case using digit by (metis add_cancel_left_left decimal_step list.sel(1) append_Nil mod_less neq0_conv)
next
  case (more n)
  then show ?case by (simp add: decimal_step [of n] hd_append)
qed

lemma digit_char: "is_digit 10 c \<longleftrightarrow> 48 \<le> (of_char c :: nat) \<and> (of_char c :: nat) \<le> 57"
  by (auto simp: is_digit_def digit_value_def Let_def)

lemma number_base_decimal: "0 < n \<Longrightarrow> number_base (decimal n) = (10, decimal n)"
  using hd_decimal [of n] by (simp add: number_base_def)

lemmas parse_defs = parse_u64_def is_space_def is_digit_def digit_value_def digits_value_def number_base_def

text \<open>A number that is written in decimal is read back; a sign, a blank or a prefix is not in the way.\<close>

lemma parse_decimal:
  "parse_u64 (decimal n) = (if n < 2 ^ 64 then Inr (word_of_nat n) else Inl (OutOfRange ''stoull''))"
proof -
  have dig: "is_digit 10 (hd (decimal n))" by (rule decimal_digits [of _ n]) simp
  then have hd: "\<not> is_space (hd (decimal n))" "hd (decimal n) \<noteq> CHR ''-''" "hd (decimal n) \<noteq> CHR ''+''"
    by (auto simp: digit_char is_space_def)
  then have blanks: "dropWhile is_space (decimal n) = decimal n"
    by (cases "decimal n") auto
  have all: "takeWhile (is_digit 10) (decimal n) = decimal n"
    by (simp add: takeWhile_eq_all_conv decimal_digits)
  show ?thesis
  proof (cases "n = 0")
    case True
    have "decimal 0 = ''0''" by (subst decimal.simps) code_simp
    then have "parse_u64 (decimal 0) = Inr 0" by (simp add: parse_defs)
    with True show ?thesis by simp
  next
    case False
    then show ?thesis
      using hd number_base_decimal [of n]
      by (simp add: parse_u64_def blanks all digits_value_decimal)
  qed
qed

lemma parse_number [simp]: "parse_u64 (number n) = Inr n"
  using unat_u64_lt [of n] by (simp add: number_def parse_decimal)

section \<open>Fields and lines\<close>

lemma decimal_plain: "c \<in> set (decimal n) \<Longrightarrow> c \<noteq> CHR '','' \<and> c \<noteq> CHR 0x0A"
  using decimal_digits [of c n] by (auto simp: digit_char)

lemma getlines_last: "d \<notin> set f \<Longrightarrow> f \<noteq> [] \<Longrightarrow> getlines d f = [f]"
proof -
  assume "d \<notin> set f" "f \<noteq> []"
  then have "takeWhile (\<lambda>x. x \<noteq> d) f = f" "dropWhile (\<lambda>x. x \<noteq> d) f = []" by auto
  with \<open>f \<noteq> []\<close> show ?thesis
    by (cases f) (simp_all only: getlines.simps drop_Nil not_Cons_self simp_thms)
qed

lemma getlines_cons: "d \<notin> set f \<Longrightarrow> getlines d (f @ d # rest) = f # getlines d rest"
  by (cases f) (auto simp: takeWhile_append dropWhile_append)

lemma split_join: "\<forall>f \<in> set fs. CHR '','' \<notin> set f \<Longrightarrow> fs \<noteq> [] \<longrightarrow> last fs \<noteq> [] \<Longrightarrow> split_csv (join_csv fs) = fs"
  unfolding split_csv_def
  by (induction fs rule: join_csv.induct) (auto simp: getlines_last getlines_cons)

lemma lines_printed: "\<forall>l \<in> set ls. CHR 0x0A \<notin> set l \<Longrightarrow> getlines (CHR 0x0A) (print_lines ls) = ls"
  by (induction ls) (simp_all add: print_lines_def getlines_cons)

section \<open>Rows\<close>

text \<open>A transaction as a row of a trace.\<close>

definition trace_row :: "hbm_transaction \<Rightarrow> string" where
  "trace_row tx = join_csv [number (tx_arrival_time tx),
     if tx_op tx = hbm_op.Read then ''READ'' else ''WRITE'', number (tx_address tx),
     number (tx_size_bytes tx), decimal (unat (tx_client tx))]"

lemma number_plain [simp]: "CHR '','' \<notin> set (number n)" "CHR 0x0A \<notin> set (number n)"
  "CHR '','' \<notin> set (decimal k)" "CHR 0x0A \<notin> set (decimal k)"
  using decimal_plain by (auto simp: number_def)

lemma number_nonempty [simp]: "number n \<noteq> []"
  by (simp add: number_def)

lemma parse_decimal_word [simp]:
  "LENGTH('a) \<le> 64 \<Longrightarrow> parse_u64 (decimal (unat (w :: 'a :: len word))) = Inr (ucast w)"
proof -
  assume "LENGTH('a) \<le> 64"
  then have "(2 :: nat) ^ LENGTH('a) \<le> 2 ^ 64" by (rule power_increasing) simp
  moreover have "unat w < 2 ^ LENGTH('a)" by (rule unsigned_less)
  ultimately have "unat w < 2 ^ 64" by linarith
  then show ?thesis by (simp only: parse_decimal if_True of_nat_unat)
qed

lemma split_trace_row: "split_csv (trace_row tx) = [number (tx_arrival_time tx),
     if tx_op tx = hbm_op.Read then ''READ'' else ''WRITE'', number (tx_address tx),
     number (tx_size_bytes tx), decimal (unat (tx_client tx))]"
  unfolding trace_row_def by (rule split_join [rule_format]) (auto split: if_splits)

definition numeric_columns :: "nat list" where
  "numeric_columns = [0, 2, 3, 4, 5, 6, 7, 9, 10, 11, 12, 13, 14, 15, 16, 17]"

definition completion_numbers :: "hbm_completion \<Rightarrow> u64 list" where
  "completion_numbers co = (let l = co_latency_breakdown co; m = co_metadata co in
     [co_id co, co_address co, co_size_bytes co, ucast (co_channel co), co_arrival_time co,
      co_completion_time co, co_latency co, queue_wait l, command_phase l, data_ready l,
      data_bus_wait l, data_service l, word_of_nat (class_index (traffic_class m)),
      ucast (priority m), opaque_tag m, ucast (ordering_domain m)])"

lemma split_completion_line: "split_csv (completion_line co) = (let l = co_latency_breakdown co; m = co_metadata co in
     [number (co_id co), if co_op co = hbm_op.Read then ''READ'' else ''WRITE'', number (co_address co),
      number (co_size_bytes co), decimal (unat (co_channel co)), number (co_arrival_time co),
      number (co_completion_time co), number (co_latency co), class_name (co_access_class co),
      number (queue_wait l), number (command_phase l), number (data_ready l),
      number (data_bus_wait l), number (data_service l), decimal (class_index (traffic_class m)),
      decimal (unat (priority m)), number (opaque_tag m), decimal (unat (ordering_domain m))])"
  unfolding completion_line_def Let_def
  by (rule split_join [rule_format]) (cases "co_access_class co"; auto split: if_splits)+

lemma parse_class: "parse_u64 (decimal (class_index t)) = Inr (word_of_nat (class_index t))"
  by (cases t) (simp_all add: parse_decimal)

lemma completion_columns:
  "map (\<lambda>i. parse_u64 (split_csv (completion_line co) ! i)) numeric_columns = map Inr (completion_numbers co)"
  by (simp add: split_completion_line numeric_columns_def completion_numbers_def Let_def parse_class)

lemma join_csv_set: "set (join_csv fs) \<subseteq> insert (CHR '','') (\<Union>f \<in> set fs. set f)"
  by (induction fs rule: join_csv.induct) auto

lemma completion_line_plain: "CHR 0x0A \<notin> set (completion_line co)"
  unfolding completion_line_def Let_def
  by (rule notI, drule subsetD [OF join_csv_set]) (cases "co_access_class co"; auto split: if_splits)

lemma completion_header_plain: "CHR 0x0A \<notin> set completion_header"
  by (simp add: completion_header_def)

end
