(* ===== verification/Controller_Totals.thy ===== *)
theory Controller_Totals
  imports Controller_Drive
begin

text \<open>
  No operation of a controller counts completed transactions or their bytes: those totals belong to
  the system.
\<close>

definition totals :: "hbm_stats \<Rightarrow> u64 \<times> u64 \<times> u64" where
  "totals st = (completed_transactions st, read_bytes st, write_bytes st)"

lemma totals_updates [simp]:
  "totals (st\<lparr>channels := x\<rparr>) = totals st" "totals (st\<lparr>issued_commands := n\<rparr>) = totals st"
  "totals (st\<lparr>rfm_events := n\<rparr>) = totals st" "totals (st\<lparr>modeled_accesses := n\<rparr>) = totals st"
  "totals (st\<lparr>rejected_transactions := n\<rparr>) = totals st" "totals (st\<lparr>submitted_transactions := n\<rparr>) = totals st"
  "totals (count_command command st) = totals st" "totals (count_physical w n st) = totals st"
  "totals (count_class cls st) = totals st"
  by (cases command; cases cls; simp add: totals_def count_physical_def Let_def)+

text \<open>A result whose controller has the totals of \<open>c\<close>.\<close>

definition totalled :: "hbm_controller \<Rightarrow> hbm_controller \<Rightarrow> bool" where
  "totalled c c' \<longleftrightarrow> totals (stats c') = totals (stats c)"

lemma totalled_refl [simp]: "totalled c c"
  by (simp add: totalled_def)

lemma totalled_trans: "totalled a b \<Longrightarrow> totalled b c \<Longrightarrow> totalled a c"
  by (simp add: totalled_def)

named_theorems totalled_rules

lemma update_channel_totalled [totalled_rules]: "update_channel c f = Inr c' \<Longrightarrow> totalled c c'"
  by (auto simp: update_channel_def Let_def ebind_eq_Inr totalled_def)

lemma update_queue_stats_totalled [totalled_rules]: "update_queue_stats c f = Inr c' \<Longrightarrow> totalled c c'"
  by (simp add: update_queue_stats_def update_channel_totalled)

lemma resource_stats_totalled [totalled_rules]:
  "update_bank_stats c i f = Inr c' \<Longrightarrow> totalled c c'" "update_pseudo_channel_stats c i f = Inr c' \<Longrightarrow> totalled c c'"
  by (auto simp: update_bank_stats_def update_pseudo_channel_stats_def ebind_eq_Inr update_channel_totalled)

lemma when_detailed_totalled:
  "when_detailed c f = Inr c' \<Longrightarrow> (\<And>c'. f c = Inr c' \<Longrightarrow> totalled c c') \<Longrightarrow> totalled c c'"
  by (auto simp: when_detailed_def split: if_split_asm)

lemma detailed_totalled [totalled_rules]:
  "when_detailed c (\<lambda>c. update_bank_stats c i f) = Inr c' \<Longrightarrow> totalled c c'"
  "when_detailed c (\<lambda>c. update_pseudo_channel_stats c i f) = Inr c' \<Longrightarrow> totalled c c'"
  "when_detailed c (\<lambda>c. update_queue_stats c (g c)) = Inr c' \<Longrightarrow> totalled c c'"
  by (erule when_detailed_totalled, erule totalled_rules)+

lemma occupy_bus_totalled: "occupy_bus c command now = Inr c' \<Longrightarrow> totalled c c'"
  by (auto simp: occupy_bus_def Let_def totalled_def dest!: update_channel_totalled split: if_split_asm)

lemma record_command_totalled: "record_command c command a bank now = Inr c' \<Longrightarrow> totalled c c'"
  unfolding record_command_def Let_def
  by (auto simp: totalled_def elim!: ebind_cases dest!: totalled_rules occupy_bus_totalled)

lemma apply_transition_totalled: "apply_transition c command row i = Inr c' \<Longrightarrow> totalled c c'"
  by (auto simp: apply_transition_def Let_def totalled_def elim!: ebind_cases split: option.split_asm if_split_asm)

lemma set_queue_totalled [simp]: "stats (set_queue c w q) = stats c" "stats (set_access c cand a) = stats c"
  by (simp_all add: set_queue_def set_access_def)

lemma issue_activate_totalled: "issue_activate c cand a bank = Inr c' \<Longrightarrow> totalled c c'"
  by (auto simp: issue_activate_def totalled_def elim!: ebind_cases dest!: apply_transition_totalled)

lemma issue_precharge_totalled: "issue_precharge c cand a bank b = Inr c' \<Longrightarrow> totalled c c'"
  by (auto simp: issue_precharge_def Let_def totalled_def dest!: apply_transition_totalled)

lemma merge_reads_totalled: "merge_reads c w a = Inr (as, c') \<Longrightarrow> totalled c c'"
  by (auto simp: merge_reads_def totalled_def elim!: ebind_cases dest!: totalled_rules split: if_split_asm prod.split_asm)

lemma close_after_data_totalled: "close_after_data c command row bank = Inr c' \<Longrightarrow> totalled c c'"
  by (auto simp: close_after_data_def totalled_def elim!: ebind_cases dest!: apply_transition_totalled split: if_split_asm)

lemma account_transfer_totalled:
  "account_transfer c w first completed bank now cas start duration = Inr c' \<Longrightarrow> totalled c c'"
  unfolding account_transfer_def Let_def
  by (auto simp: totalled_def elim!: ebind_cases dest!: totalled_rules)

lemma transfer_totalled: "transfer c cand first completed bank now = Inr (p, c') \<Longrightarrow> totalled c c'"
  unfolding transfer_def Let_def
  by (auto simp: totalled_def elim!: ebind_cases dest!: account_transfer_totalled)

lemma issue_data_totalled: "issue_data c cand a bank b now = Inr (p, c') \<Longrightarrow> totalled c c'"
  unfolding issue_data_def Let_def
  by (auto simp: totalled_def elim!: ebind_cases dest!: merge_reads_totalled close_after_data_totalled transfer_totalled)

lemma issue_totalled: "issue c cand now = Inr (p, c') \<Longrightarrow> totalled c c'"
  unfolding issue_def Let_def
  by (auto simp: totalled_def elim!: ebind_cases dest!: totalled_rules record_command_totalled issue_activate_totalled
      issue_precharge_totalled issue_data_totalled split: if_split_asm)

section \<open>Maintenance\<close>

lemma finish_maintenance_totalled: "finish_maintenance c requested i = Inr c' \<Longrightarrow> totalled c c'"
  by (auto simp: finish_maintenance_def count_rfm_def totalled_def elim!: ebind_cases dest!: totalled_rules split: if_split_asm)

lemma issue_maintenance_totalled: "issue_maintenance c m now = Inr c' \<Longrightarrow> totalled c c'"
  by (auto simp: issue_maintenance_def totalled_def elim!: ebind_cases dest!: record_command_totalled
      apply_transition_totalled finish_maintenance_totalled split: if_split_asm)

lemma request_refresh_totalled: "request_refresh c = Inr c' \<Longrightarrow> totalled c c'"
  by (auto simp: request_refresh_def Let_def totalled_def elim!: ebind_cases split: if_split_asm)

lemma idle_refresh_loop_totalled:
  assumes "idle_refresh_loop s = Some m" and "m = Inr c'"
  shows "totalled (fst s) c'"
proof -
  have "\<forall>c'. m = Inr c' \<longrightarrow> totalled (fst s) c'"
    using assms(1)
  proof (rule idle_refresh_loop.raw_induct [where P = "\<lambda>s m. \<forall>c'. m = Inr c' \<longrightarrow> totalled (fst s) c'", rotated])
    fix loop s m
    assume IH: "\<And>s m. loop s = Some m \<Longrightarrow> \<forall>c'. m = Inr c' \<longrightarrow> totalled (fst s) c'"
      and m: "(if refresh_outstanding (fst s) then (case idle_refresh_round s of
        Inl e \<Rightarrow> Some (Inl e) | Inr s' \<Rightarrow> loop s') else Some (Inr (fst s))) = Some m"
    have "totalled (fst s) (fst s')" if "idle_refresh_round s = Inr s'" for s'
      using that by (cases s) (auto simp: idle_refresh_round_def Let_def elim!: ebind_cases
          dest!: issue_maintenance_totalled split: option.split_asm)
    then show "\<forall>c'. m = Inr c' \<longrightarrow> totalled (fst s) c'"
      using m by (auto simp: totalled_def split: if_split_asm sum.split_asm dest!: IH)
  qed
  with assms(2) show ?thesis by simp
qed

lemma apply_idle_refresh_totalled: "apply_idle_refresh c t = Inr c' \<Longrightarrow> totalled c c'"
  unfolding apply_idle_refresh_def outcome_def
  by (auto simp: totalled_def elim!: ebind_cases dest!: request_refresh_totalled idle_refresh_loop_totalled
      split: option.split_asm)

lemma catch_up_totalled:
  assumes "catch_up now s = Some m" and "m = Inr c'"
  shows "totalled (fst s) c'"
proof -
  have "\<forall>c'. m = Inr c' \<longrightarrow> totalled (fst s) c'"
    using assms(1)
  proof (rule catch_up.raw_induct [where P = "\<lambda>now s m. \<forall>c'. m = Inr c' \<longrightarrow> totalled (fst s) c'", rotated])
    fix loop now s m
    assume IH: "\<And>now s m. loop now s = Some m \<Longrightarrow> \<forall>c'. m = Inr c' \<longrightarrow> totalled (fst s) c'"
      and m: "(if snd s \<le> now then (case apply_idle_refresh (fst s) (snd s) of
        Inl e \<Rightarrow> Some (Inl e) | Inr c' \<Rightarrow> loop now (c', snd s + cfg_refresh_interval (config c')))
        else Some (Inr ((fst s)\<lparr>next_refresh_due := Some (snd s)\<rparr>))) = Some m"
    then show "\<forall>c'. m = Inr c' \<longrightarrow> totalled (fst s) c'"
      by (auto simp: totalled_def split: if_split_asm sum.split_asm dest!: IH apply_idle_refresh_totalled)
  qed
  with assms(2) show ?thesis by simp
qed

lemma prepare_refresh_totalled: "prepare_refresh_for_arrival c now = Inr c' \<Longrightarrow> totalled c c'"
  by (auto simp: prepare_refresh_for_arrival_def Let_def outcome_def totalled_def dest!: catch_up_totalled
      split: if_split_asm option.split_asm)

section \<open>The operations of the interface\<close>

lemma admit_reserved_totalled: "admit_reserved c a now = Inr c' \<Longrightarrow> totalled c c'"
  unfolding admit_reserved_def Let_def
  by (auto simp: totalled_def elim!: ebind_cases dest!: prepare_refresh_totalled totalled_rules split: if_split_asm)

lemma reserve_totalled: "reserve c r w = Inr c' \<Longrightarrow> totalled c c'"
  by (auto simp: reserve_def ebind_eq_Inr totalled_def)

lemma handle_refresh_event_totalled: "handle_refresh_event c now = Inr c' \<Longrightarrow> totalled c c'"
  by (auto simp: handle_refresh_event_def Let_def totalled_def dest!: apply_idle_refresh_totalled
      request_refresh_totalled split: if_split_asm)

lemma marks_totalled: "totalled c (snd (mark_wakeup c t))" "totalled c (clear_wakeup c t)" "totalled c (snd (claim_refresh_event c))"
  by (simp_all add: mark_wakeup_def clear_wakeup_def claim_refresh_event_def totalled_def split: option.split)

lemma stall_on_refresh_totalled: "stall_on_refresh c now = Inr c' \<Longrightarrow> totalled c c'"
  by (auto simp: stall_on_refresh_def Let_def totalled_def elim!: ebind_cases dest!: totalled_rules split: if_split_asm)

lemma choose_next_totalled: "choose_next c now = Inr (cand, c') \<Longrightarrow> totalled c c'"
  unfolding choose_next_def Let_def
  by (auto simp: totalled_def elim!: ebind_cases split: if_split_asm option.split_asm)

lemma starve_queue_totalled: "starve_queue c now q = Inr (q', c') \<Longrightarrow> totalled c c'"
  by (induction q arbitrary: c q' c') (auto elim!: ebind_cases dest!: totalled_rules split: if_split_asm intro: totalled_trans)

lemma update_starvation_totalled: "update_starvation c now = Inr c' \<Longrightarrow> totalled c c'"
  unfolding update_starvation_def
  by (auto simp: totalled_def elim!: ebind_cases dest!: starve_queue_totalled split: if_split_asm)

lemma update_write_drain_totalled [simp]: "stats (update_write_drain c) = stats c"
  by (simp add: update_write_drain_def Let_def)

lemma drive_totalled: "drive c now = Inr (step, c') \<Longrightarrow> totalled c c'"
  unfolding drive_def
  by (auto simp: totalled_def elim!: ebind_cases dest!: update_starvation_totalled stall_on_refresh_totalled
      issue_maintenance_totalled choose_next_totalled issue_totalled split: if_split_asm option.split_asm)

lemma complete_access_totalled: "complete_access c a = Inr c' \<Longrightarrow> totalled c c'"
  by (auto simp: complete_access_def totalled_def elim!: ebind_cases dest!: totalled_rules)

end
