(* ===== verification/System_Frame.thy ===== *)
theory System_Frame
  imports System_Liveness Controller_Totals
begin

text \<open>
  What the steps of a system leave alone, without any assumption on the state: the transactions
  that are active, the totals of the system, the clock, and the order of the events.
\<close>

section \<open>The active transactions and the events\<close>

definition roster :: "requests \<Rightarrow> (transaction_id \<times> hbm_transaction) list" where
  "roster ps = map (\<lambda>(p, r). (p, pr_transaction r)) ps"

lemma fst_roster [simp]: "map fst (roster ps) = map fst ps"
  by (simp add: roster_def o_def case_prod_beta)

lemma roster_simps [simp]:
  "roster ps = [] \<longleftrightarrow> ps = []" "roster [] = []" "roster ((p, r) # ps) = (p, pr_transaction r) # roster ps"
  "roster (ps @ qs) = roster ps @ roster qs"
  by (simp_all add: roster_def)

lemma roster_update:
  "map_of ps p = Some r \<Longrightarrow> pr_transaction r' = pr_transaction r \<Longrightarrow> roster (AList.update p r' ps) = roster ps"
  by (induction ps) (auto simp: roster_def split: if_splits)

lemma roster_enlist: "map_of ps p = None \<Longrightarrow> roster (AList.update p r ps) = roster ps @ [(p, pr_transaction r)]"
  by (induction ps) (auto simp: roster_def split: if_splits)

lemma roster_delete:
  assumes "distinct (map fst ps)" and "map_of ps p = Some r"
  shows "mset (roster ps) = add_mset (p, pr_transaction r) (mset (roster (AList.delete p ps)))"
    and "distinct (map fst (AList.delete p ps))"
proof -
  have "p \<notin> fst ` set ps \<Longrightarrow> AList.delete p ps = ps" for ps :: requests
    by (induction ps) auto
  with assms show "mset (roster ps) = add_mset (p, pr_transaction r) (mset (roster (AList.delete p ps)))"
    by (induction ps) (auto simp: roster_def split: if_splits)
  show "distinct (map fst (AList.delete p ps))" by (rule distinct_delete [OF assms(1)])
qed

text \<open>Events are in the order of their times, and none is in the past.\<close>

definition paced :: "'cb event_queue \<Rightarrow> bool" where
  "paced q \<longleftrightarrow> sorted_wrt key_before (map fst (events q)) \<and>
     (\<forall>x \<in> set (events q). fst (fst x) = ev_time (snd x) \<and> eq_now q \<le> ev_time (snd x))"

lemma paced_empty [simp]: "events q = [] \<Longrightarrow> paced q"
  by (simp add: paced_def)

lemma paced_schedule: "paced q \<Longrightarrow> schedule_at q t cb = Inr (token, q') \<Longrightarrow> paced q' \<and> eq_now q' = eq_now q"
  using set_emplace_subset
  by (fastforce simp: schedule_at_def Let_def paced_def sorted_map_emplace split: if_splits)

lemma paced_pop:
  assumes "paced q" and "events q = x # es"
  shows "eq_now q \<le> ev_time (snd x)" "y \<in> set es \<Longrightarrow> ev_time (snd x) \<le> ev_time (snd y)"
    "sorted_wrt key_before (map fst es)" "y \<in> set es \<Longrightarrow> fst (fst y) = ev_time (snd y)"
  using assms by (auto simp: paced_def key_before_def)

section \<open>The frame\<close>

definition frame :: "'z system \<Rightarrow> 'z system \<Rightarrow> bool" where
  "frame s s' \<longleftrightarrow> roster (parents s') = roster (parents s) \<and> hbm_system.more s' = hbm_system.more s \<and>
     sys_config s' = sys_config s \<and> sys_now s' = sys_now s \<and> totals (sys_stats s') = totals (sys_stats s) \<and>
     (paced (sys_queue s) \<longrightarrow> paced (sys_queue s'))"

lemma frame_refl [simp]: "frame s s"
  by (simp add: frame_def)

lemma frame_trans: "frame a b \<Longrightarrow> frame b c \<Longrightarrow> frame a c"
  by (simp add: frame_def)

lemma frame_bindI:
  assumes "yields (frame s) m" and "\<And>s'. frame s s' \<Longrightarrow> yields (frame s') (f s')"
  shows "yields (frame s) (ebind m f)"
  using assms(1) by (rule yields_bindI) (use assms(2) frame_trans in \<open>blast intro: yields_mono\<close>)

lemma frame_bind2:
  assumes "yields (\<lambda>(x, s'). frame s s') m" and "\<And>x s'. frame s s' \<Longrightarrow> yields (frame s') (f (x, s'))"
  shows "yields (frame s) (ebind m f)"
  using assms(1) by (rule yields_bind2) (use assms(2) frame_trans in \<open>blast intro: yields_mono\<close>)

lemma with_controller_frame:
  assumes "\<And>c x c'. f c = Inr (x, c') \<Longrightarrow> totalled c c'"
  shows "yields (\<lambda>(x, s'). frame s s') (with_controller s channel f)"
  using assms [of "c\<lparr>stats := sys_stats s\<rparr>" for c]
  by (fastforce simp: with_controller_def frame_def yields_def ebind_eq_Inr totalled_def sys_now_def)

lemma do_controller_frame:
  assumes "\<And>c c'. f c = Inr c' \<Longrightarrow> totalled c c'"
  shows "yields (frame s) (do_controller s channel f)"
  unfolding do_controller_def
  by (rule frame_bind2 [OF with_controller_frame]) (use assms in \<open>auto simp: ebind_eq_Inr\<close>)

lemma schedule_event_frame: "yields (frame s) (schedule_event s t ev)"
  by (auto simp: schedule_event_def frame_def yields_def ebind_eq_Inr sys_now_def schedule_at_def Let_def split: if_splits
      dest: paced_schedule [where cb = "(next_token (sys_queue s), ev)"])

lemma schedule_controller_wake_frame: "yields (frame s) (schedule_controller_wake s channel t)"
  unfolding schedule_controller_wake_def Let_def
proof (rule frame_bind2 [OF with_controller_frame])
  show "totalled c c'" if "Inr (mark_wakeup c u) = Inr (x, c')" for c x c' u
    using that marks_totalled(1) [of c u] by auto
qed (simp add: schedule_event_frame)

lemma schedule_refresh_due_frame: "yields (frame s) (schedule_refresh_due s channel)"
  unfolding schedule_refresh_due_def
proof (rule frame_bind2 [OF with_controller_frame])
  show "totalled c c'" if "Inr (claim_refresh_event c) = Inr (x, c')" for c x c'
    using that marks_totalled(3) [of c] by auto
qed (simp add: schedule_event_frame split: option.split)

section \<open>Admission\<close>

lemma admit_round_frame: "yields (\<lambda>(again, touched', s'). frame s s') (admit_round tid (touched, s))"
proof (cases "map_of (parents s) tid")
  case None
  then show ?thesis by (simp add: admit_round_def)
next
  case (Some r)
  have adm: "yields (\<lambda>(again, touched', s'). frame s s') (ebind (do_controller s channel (\<lambda>c. reserve c rd wr)) (\<lambda>s1.
      ebind (do_controller (s1\<lparr>parents := AList.update tid (r\<lparr>admitted_bytes := b, remaining_accesses := n\<rparr>) (parents s1),
        sys_stats := (sys_stats s1)\<lparr>modeled_accesses := modeled_accesses (sys_stats s1) + 1\<rparr>,
        next_access_sequence := next_access_sequence s1 + 1\<rparr>) channel
          (\<lambda>c. admit_reserved c (a s1) (sys_now (s1\<lparr>parents := AList.update tid (r\<lparr>admitted_bytes := b,
            remaining_accesses := n\<rparr>) (parents s1), sys_stats := (sys_stats s1)\<lparr>modeled_accesses :=
            modeled_accesses (sys_stats s1) + 1\<rparr>, next_access_sequence := next_access_sequence s1 + 1\<rparr>)))) (\<lambda>s3.
        Inr (True, t, s3))))" for channel rd wr b n a t
  proof (rule yields_bindI [OF do_controller_frame], erule reserve_totalled)
    fix s1 :: "'a system"
    assume s1: "do_controller s channel (\<lambda>c. reserve c rd wr) = Inr s1" "frame s s1"
    have same: "parents s1 = parents s"
      using s1(1) by (auto simp: do_controller_def with_controller_def ebind_eq_Inr)
    let ?s2 = "s1\<lparr>parents := AList.update tid (r\<lparr>admitted_bytes := b, remaining_accesses := n\<rparr>) (parents s1),
        sys_stats := (sys_stats s1)\<lparr>modeled_accesses := modeled_accesses (sys_stats s1) + 1\<rparr>,
        next_access_sequence := next_access_sequence s1 + 1\<rparr>"
    have fr: "frame s ?s2" using s1(2) Some by (simp add: frame_def same roster_update sys_now_def)
    show "yields (\<lambda>(again, touched', s'). frame s s')
        (ebind (do_controller ?s2 channel (\<lambda>c. admit_reserved c (a s1) (sys_now ?s2))) (\<lambda>s3. Inr (True, t, s3)))"
      by (rule yields_bindI [OF do_controller_frame], erule admit_reserved_totalled) (simp add: frame_trans [OF fr])
  qed
  show ?thesis
    unfolding admit_round_def prod.case Some option.case Let_def
    by (auto intro!: yields_return [where m = "next_access s (pr_transaction r) (admitted_bytes r)"]
        yields_return [where m = "list_at (controllers s) i" for i] adm)
qed

lemma admit_loop_frame: "admit_loop tid x = Some m \<Longrightarrow> yields (\<lambda>(touched, s'). frame (snd x) s') m"
proof (induction rule: admit_loop_induct)
  case (round loop tid x m)
  obtain touched s where x: "x = (touched, s)" by fastforce
  show ?case
  proof (cases "admit_round tid x")
    case (Inl e)
    with round(2) show ?thesis by auto
  next
    case (Inr y)
    obtain again touched1 s1 where y: "y = (again, touched1, s1)" by (metis prod.exhaust)
    have fr: "frame s s1" using admit_round_frame [of s tid touched] Inr by (simp add: x y)
    show ?thesis
    proof (cases again)
      case True
      then have "yields (\<lambda>(touched, s'). frame s1 s') m" using round(1) [of tid "(touched1, s1)" m] round(2) Inr y by simp
      then show ?thesis by (rule yields_mono) (use fr frame_trans in \<open>auto simp: x\<close>)
    qed (use round(2) Inr y fr x in auto)
  qed
qed

lemma pump_list_frame: "yields (\<lambda>(kept, touched', s'). frame s s') (pump_list ids (touched, s))"
proof (induction ids arbitrary: s touched)
  case (Cons tid ids)
  have "yields (\<lambda>(touched', s'). frame s s') (outcome (admit_loop tid (touched, s)))"
    using admit_loop_frame [of tid "(touched, s)"] by (cases "admit_loop tid (touched, s)") auto
  then show ?case
    unfolding pump_list.simps
  proof (rule yields_bind2)
    fix touched1 s1 assume fr: "frame s s1"
    have "yields (\<lambda>(kept, touched', s'). frame s s') (ebind (pump_list ids (touched1, s1)) (\<lambda>(kept, x').
          Inr (if b then kept else tid # kept, x')))" for b
      by (rule yields_bind3 [OF Cons.IH [of s1 touched1]]) (use fr frame_trans in auto)
    then show "yields (\<lambda>(kept, touched', s'). frame s s') (case (touched1, s1) of (touched, s) \<Rightarrow>
        (case map_of (parents s) tid of None \<Rightarrow> Inl (OutOfRange ''unordered_map::at'')
      | Some parent \<Rightarrow> ebind (pump_list ids (touched, s)) (\<lambda>(kept, x').
          Inr (if admitted_bytes parent = tx_size_bytes (pr_transaction parent) then kept
              else tid # kept, x'))))"
      by (simp split: option.split)
  qed
qed simp

lemma wake_touched_frame: "yields (frame s) (wake_touched k ts s)"
proof (induction ts arbitrary: k s)
  case (Cons t ts)
  have "yields (frame s) (ebind (schedule_refresh_due s c) (\<lambda>s1.
       ebind (schedule_controller_wake s1 c (sys_now s1)) (\<lambda>s2. wake_touched (Suc k) ts s2)))" for c
    by (intro frame_bindI schedule_refresh_due_frame schedule_controller_wake_frame Cons.IH)
  with Cons.IH show ?case by simp
qed simp

lemma pump_admissions_frame: "yields (frame s) (pump_admissions s)"
  unfolding pump_admissions_def
proof (rule yields_bind3 [OF pump_list_frame])
  fix kept touched s1 assume fr: "frame s s1"
  have "yields (frame s) (wake_touched 0 touched (s1\<lparr>pending_admissions := kept\<rparr>))"
    by (rule yields_mono [OF wake_touched_frame]) (use fr in \<open>simp add: frame_def sys_now_def\<close>)
  then show "yields (frame s) (case (kept, touched, s1) of (kept, touched, s1) \<Rightarrow>
      wake_touched 0 touched (s1\<lparr>pending_admissions := kept\<rparr>))" by simp
qed

section \<open>Events and submissions\<close>

lemma drive_controller_frame: "yields (frame s) (drive_controller cl s channel)"
proof -
  have "yields (frame s) (after_issue cl channel p s)" for p and s :: "'a system"
    unfolding after_issue_def
    by (auto split: option.split intro!: frame_bindI pump_admissions_frame schedule_event_frame)
  then show ?thesis
    unfolding drive_controller_parts
    by (intro frame_bind2 [OF with_controller_frame])
      (auto split: option.split intro!: frame_bindI schedule_controller_wake_frame elim: drive_totalled)
qed

lemma handle_event_frame:
  "yields (frame s) (handle_event cl (Wake channel t) s)"
  "yields (frame s) (handle_event cl (RefreshDue channel t) s)"
proof -
  have "yields (frame s) (do_controller s channel (\<lambda>c. Inr (clear_wakeup c t)))"
    by (rule do_controller_frame) (use marks_totalled(2) in auto)
  then show "yields (frame s) (handle_event cl (Wake channel t) s)"
    unfolding handle_event_def system_event.case by (intro frame_bindI drive_controller_frame)
  have "yields (frame s) (do_controller s channel (\<lambda>c. handle_refresh_event c t))"
    by (rule do_controller_frame) (rule handle_refresh_event_totalled)
  then show "yields (frame s) (handle_event cl (RefreshDue channel t) s)"
    unfolding handle_event_def system_event.case
    by (intro frame_bindI schedule_controller_wake_frame yields_return) (simp_all add: schedule_refresh_due_frame)
qed

text \<open>A submission enlists the transaction or leaves everything alone.\<close>

definition enlisted :: "hbm_transaction \<Rightarrow> 'z system \<Rightarrow> 'z system" where
  "enlisted tx s = s\<lparr>parents := parents s @ [(tx_id tx, new_parent tx)]\<rparr>"

lemma try_submit_now_frame:
  "yields (\<lambda>(r, s'). if accepted r then map_of (parents s) (tx_id tx) = None \<and> frame (enlisted tx s) s' else frame s s')
    (try_submit_now s tx)" (is "yields ?P _")
proof (cases rule: try_submit_now_cases [of s tx])
  case (invalid r)
  then show ?thesis by simp
next
  case (valid rd wr)
  have rej: "yields (frame s) (reject_submission s channel)" for channel
    by (auto simp: reject_submission_def Let_def yields_def ebind_eq_Inr frame_def sys_now_def totals_def)
  have "frame (enlisted tx s) (enlist tx s)"
    using valid(2) by (simp add: frame_def enlisted_def enlist_def roster_enlist sys_now_def)
  then have acc: "yields (frame (enlisted tx s)) (pump_admissions (enlist tx s))"
    by (intro yields_mono [OF pump_admissions_frame]) (rule frame_trans)
  have "yields ?P (submit_valid s tx channel rd wr)" for channel
    unfolding submit_valid_def
    using valid(2)
    by (intro yields_return) (auto simp: submit_reply_def accepted_def intro: yields_bindI [OF rej] yields_bindI [OF acc])
  then show ?thesis unfolding valid(4) by (intro yields_return)
qed

end
