(* ===== verification/Trace_Replay.thy ===== *)
theory Trace_Replay
  imports Trace_Text System_Frame
begin

text \<open>
  The replay of a trace. Its client works on its own variables only, so that the results on
  sound and live systems apply to it; every step accounts for the transactions it completes; the
  loop that waits for a capacity notification always finds an event to run; an error is reported
  with the line it comes from.
\<close>

section \<open>The client\<close>

lemma trace_passive: "passive_client (trace_client reporting)"
  by unfold_locales (auto simp: trace_client_def record_completion_def note_capacity_def hbm_system.defs
      split: if_splits)

interpretation trace: passive_client "trace_client reporting" for reporting
  by (rule trace_passive)

lemma start_driver_ok:
  assumes "make_system cfg q = Inr s" and "layout_ok (sys_mapper s)" and "events q = []"
  shows "system_ok {#} (start_driver s)" "alive 0 {#} (start_driver s)"
  using make_system_Inr [OF assms] make_system_alive [OF assms] by (simp_all add: start_driver_def)

section \<open>What a step completes\<close>

text \<open>The transaction a completion answers, and the transactions that are active.\<close>

definition transaction_of :: "hbm_completion \<Rightarrow> hbm_transaction" where
  "transaction_of co = \<lparr>tx_id = co_id co, tx_op = co_op co, tx_address = co_address co,
     tx_size_bytes = co_size_bytes co, tx_arrival_time = co_arrival_time co, tx_client = co_client co,
     tx_metadata = co_metadata co\<rparr>"

lemma transaction_of_completion [simp]: "transaction_of (completion_of r) = pr_transaction r"
  by (simp add: transaction_of_def completion_of_def Let_def)

lemma transaction_of_fields [simp]:
  "tx_op (transaction_of co) = co_op co" "tx_size_bytes (transaction_of co) = co_size_bytes co"
  by (simp_all add: transaction_of_def)

definition active :: "'z system \<Rightarrow> hbm_transaction multiset" where
  "active s = image_mset snd (mset (roster (parents s)))"

lemma totals_count: "totals st = totals st' \<Longrightarrow> totals (count_completion co st) = totals (count_completion co st')"
  by (cases "co_op co") (auto simp: count_completion_def Let_def totals_def)

lemma totals_completions:
  "totals st = totals st' \<Longrightarrow> totals (fold count_completion cos st) = totals (fold count_completion cos st')"
proof (induction cos arbitrary: st st')
  case (Cons co cos)
  show ?case unfolding fold_simps comp_apply by (rule Cons.IH [OF totals_count [OF Cons.prems]])
qed simp

text \<open>
  Between \<open>s\<close> and \<open>s'\<close> the transactions of \<open>cos\<close> completed, and were counted and
  reported; if there were any, capacity was announced.
\<close>

definition settled :: "bool \<Rightarrow> hbm_completion list \<Rightarrow> driver \<Rightarrow> driver \<Rightarrow> bool" where
  "settled reporting cos s s' \<longleftrightarrow> sys_config s' = sys_config s \<and> sys_now s' = sys_now s \<and>
     (paced (sys_queue s) \<longrightarrow> paced (sys_queue s')) \<and>
     (distinct (map fst (parents s)) \<longrightarrow> distinct (map fst (parents s')) \<and>
       active s = image_mset transaction_of (mset cos) + active s') \<and>
     completion_output s' = completion_output s @ (if reporting then map completion_line cos else []) \<and>
     totals (sys_stats s') = totals (fold count_completion cos (sys_stats s)) \<and>
     (capacity_changed s' \<or> cos = [] \<and> capacity_changed s' = capacity_changed s)"

definition settles :: "bool \<Rightarrow> driver \<Rightarrow> driver \<Rightarrow> bool" where
  "settles reporting s s' \<longleftrightarrow> (\<exists>cos. settled reporting cos s s')"

lemma settled_trans: "settled reporting cos a b \<Longrightarrow> settled reporting cos' b c \<Longrightarrow> settled reporting (cos @ cos') a c"
  using totals_completions [of "sys_stats b" "fold count_completion cos (sys_stats a)" cos']
  by (auto simp: settled_def ac_simps)

lemma settles_trans: "settles reporting a b \<Longrightarrow> settles reporting b c \<Longrightarrow> settles reporting a c"
  unfolding settles_def using settled_trans by blast

lemma frame_settled: "frame s s' \<Longrightarrow> settled reporting [] s s'"
  using fst_roster [of "parents s"] fst_roster [of "parents s'"]
  by (cases s; cases s') (auto simp: frame_def settled_def active_def simp del: fst_roster)

lemma yields_settles: "yields (frame s) m \<Longrightarrow> yields (settles reporting s) m"
  by (erule yields_mono) (auto simp: settles_def intro: frame_settled)

lemma settles_bindI:
  assumes "yields (settles reporting s) m" and "\<And>s'. settles reporting s s' \<Longrightarrow> yields (settles reporting s') (f s')"
  shows "yields (settles reporting s) (ebind m f)"
  using assms(1) by (rule yields_bindI) (use assms(2) settles_trans in \<open>blast intro: yields_mono\<close>)

lemma complete_parent_settles: "yields (settles reporting s) (complete_parent (trace_client reporting) s p)"
proof (cases "map_of (parents s) p")
  case None
  then show ?thesis by (simp add: complete_parent_def)
next
  case (Some r)
  let ?co = "completion_of r"
  have del: "distinct (map fst (parents s)) \<longrightarrow> active s = {#pr_transaction r#} + image_mset snd (mset (roster (AList.delete p (parents s)))) \<and>
      distinct (map fst (AList.delete p (parents s)))"
    using roster_delete [OF _ Some] by (simp add: active_def)
  then have "yields (settled reporting [?co] s) (complete_parent (trace_client reporting) s p)"
    by (auto simp: complete_parent_def Some Let_def call_client_def trace_client_def record_completion_def note_capacity_def
        yields_def ebind_eq_Inr settled_def active_def sys_now_def split: if_splits)
  then show ?thesis by (rule yields_mono) (auto simp: settles_def)
qed

lemma finish_access_settles: "yields (settles reporting s) (finish_access (trace_client reporting) s a channel t)"
  unfolding finish_access_def
proof (rule settles_bindI [OF yields_settles [OF do_controller_frame]], erule complete_access_totalled)
  fix s1 :: driver
  let ?p = "la_parent_id a"
  show "yields (settles reporting s1) (case map_of (parents s1) ?p of
       None \<Rightarrow> Inl (LogicError ''missing access parent'')
     | Some r \<Rightarrow> ebind (throw_if (remaining_accesses r = 0) (LogicError ''completed access underflow'')) (\<lambda>_.
         let r' = note_finished a channel t r;
             s2 = s1\<lparr>parents := AList.update ?p r' (parents s1)\<rparr> in
         if remaining_accesses r' = 0 \<and> admitted_bytes r' = tx_size_bytes (pr_transaction r')
         then complete_parent (trace_client reporting) s2 ?p else Inr s2))"
  proof (cases "map_of (parents s1) ?p")
    case (Some r)
    let ?s2 = "s1\<lparr>parents := AList.update ?p (note_finished a channel t r) (parents s1)\<rparr>"
    have "frame s1 ?s2" using Some by (simp add: frame_def roster_update sys_now_def)
    then have s2: "settles reporting s1 ?s2" by (auto simp: settles_def intro: frame_settled)
    then have "yields (settles reporting s1) (complete_parent (trace_client reporting) ?s2 ?p)"
      using complete_parent_settles settles_trans by (blast intro: yields_mono)
    with s2 Some show ?thesis by (auto simp: Let_def intro!: yields_return)
  qed simp
qed

lemma settles_refl [simp]: "settles reporting s s"
  using frame_settled [OF frame_refl] by (auto simp: settles_def)

lemma finish_all_settles: "yields (settles reporting s) (finish_all (trace_client reporting) as channel t s)"
  by (induction as arbitrary: s) (simp_all add: settles_bindI [OF finish_access_settles])

lemma handle_event_settles: "yields (settles reporting s) (handle_event (trace_client reporting) ev s)"
proof (cases ev)
  case (CapacityReady channel t)
  have "settled reporting [] s (s\<lparr>capacity_changed := True\<rparr>)"
    by (simp add: settled_def active_def sys_now_def)
  then have "settles reporting s (s\<lparr>capacity_changed := True\<rparr>)" unfolding settles_def by blast
  then show ?thesis
    by (simp add: CapacityReady handle_event_def trace_client_def call_client_def note_capacity_def yields_return)
qed (simp_all add: handle_event_frame yields_settles, simp add: handle_event_def finish_all_settles)

lemma run_next_settles:
  assumes run: "system_run_next (trace_client reporting) s = Inr (b, s')"
  obtains "\<not> b" "events (sys_queue s) = []" "s' = s"
  | x es where b "events (sys_queue s) = x # es" "settles reporting (popped s) s'"
proof (cases "events (sys_queue s)")
  case Nil
  then have "\<not> b" "s' = s" using run by (auto simp: system_run_next_def run_next_def)
  with Nil show ?thesis by (intro that(1))
next
  case (Cons x es)
  have "handle_event (trace_client reporting) (snd (ev_callback (snd x))) (popped s) = Inr s'" "b"
    using run by (simp_all add: system_run_next_popped [OF Cons] ebind_eq_Inr)
  with Cons show ?thesis by (intro that(2) yieldsD [OF handle_event_settles])
qed

section \<open>Waiting for capacity\<close>

text \<open>Backpressure means that a transaction is active.\<close>

lemma backpressure_active:
  assumes ok: "alive k X s" and sub: "try_submit_now s tx = Inr (r, s')" and bp: "sr_status r = Backpressure"
  shows "parents s \<noteq> [] \<and> parents s' = parents s"
proof (cases rule: try_submit_now_cases [of s tx])
  case (invalid r)
  with sub bp show ?thesis by simp
next
  case (valid rd wr)
  have core: "core_ok X s" by (rule system_ok_core [OF aliveD(1) [OF ok]])
  then have max: "max_active_transactions (controller (sys_config s)) \<noteq> 0"
    using setup_okD(5) by (auto simp: core_ok_def config_validate_ok)
  from sub valid(4) obtain a :: hbm_access where a: "submit_valid s tx (a_flat_channel (la_address a)) rd wr = Inr (r, s')"
    by (auto simp: ebind_eq_Inr)
  let ?i = "unat (a_flat_channel (la_address a))"
  from a bp have rej: "reject_submission s (a_flat_channel (la_address a)) = Inr s'"
    and full: "size_of (parents s) \<ge> max_active_transactions (controller (sys_config s)) \<or>
      (?i < length (controllers s) \<and> \<not> can_reserve (controllers s ! ?i) rd wr)"
    by (auto simp: submit_valid_def submit_reply_def ebind_eq_Inr element_def split: if_splits)
  have same: "parents s' = parents s"
    using rej by (auto simp: reject_submission_def Let_def ebind_eq_Inr)
  have "parents s \<noteq> []"
  proof
    assume none: "parents s = []"
    then have i: "?i < length (controllers s)" and no: "\<not> can_reserve (controllers s ! ?i) rd wr"
      using full max by (auto simp: size_of_def)
    have "held (controllers s ! ?i) \<noteq> {#}"
      using full_queue_held [of "controllers s ! ?i" "tx_op tx = hbm_op.Read"] no core_ok_channel(4,5) [OF core i]
      by (simp add: valid(5,6))
    then have "queued (controllers s) \<noteq> {#}" by (rule queued_held [OF i])
    then obtain j p W where W: "queued (controllers s) = add_mset (j, p) W" by (metis multiset_cases surj_pair)
    have "work_ok (add_mset (j, p) (W + flight (events (sys_queue s)) + X)) (controllers s) (parents s)"
      using core W by (simp add: core_ok_def)
    then show False by (rule work_ok_present) (simp add: none)
  qed
  with same show ?thesis by simp
qed

text \<open>The states of the loop that waits for the flag.\<close>

inductive awaits :: "driver_state client \<Rightarrow> driver \<Rightarrow> driver \<Rightarrow> bool" for cl and s where
  awaits_start: "awaits cl s s"
| awaits_event: "awaits cl s s' \<Longrightarrow> \<not> capacity_changed s' \<Longrightarrow> next_in_time s' \<Longrightarrow> sequence_left s' \<Longrightarrow>
    system_run_next cl s' = Inr (b, s'') \<Longrightarrow> awaits cl s s''"

lemma distinct_alive: "alive k X s \<Longrightarrow> distinct (map fst (parents s))"
  using system_ok_core [OF aliveD(1), of k X s] by (simp add: core_ok_def requests_ok_def)

lemma awaits_live:
  "awaits (trace_client reporting) s s' \<Longrightarrow> alive 0 {#} s \<Longrightarrow> parents s \<noteq> [] \<Longrightarrow>
   alive 0 {#} s' \<and> (capacity_changed s' \<or> parents s' \<noteq> [])"
proof (induction rule: awaits.induct)
  case awaits_start
  then show ?case by simp
next
  case (awaits_event s' b s'')
  then have s': "alive 0 {#} s'" "parents s' \<noteq> []" by simp_all
  have live: "alive 0 {#} s''"
    using yieldsD [OF trace.run_next_alive [of s' 0 reporting]] awaits_event.hyps(3-5)
      alive_sequence [OF s'(1)] by auto
  from awaits_event.hyps(5) show ?case
  proof (cases rule: run_next_settles)
    case 1
    with s' show ?thesis by simp
  next
    case (2 x es)
    then obtain cos where "settled reporting cos (popped s') s''" by (auto simp: settles_def)
    then have "capacity_changed s'' \<or> active s'' = active s'"
      using distinct_alive [OF s'(1)] by (auto simp: settled_def active_def popped_fields [OF 2(2)])
    with live s'(2) show ?thesis by (auto simp: active_def)
  qed
qed

lemma waiting_has_event:
  assumes "awaits (trace_client reporting) s s'" and "alive 0 {#} s" and "parents s \<noteq> []" and "\<not> capacity_changed s'"
  shows "events (sys_queue s') \<noteq> []"
  using awaits_live [OF assms(1-3)] assms(4) alive_has_event [of 0 s'] by blast

section \<open>Errors of a trace\<close>

text \<open>An error comes from the first line that cannot be replayed.\<close>

lemma replay_lines_append: "replay_lines cl n (ls @ ls') rp =
    (case replay_lines cl n ls rp of Inl e \<Rightarrow> Inl e | Inr rp' \<Rightarrow> replay_lines cl (n + length ls) ls' rp')"
  by (induction ls arbitrary: n rp) (simp_all split: sum.split)

lemma replay_lines_error: "replay_lines cl n ls rp = Inl (k, e) \<longleftrightarrow> (\<exists>before line after rp'.
    ls = before @ line # after \<and> k = n + length before + 1 \<and> replay_lines cl n before rp = Inr rp' \<and>
    replay_line cl line rp' = Inl e)" (is "?L ls n rp \<longleftrightarrow> ?R ls n rp")
proof
  show "?L ls n rp" if r: "?R ls n rp"
    using r by (auto simp: replay_lines_append)
  show "?R ls n rp" if l: "?L ls n rp"
    using l
  proof (induction ls arbitrary: n rp)
    case (Cons line ls)
    show ?case
    proof (cases "replay_line cl line rp")
      case (Inl x)
      with Cons.prems show ?thesis by (intro exI [of _ "[]"] exI [of _ line] exI [of _ ls]) auto
    next
      case (Inr rp1)
      with Cons.prems Cons.IH [of "Suc n" rp1] obtain before l after rp' where
        "ls = before @ l # after" "k = Suc n + length before + 1" "replay_lines cl (Suc n) before rp1 = Inr rp'"
        "replay_line cl l rp' = Inl e" by auto
      with Inr show ?thesis by (intro exI [of _ "line # before"]) auto
    qed
  qed simp
qed

text \<open>Transactions are numbered from one; blank lines and comments take no number.\<close>

definition is_row :: "string \<Rightarrow> bool" where
  "is_row line \<longleftrightarrow> line \<noteq> [] \<and> hd line \<noteq> CHR ''#''"

lemma replay_lines_id: "replay_lines cl n ls rp = Inr rp' \<Longrightarrow>
    rp_id rp' = rp_id rp + word_of_nat (length (filter is_row ls))"
proof (induction ls arbitrary: n rp)
  case (Cons line ls)
  then obtain rp1 where rp1: "replay_line cl line rp = Inr rp1" "replay_lines cl (Suc n) ls rp1 = Inr rp'"
    by (auto split: sum.splits)
  have "rp_id rp1 = rp_id rp + (if is_row line then 1 else 0)"
    using rp1(1) by (auto simp: replay_line_def is_row_def ebind_eq_Inr split: if_splits)
  with Cons.IH [OF rp1(2)] show ?case by simp
qed simp

end
