(* ===== verification/Trace_Operations.thy ===== *)
theory Trace_Operations
  imports Trace_Replay
begin

text \<open>
  A replay as a sequence of operations on the system: the rows of the trace are submitted in
  order, each again until it is accepted, while events are run and time passes in between.
  Whatever the interleaving, the transactions accepted are those completed and those still active.
\<close>

section \<open>The operations of a replay\<close>

text \<open>\<open>k\<close> rows have been accepted in \<open>n\<close> submissions and events.\<close>

inductive operations :: "driver_state client \<Rightarrow> driver \<Rightarrow> hbm_transaction list \<Rightarrow> nat \<Rightarrow> nat \<Rightarrow> driver \<Rightarrow> bool"
  for cl :: "driver_state client" and s0 :: driver and rows :: "hbm_transaction list"
where
  op_start: "operations cl s0 rows 0 0 s0"
| op_submit: "operations cl s0 rows k n s \<Longrightarrow> k < length rows \<Longrightarrow> try_submit_now s (rows ! k) = Inr (r, s') \<Longrightarrow>
    operations cl s0 rows (if accepted r then Suc k else k) (Suc n) s'"
| op_event: "operations cl s0 rows k n s \<Longrightarrow> system_run_next cl s = Inr (True, s') \<Longrightarrow> operations cl s0 rows k (Suc n) s'"
| op_wait: "operations cl s0 rows k n s \<Longrightarrow> sys_now s \<le> t \<Longrightarrow> (\<And>x. x \<in> set (events (sys_queue s)) \<Longrightarrow> t \<le> ev_time (snd x)) \<Longrightarrow>
    operations cl s0 rows k n (s\<lparr>sys_queue := (sys_queue s)\<lparr>eq_now := t\<rparr>\<rparr>)"
| op_flag: "operations cl s0 rows k n s \<Longrightarrow> operations cl s0 rows k n (s\<lparr>capacity_changed := False\<rparr>)"

inductive_cases operations_cases: "operations cl s0 rows k n s"

section \<open>Accounting\<close>

text \<open>What holds after \<open>k\<close> accepted rows, \<open>cos\<close> being the completions so far.\<close>

definition accounted :: "bool \<Rightarrow> driver \<Rightarrow> hbm_transaction list \<Rightarrow> hbm_completion list \<Rightarrow> driver \<Rightarrow> bool" where
  "accounted reporting s0 txs cos s \<longleftrightarrow> sys_config s = sys_config s0 \<and> paced (sys_queue s) \<and>
     distinct (map fst (parents s)) \<and> mset txs + active s0 = image_mset transaction_of (mset cos) + active s \<and>
     completion_output s = completion_output s0 @ (if reporting then map completion_line cos else []) \<and>
     totals (sys_stats s) = totals (fold count_completion cos (sys_stats s0))"

lemma accounted_settled:
  assumes "accounted reporting s0 txs cos s" and "settled reporting cos' s s'"
  shows "accounted reporting s0 txs (cos @ cos') s'"
  using assms totals_completions [of "sys_stats s" "fold count_completion cos (sys_stats s0)" cos']
  by (auto simp: accounted_def settled_def ac_simps)

lemma accounted_submit:
  assumes acc: "accounted reporting s0 txs cos s" and sub: "try_submit_now s tx = Inr (r, s')"
  shows "accounted reporting s0 (if accepted r then txs @ [tx] else txs) cos s' \<and> sys_now s' = sys_now s"
proof (cases "accepted r")
  case True
  then have new: "map_of (parents s) (tx_id tx) = None" and fr: "frame (enlisted tx s) s'"
    using yieldsD [OF try_submit_now_frame sub] by simp_all
  have "accounted reporting s0 (txs @ [tx]) cos (enlisted tx s)"
    using acc new by (auto simp: accounted_def enlisted_def active_def map_of_eq_None_iff ac_simps)
  from accounted_settled [OF this frame_settled [OF fr]] fr True show ?thesis
    by (simp add: frame_def enlisted_def sys_now_def)
next
  case False
  then have fr: "frame s s'" using yieldsD [OF try_submit_now_frame sub] by simp
  from accounted_settled [OF acc frame_settled [OF fr]] fr False show ?thesis by (simp add: frame_def)
qed

lemma accounted_pop:
  assumes acc: "accounted reporting s0 txs cos s" and es: "events (sys_queue s) = x # es"
  shows "accounted reporting s0 txs cos (popped s)" "sys_now s \<le> sys_now (popped s)" "sys_now (popped s) = ev_time (snd x)"
proof -
  have pop: "paced (sys_queue s)" using acc by (simp add: accounted_def)
  show now: "sys_now (popped s) = ev_time (snd x)" by (simp add: popped_def es sys_now_def)
  show "sys_now s \<le> sys_now (popped s)" unfolding now using paced_pop(1) [OF pop es] by (simp add: sys_now_def)
  have "paced (sys_queue (popped s))"
    unfolding paced_def using paced_pop(2-4) [OF pop es] by (simp add: popped_def es)
  then show "accounted reporting s0 txs cos (popped s)"
    using acc by (simp add: accounted_def active_def popped_fields [OF es]) (simp add: popped_def es)
qed

lemma accounted_run_next:
  assumes acc: "accounted reporting s0 txs cos s" and run: "system_run_next (trace_client reporting) s = Inr (True, s')"
  obtains cos' x es where "accounted reporting s0 txs cos' s'" "sys_now s \<le> sys_now s'"
    "events (sys_queue s) = x # es" "sys_now s' = ev_time (snd x)"
  using run
proof (cases rule: run_next_settles)
  case (2 x es)
  then obtain cos' where "settled reporting cos' (popped s) s'" by (auto simp: settles_def)
  with accounted_settled [OF accounted_pop(1) [OF acc 2(2)] this] accounted_pop(2,3) [OF acc 2(2)] 2(2) that show ?thesis
    by (auto simp: settled_def)
qed simp

text \<open>Along a replay the transactions are accounted for, and time does not run backwards.\<close>

lemma operations_accounted:
  assumes "operations (trace_client reporting) s0 rows k n s"
    and "paced (sys_queue s0)" and "distinct (map fst (parents s0))"
  shows "k \<le> length rows \<and> (\<exists>cos. accounted reporting s0 (take k rows) cos s)"
  using assms(1)
proof (induction rule: operations.induct)
  case op_start
  have "accounted reporting s0 [] [] s0" using assms(2,3) by (simp add: accounted_def)
  then show ?case by auto
next
  case (op_submit k n s r s')
  then obtain cos where cos: "accounted reporting s0 (take k rows) cos s" by blast
  show ?case
    using accounted_submit [OF cos op_submit.hyps(3)] op_submit.hyps(2) by (auto simp: take_Suc_conv_app_nth)
next
  case (op_event k n s s')
  then obtain cos where cos: "accounted reporting s0 (take k rows) cos s" by blast
  show ?case by (rule accounted_run_next [OF cos op_event.hyps(2)]) (use op_event.IH in blast)
next
  case (op_wait k n s t)
  then show ?case by (auto simp: accounted_def active_def paced_def)
next
  case (op_flag k n s)
  then show ?case by (auto simp: accounted_def active_def)
qed

section \<open>Nothing is left behind\<close>

definition total_bytes :: "hbm_transaction list \<Rightarrow> nat" where
  "total_bytes txs = sum_list (map (\<lambda>tx. unat (tx_size_bytes tx)) txs)"

lemma total_bytes_simps [simp]:
  "total_bytes [] = 0" "total_bytes (xs @ ys) = total_bytes xs + total_bytes ys"
  "total_bytes (tx # xs) = unat (tx_size_bytes tx) + total_bytes xs"
  by (simp_all add: total_bytes_def)

lemma active_bytes_roster: "active_bytes ps = total_bytes (map snd (roster ps))"
  by (induction ps) (auto simp: active_bytes_def summed_def)

lemma total_bytes_mset: "total_bytes txs = (\<Sum>tx \<in># mset txs. unat (tx_size_bytes tx))"
  by (simp add: total_bytes_def sum_mset_sum_list flip: mset_map)

lemma accounted_bytes:
  assumes acc: "accounted reporting s0 (take k rows) cos s" and none: "parents s0 = []" and k: "k < length rows"
  shows "active_bytes (parents s) + unat (tx_size_bytes (rows ! k)) \<le> total_bytes rows"
proof -
  have "mset (take k rows) = image_mset transaction_of (mset cos) + active s"
    using acc none by (simp add: accounted_def active_def)
  then have "total_bytes (take k rows) = (\<Sum>tx \<in># image_mset transaction_of (mset cos). unat (tx_size_bytes tx)) +
      active_bytes (parents s)"
    by (simp add: total_bytes_mset active_bytes_roster active_def del: image_mset.compositionality)
  moreover have "rows = take k rows @ rows ! k # drop (Suc k) rows" using k by (simp add: id_take_nth_drop)
  then have "total_bytes rows = total_bytes (take k rows) + (unat (tx_size_bytes (rows ! k)) + total_bytes (drop (Suc k) rows))"
    by (metis total_bytes_simps(2,3))
  ultimately show ?thesis by simp
qed

lemma operations_alive:
  assumes "operations (trace_client reporting) s0 rows k n s" and "time_left s" and "alive (m + n * 2 ^ 34) {#} s0"
    and s0: "paced (sys_queue s0)" "parents s0 = []" and bytes: "total_bytes rows < 2 ^ 64"
  shows "alive m {#} s"
  using assms(1-3)
proof (induction arbitrary: m rule: operations.induct)
  case op_start
  then show ?case by simp
next
  case (op_submit k n s r s')
  obtain cos where cos: "accounted reporting s0 (take k rows) cos s"
    using operations_accounted [OF op_submit.hyps(1) s0(1)] s0(2) by auto
  have same: "sys_now s' = sys_now s" "sys_config s' = sys_config s"
    using accounted_submit [OF cos op_submit.hyps(3)] cos by (auto simp: accounted_def)
  then have time: "time_left s" using op_submit.prems(1) by (simp add: time_left_def)
  have "alive (2 ^ 34 + m) {#} s"
    using op_submit.IH [OF time, of "2 ^ 34 + m"] op_submit.prems(2) by (simp add: ac_simps)
  moreover from this have "wake_count s \<le> 2 ^ 34"
    using step_count_bound [OF system_ok_core [OF aliveD(1)], of "2 ^ 34 + m" "{#}" s] by (simp add: step_count_def)
  ultimately have "alive (wake_count s + m) {#} s" by (auto intro: alive_room)
  moreover have "active_bytes (parents s) + unat (tx_size_bytes (rows ! k)) < 2 ^ 64"
    using accounted_bytes [OF cos s0(2) op_submit.hyps(2)] bytes by simp
  ultimately show ?case
    using yieldsD [OF try_submit_now_alive op_submit.hyps(3)] time by simp
next
  case (op_event k n s s')
  obtain cos where cos: "accounted reporting s0 (take k rows) cos s"
    using operations_accounted [OF op_event.hyps(1) s0(1)] s0(2) by auto
  from cos op_event.hyps(2) obtain cos' x es where cos': "accounted reporting s0 (take k rows) cos' s'"
    and now: "sys_now s \<le> sys_now s'" "events (sys_queue s) = x # es" "sys_now s' = ev_time (snd x)"
    by (rule accounted_run_next)
  have cfg: "sys_config s' = sys_config s" using cos cos' by (simp add: accounted_def)
  have time: "time_left s" "next_in_time s"
    using op_event.prems(1) now cfg by (simp_all add: time_left_def next_in_time_def word_le_nat_alt)
  have al: "alive (2 ^ 34 + m) {#} s"
    using op_event.IH [OF time(1), of "2 ^ 34 + m"] op_event.prems(2) by (simp add: ac_simps)
  then have "step_count s \<le> 2 ^ 34"
    using step_count_bound [OF system_ok_core [OF aliveD(1)], of "2 ^ 34 + m" "{#}" s] by simp
  with al have "alive (step_count s + m) {#} s" by (auto intro: alive_room)
  from yieldsD [OF trace.run_next_alive [OF this time(2)] op_event.hyps(2)] show ?case by simp
next
  case (op_wait k n s t)
  have "time_left s" using op_wait.prems(1) op_wait.hyps(2) by (simp add: time_left_def sys_now_def word_le_nat_alt)
  with op_wait.IH op_wait.prems(2) show ?case by simp
next
  case (op_flag k n s)
  have "alive m {#} s" using op_flag by (simp add: time_left_def sys_now_def)
  then show ?case by (simp add: alive_unstuck unstuck_def progress_ok_def room_def waiting_ok_def system_ok_def core_ok_def counts_ok_def)
qed

text \<open>The bytes counted for the completed reads and writes.\<close>

definition bytes_of_op :: "hbm_op \<Rightarrow> hbm_transaction multiset \<Rightarrow> u64" where
  "bytes_of_op op txs = (\<Sum>tx \<in># txs. if tx_op tx = op then tx_size_bytes tx else 0)"

lemma totals_counted:
  "totals (fold count_completion cos st) = (completed_transactions st + word_of_nat (length cos),
    read_bytes st + bytes_of_op hbm_op.Read (image_mset transaction_of (mset cos)),
    write_bytes st + bytes_of_op hbm_op.Write (image_mset transaction_of (mset cos)))"
proof (induction cos arbitrary: st)
  case Nil
  then show ?case by (simp add: totals_def bytes_of_op_def)
next
  case (Cons co cos)
  show ?case
    unfolding fold_simps comp_apply Cons.IH
    by (cases "co_op co") (simp_all add: count_completion_def Let_def bytes_of_op_def)
qed

lemma start_driver_state:
  assumes "make_system cfg empty_queue = Inr s0"
  shows "sys_queue (start_driver s0) = empty_queue" "parents (start_driver s0) = []"
    "completion_output (start_driver s0) = []" "totals (sys_stats (start_driver s0)) = (0, 0, 0)"
  using assms by (auto simp: start_driver_def hbm_system.defs driver.defs make_system_def Let_def ebind_eq_Inr totals_def
      initial_stats_def split: if_splits)

lemma start_driver_fresh:
  assumes "make_system cfg empty_queue = Inr s0"
  shows "paced (sys_queue (start_driver s0))" "distinct (map fst (parents (start_driver s0)))"
  using start_driver_state [OF assms] by simp_all

text \<open>When no event is left, the rows are the transactions completed.\<close>

lemma operations_complete:
  assumes make: "make_system cfg empty_queue = Inr s0" and lay: "layout_ok (sys_mapper s0)"
    and ops: "operations (trace_client reporting) (start_driver s0) rows (length rows) n s"
    and n: "n < 2 ^ 29" and time: "time_left s" and bytes: "total_bytes rows < 2 ^ 64"
    and ended: "events (sys_queue s) = []"
  obtains cos where "parents s = []" "image_mset transaction_of (mset cos) = mset rows"
    "completion_output s = (if reporting then map completion_line cos else [])"
    "totals (sys_stats s) = (word_of_nat (length rows), bytes_of_op hbm_op.Read (mset rows), bytes_of_op hbm_op.Write (mset rows))"
proof -
  let ?s0 = "start_driver s0"
  note fresh = start_driver_state [OF make]
  have "room (0 + n * 2 ^ 34) ?s0" using n by (simp add: room_def fresh empty_queue_def)
  then have "alive (0 + n * 2 ^ 34) {#} ?s0"
    using start_driver_ok(2) [OF make lay events_empty] by (simp add: alive_unstuck unstuck_def)
  then have "alive 0 {#} s"
    by (rule operations_alive [OF ops time _ _ fresh(2) bytes]) (simp add: fresh)
  then have done0: "parents s = []" using alive_has_event ended by blast
  obtain cos where cos: "accounted reporting ?s0 rows cos s"
    using operations_accounted [OF ops] by (auto simp: fresh)
  then have all: "image_mset transaction_of (mset cos) = mset rows" using done0 by (simp add: accounted_def active_def fresh)
  then have len: "length cos = length rows" by (metis size_image_mset size_mset)
  have "totals (sys_stats s) = (word_of_nat (length rows), bytes_of_op hbm_op.Read (mset rows), bytes_of_op hbm_op.Write (mset rows))"
    using cos fresh(4) by (simp add: accounted_def totals_counted all len) (simp add: totals_def)
  with that [OF done0 all] cos show ?thesis by (simp add: accounted_def fresh)
qed

end
