(* ===== verification/Trace_Program.thy ===== *)
theory Trace_Program
  imports Trace_Operations
begin

text \<open>
  The program carries out a replay: whatever its loops do, a run of \<open>main\<close> that succeeds is a
  sequence of \<open>operations\<close> that submits every row of the trace and ends with no event left.
\<close>

section \<open>The loops of the event queue\<close>

lemma dispatch_system:
  assumes "events (sys_queue s) \<noteq> []" and "dispatch_one (execute cl) (sys_queue s) s = Inr p"
  shows "fst p = sys_queue (snd p)" "system_run_next cl s = Inr (True, snd p)"
proof -
  obtain x es where es: "events (sys_queue s) = x # es" using assms(1) by (cases "events (sys_queue s)") auto
  obtain token ev where ev: "ev_callback (snd x) = (token, ev)" by fastforce
  have "dispatch_one (execute cl) (sys_queue s) s = ebind (handle_event cl ev (popped s)) (\<lambda>s'. Inr (sys_queue s', s'))"
    by (cases x) (use es ev in \<open>simp add: dispatch_one_def pop_event_def execute_def popped_def\<close>)
  with assms(2) show "fst p = sys_queue (snd p)" "system_run_next cl s = Inr (True, snd p)"
    by (auto simp: system_run_next_popped [OF es] ev ebind_eq_Inr)
qed

lemma run_operations:
  assumes "run (execute cl) (sys_queue s) s = Some (Inr (q, s'))" and "operations cl s0 rows k n s"
  shows "\<exists>n'. operations cl s0 rows k n' s' \<and> q = sys_queue s' \<and> events q = []"
proof -
  let ?P = "\<lambda>exec p w m. exec = execute cl \<longrightarrow> p = sys_queue w \<longrightarrow> (\<forall>n q s'. m = Inr (q, s') \<longrightarrow> operations cl s0 rows k n w \<longrightarrow>
    (\<exists>n'. operations cl s0 rows k n' s' \<and> q = sys_queue s' \<and> events q = []))"
  have "?P (execute cl) (sys_queue s) s (Inr (q, s') :: (_ \<times> driver) result)"
  proof (rule run.raw_induct [where P = ?P, OF _ assms(1)])
    fix loop exec p w m
    assume IH: "\<And>exec p w m. loop exec p w = Some m \<Longrightarrow> ?P exec p w m"
      and m: "(if events p = [] then Some (Inr (p, w)) else case dispatch_one exec p w of
        Inl x \<Rightarrow> Some (Inl x) | Inr y \<Rightarrow> loop exec (fst y) (snd y)) = Some m"
    show "?P exec p w m"
    proof (intro impI allI)
      fix n q s' assume exec: "exec = execute cl" "p = sys_queue w" and m': "m = Inr (q, s')" and ops: "operations cl s0 rows k n w"
      show "\<exists>n'. operations cl s0 rows k n' s' \<and> q = sys_queue s' \<and> events q = []"
      proof (cases "events p = []")
        case True
        with m m' exec ops show ?thesis by auto
      next
        case False
        with m m' exec obtain y where y: "dispatch_one (execute cl) (sys_queue w) w = Inr y" "loop (execute cl) (fst y) (snd y) = Some m"
          by (auto split: sum.splits)
        note step = dispatch_system [OF False [unfolded exec(2)] y(1)]
        with IH [OF y(2)] m' op_event [OF ops step(2)] show ?thesis by blast
      qed
    qed
  qed
  with assms(2) show ?thesis by blast
qed

lemma run_until_operations:
  assumes "run_until_loop (execute (trace_client reporting)) t (sys_queue s) s = Some (Inr (q, s'))"
    and "operations (trace_client reporting) s0 rows k n s" and "sys_now s \<le> t"
    and s0: "paced (sys_queue s0)" "distinct (map fst (parents s0))"
  shows "\<exists>n'. operations (trace_client reporting) s0 rows k n' (s'\<lparr>sys_queue := q\<rparr>)"
proof -
  let ?cl = "trace_client reporting"
  let ?P = "\<lambda>exec t p w m. exec = execute ?cl \<longrightarrow> p = sys_queue w \<longrightarrow> (\<forall>n q s'. m = Inr (q, s') \<longrightarrow>
    operations ?cl s0 rows k n w \<longrightarrow> sys_now w \<le> t \<longrightarrow> (\<exists>n'. operations ?cl s0 rows k n' (s'\<lparr>sys_queue := q\<rparr>)))"
  have "?P (execute ?cl) t (sys_queue s) s (Inr (q, s') :: (_ \<times> driver) result)"
  proof (rule run_until_loop.raw_induct [where P = ?P, OF _ assms(1)])
    fix loop exec t p and w :: driver and m
    assume IH: "\<And>exec t p w m. loop exec t p w = Some m \<Longrightarrow> ?P exec t p w m"
      and m: "(if events p = [] \<or> \<not> ev_time (snd (hd (events p))) \<le> t then Some (Inr (p\<lparr>eq_now := t\<rparr>, w))
        else case dispatch_one exec p w of Inl x \<Rightarrow> Some (Inl x) | Inr y \<Rightarrow> loop exec t (fst y) (snd y)) = Some m"
    show "?P exec t p w m"
    proof (intro impI allI)
      fix n q s' assume exec: "exec = execute ?cl" "p = sys_queue w" and m': "m = Inr (q, s')"
        and ops: "operations ?cl s0 rows k n w" and now: "sys_now w \<le> t"
      obtain cos where cos: "accounted reporting s0 (take k rows) cos w" using operations_accounted [OF ops s0] by blast
      show "\<exists>n'. operations ?cl s0 rows k n' (s'\<lparr>sys_queue := q\<rparr>)"
      proof (cases "events p = [] \<or> \<not> ev_time (snd (hd (events p))) \<le> t")
        case True
        have "t \<le> ev_time (snd x)" if x: "x \<in> set (events (sys_queue w))" for x
        proof -
          obtain y es where es: "events (sys_queue w) = y # es" using x by (cases "events (sys_queue w)") auto
          then have "t \<le> ev_time (snd y)" using True exec(2) by simp
          moreover have "x = y \<or> x \<in> set es" "paced (sys_queue w)" using x es cos by (simp_all add: accounted_def)
          ultimately show ?thesis using paced_pop(2) [OF _ es, of x] order_trans by blast
        qed
        from op_wait [OF ops now this] True m m' exec(2) show ?thesis by auto
      next
        case False
        with m m' exec obtain y where y: "dispatch_one (execute ?cl) (sys_queue w) w = Inr y" "loop (execute ?cl) t (fst y) (snd y) = Some m"
          by (auto split: sum.splits)
        have "events (sys_queue w) \<noteq> []" using False exec(2) by simp
        note step = dispatch_system [OF this y(1)]
        have "sys_now (snd y) \<le> t"
          by (rule accounted_run_next [OF cos step(2)]) (use False exec(2) in simp)
        with IH [OF y(2)] m' op_event [OF ops step(2)] step(1) show ?thesis by blast
      qed
    qed
  qed
  with assms(2,3) show ?thesis by blast
qed

section \<open>The loops of the replay\<close>

lemma await_operations:
  assumes "await_capacity cl s = Some (Inr s')" and "operations cl s0 rows k n s"
  shows "\<exists>n'. operations cl s0 rows k n' s'"
proof -
  let ?P = "\<lambda>c s m. c = cl \<longrightarrow> (\<forall>n s'. m = Inr s' \<longrightarrow> operations cl s0 rows k n s \<longrightarrow> (\<exists>n'. operations cl s0 rows k n' s'))"
  have "?P cl s (Inr s' :: driver result)"
  proof (rule await_capacity.raw_induct [where P = ?P, OF _ assms(1)])
    fix loop c s m
    assume IH: "\<And>c s m. loop c s = Some m \<Longrightarrow> ?P c s m"
      and m: "(if capacity_changed s then Some (Inr s) else case system_run_next c s of Inl e \<Rightarrow> Some (Inl e)
        | Inr (again, s') \<Rightarrow> if \<not> again then Some (Inl (RuntimeError ''backpressure without a future capacity event''))
          else loop c s') = Some m"
    show "?P c s m"
    proof (intro impI allI)
      fix n s' assume c: "c = cl" and m': "m = Inr s'" and ops: "operations cl s0 rows k n s"
      show "\<exists>n'. operations cl s0 rows k n' s'"
      proof (cases "capacity_changed s")
        case True
        with m m' ops show ?thesis by auto
      next
        case False
        with m m' c obtain s1 where s1: "system_run_next cl s = Inr (True, s1)" "loop cl s1 = Some m"
          by (auto split: sum.splits prod.splits if_splits)
        with IH [OF s1(2)] m' op_event [OF ops s1(1)] show ?thesis by blast
      qed
    qed
  qed
  with assms(2) show ?thesis by blast
qed

lemma submit_operations:
  assumes "submit_loop cl (rows ! k) r s = Some (Inr (r', s'))"
    and "operations cl s0 rows (if accepted r then Suc k else k) n s" and "k < length rows"
  shows "\<exists>n'. operations cl s0 rows (if accepted r' then Suc k else k) n' s'"
proof -
  let ?P = "\<lambda>c tx r s m. c = cl \<longrightarrow> tx = rows ! k \<longrightarrow> (\<forall>n r' s'. m = Inr (r', s') \<longrightarrow>
    operations cl s0 rows (if accepted r then Suc k else k) n s \<longrightarrow>
    (\<exists>n'. operations cl s0 rows (if accepted r' then Suc k else k) n' s'))"
  have "?P cl (rows ! k) r s (Inr (r', s') :: (_ \<times> driver) result)"
  proof (rule submit_loop.raw_induct [where P = ?P, OF _ assms(1)])
    fix loop c tx r s m
    assume IH: "\<And>c tx r s m. loop c tx r s = Some m \<Longrightarrow> ?P c tx r s m"
      and m: "(if sr_status r \<noteq> Backpressure then Some (Inr (r, s)) else case await_capacity c s of None \<Rightarrow> None
        | Some (Inl e) \<Rightarrow> Some (Inl e) | Some (Inr s1) \<Rightarrow> (case try_submit_now (s1\<lparr>capacity_changed := False\<rparr>) tx of
             Inl e \<Rightarrow> Some (Inl e) | Inr (r', s') \<Rightarrow> loop c tx r' s')) = Some m"
    show "?P c tx r s m"
    proof (intro impI allI)
      fix n r' s' assume c: "c = cl" "tx = rows ! k" and m': "m = Inr (r', s')"
        and ops: "operations cl s0 rows (if accepted r then Suc k else k) n s"
      show "\<exists>n'. operations cl s0 rows (if accepted r' then Suc k else k) n' s'"
      proof (cases "sr_status r \<noteq> Backpressure")
        case True
        with m m' ops show ?thesis by auto
      next
        case False
        then have ops: "operations cl s0 rows k n s" using ops by (simp add: accepted_def)
        from False m m' c obtain s1 r2 s2 where s1: "await_capacity cl s = Some (Inr s1)"
          and s2: "try_submit_now (s1\<lparr>capacity_changed := False\<rparr>) (rows ! k) = Inr (r2, s2)" "loop cl (rows ! k) r2 s2 = Some m"
          by (auto split: option.splits sum.splits prod.splits)
        from await_operations [OF s1 ops] obtain n1 where "operations cl s0 rows k n1 s1" by blast
        from op_submit [OF op_flag [OF this] assms(3) s2(1)] IH [OF s2(2)] m' show ?thesis by blast
      qed
    qed
  qed
  with assms(2) show ?thesis by blast
qed

lemma replay_transaction_operations:
  assumes run: "replay_transaction (trace_client reporting) (rows ! k) s = Inr s'"
    and ops: "operations (trace_client reporting) s0 rows k n s" and k: "k < length rows"
    and s0: "paced (sys_queue s0)" "distinct (map fst (parents s0))"
  shows "\<exists>n'. operations (trace_client reporting) s0 rows (Suc k) n' s'"
proof -
  let ?cl = "trace_client reporting" and ?t = "tx_arrival_time (rows ! k)"
  obtain s1 r s2 r' where s1: "(if ?t \<ge> sys_now s then system_run_until ?cl s ?t else Inr s) = Inr s1"
    and s2: "try_submit_now (s1\<lparr>capacity_changed := False\<rparr>) (rows ! k) = Inr (r, s2)"
    and s3: "submit_loop ?cl (rows ! k) r s2 = Some (Inr (r', s'))" "accepted r'"
    using run unfolding replay_transaction_def
    by (auto simp: outcome_def elim!: ebind_cases split: option.splits if_split_asm)
  have "\<exists>n'. operations ?cl s0 rows k n' s1"
  proof (cases "?t \<ge> sys_now s")
    case True
    with s1 obtain q w where "run_until_loop (execute ?cl) ?t (sys_queue s) s = Some (Inr (q, w))" "s1 = w\<lparr>sys_queue := q\<rparr>"
      by (auto simp: system_run_until_def run_until_def outcome_def ebind_eq_Inr sys_now_def split: option.splits if_splits)
    with run_until_operations [OF _ ops True s0] show ?thesis by blast
  qed (use s1 ops in auto)
  then obtain n1 where "operations ?cl s0 rows k n1 s1" by blast
  from op_submit [OF op_flag [OF this] k s2] obtain n2 where
    "operations ?cl s0 rows (if accepted r then Suc k else k) n2 s2" by blast
  from submit_operations [OF s3(1) this k] s3(2) show ?thesis by simp
qed

section \<open>The rows of a trace\<close>

fun trace_rows :: "transaction_id \<Rightarrow> string list \<Rightarrow> hbm_transaction list" where
  "trace_rows tid [] = []"
| "trace_rows tid (line # lines) = (if is_row line
     then (case parse_row tid line of Inl e \<Rightarrow> [] | Inr tx \<Rightarrow> tx # trace_rows (tid + 1) lines)
     else trace_rows tid lines)"

lemma replay_lines_operations:
  assumes "replay_lines (trace_client reporting) m ls rp = Inr rp'" and "rows = before @ trace_rows (rp_id rp) ls"
    and "operations (trace_client reporting) s0 rows (length before) n (rp_driver rp)"
    and s0: "paced (sys_queue s0)" "distinct (map fst (parents s0))"
  shows "\<exists>n'. operations (trace_client reporting) s0 rows (length rows) n' (rp_driver rp')"
  using assms(1-3)
proof (induction ls arbitrary: m rp before n)
  case Nil
  then show ?case by auto
next
  case (Cons line ls)
  then obtain rp1 where rp1: "replay_line (trace_client reporting) line rp = Inr rp1"
    "replay_lines (trace_client reporting) (Suc m) ls rp1 = Inr rp'"
    by (auto split: sum.splits)
  show ?case
  proof (cases "is_row line")
    case False
    with rp1(1) have "rp1 = rp" by (auto simp: replay_line_def is_row_def)
    with Cons.IH [OF rp1(2)] Cons.prems(2,3) False show ?thesis by simp
  next
    case True
    with rp1(1) obtain tx where tx: "parse_row (rp_id rp) line = Inr tx"
      and s: "replay_transaction (trace_client reporting) tx (rp_driver rp) = Inr (rp_driver rp1)" "rp_id rp1 = rp_id rp + 1"
      by (auto simp: replay_line_def is_row_def ebind_eq_Inr split: if_splits)
    have rows: "rows = (before @ [tx]) @ trace_rows (rp_id rp1) ls" using Cons.prems(2) True tx s(2) by simp
    then have nth: "rows ! length before = tx" "length before < length rows" by (simp_all add: nth_append)
    from replay_transaction_operations [OF _ Cons.prems(3) nth(2) s0] s(1) nth(1) obtain n' where
      "operations (trace_client reporting) s0 rows (length (before @ [tx])) n' (rp_driver rp1)" by auto
    from Cons.IH [OF rp1(2) rows this] show ?thesis .
  qed
qed

section \<open>The program\<close>

lemma run_config_layout:
  assumes "parse_options args opts = Inr (Inr opts')" and "opt_config opts \<in> {default_config, hbm2_2000, hbm3_6400}"
  shows "opt_config opts' \<in> {default_config, hbm2_2000, hbm3_6400}"
  using assms
  by (induction args opts rule: parse_options.induct) (auto simp: ebind_eq_Inr split: if_splits)

lemma driver_layout:
  assumes "make_system (run_config opts) q = Inr s" and "opt_config opts \<in> {default_config, hbm2_2000, hbm3_6400}"
  shows "layout_ok (sys_mapper s)"
proof -
  have "organized_mapper (run_config opts) = organized_mapper (opt_config opts)"
    by (simp add: organized_mapper_def run_config_def split: option.split)
  moreover have "organized_mapper (run_config opts) = Inr (sys_mapper s)"
    using assms(1) by (auto simp: make_system_def organized_mapper_def Let_def ebind_eq_Inr split: if_splits)
  ultimately show ?thesis using assms(2) profile_layouts by auto
qed

lemma complain_fields [simp]:
  "exit_code (complain m) = 2" "std_out (complain m) = []" "std_err (complain m) \<noteq> []" "completion_file (complain m) = None"
  by (simp_all add: complain_def)

text \<open>What a replay that succeeds has done.\<close>

lemma replay_trace_operations:
  assumes "replay_trace trace s0 reporting = Inr pe" and "exit_code pe = 0"
    and s0: "paced (sys_queue s0)" "distinct (map fst (parents s0))"
  obtains n s where "operations (trace_client reporting) s0 (trace_rows 1 (getlines (CHR 0x0A) trace))
      (length (trace_rows 1 (getlines (CHR 0x0A) trace))) n s"
    "events (sys_queue s) = []" "std_out pe = print_lines (report_lines (sys_stats s))" "std_err pe = []"
    "completion_file pe = (if reporting then Some (print_lines (completion_header # completion_output s)) else None)"
proof -
  let ?cl = "trace_client reporting" and ?ls = "getlines (CHR 0x0A) trace"
  obtain rp s where rp: "replay_lines ?cl 0 ?ls \<lparr>rp_id = 1, rp_last_arrival = 0, rp_driver = s0\<rparr> = Inr rp"
    and s: "system_run ?cl (rp_driver rp) = Inr s"
    and pe: "pe = \<lparr>exit_code = 0, std_out = print_lines (report_lines (sys_stats s)), std_err = [],
      completion_file = (if reporting then Some (print_lines (completion_header # completion_output s)) else None)\<rparr>"
    using assms(1,2) by (auto simp: replay_trace_def Let_def elim!: ebind_cases split: sum.split_asm option.split_asm)
  obtain n where "operations ?cl s0 (trace_rows 1 ?ls) (length (trace_rows 1 ?ls)) n (rp_driver rp)"
    using replay_lines_operations [OF rp, of "trace_rows 1 ?ls" "[]" s0] op_start s0 by fastforce
  moreover obtain q w where "run (execute ?cl) (sys_queue (rp_driver rp)) (rp_driver rp) = Some (Inr (q, w))" "s = w\<lparr>sys_queue := q\<rparr>"
    using s by (auto simp: system_run_def outcome_def ebind_eq_Inr split: option.splits)
  ultimately obtain n' where "operations ?cl s0 (trace_rows 1 ?ls) (length (trace_rows 1 ?ls)) n' s" "events (sys_queue s) = []"
    using run_operations [of ?cl "rp_driver rp" q w s0] by fastforce
  with pe show thesis by (intro that) auto
qed

lemma replay_trace_exit:
  assumes "replay_trace trace s reporting = Inr pe"
  shows "exit_code pe = 0 \<or> (exit_code pe = 2 \<and> std_out pe = [] \<and> std_err pe \<noteq> [] \<and> completion_file pe = None)"
  using assms by (auto simp: replay_trace_def Let_def elim!: ebind_cases split: sum.split_asm option.split_asm)

lemma main_cases:
  assumes "main files writable args = Inr pe"
  obtains "exit_code pe = 2" "std_out pe = []" "std_err pe \<noteq> []" "completion_file pe = None"
  | path rest opts trace s0 where "exit_code pe = 0" "args = path # rest" "parse_options rest default_options = Inr (Inr opts)"
      "files path = Some trace" "make_system (run_config opts) empty_queue = Inr s0"
      "replay_trace trace (start_driver s0) (opt_completions opts \<noteq> []) = Inr pe"
proof (cases "exit_code pe = 2 \<and> std_out pe = [] \<and> std_err pe \<noteq> [] \<and> completion_file pe = None")
  case True
  then show ?thesis by (elim conjE) (rule that(1))
next
  case False
  then obtain path rest opts trace s0 where "args = path # rest" "parse_options rest default_options = Inr (Inr opts)"
      "files path = Some trace" "make_system (run_config opts) empty_queue = Inr s0"
      "replay_trace trace (start_driver s0) (opt_completions opts \<noteq> []) = Inr pe"
    using assms by (auto simp: main_def Let_def elim!: ebind_cases
        split: list.split_asm sum.split_asm option.split_asm if_split_asm)
  moreover from replay_trace_exit [OF this(5)] False have "exit_code pe = 0" by blast
  ultimately show ?thesis by (intro that(2))
qed

end
