(* ===== verification/Trace_Samples.thy ===== *)
theory Trace_Samples
  imports System_Properties Trace_Program
begin

text \<open>
  A trace of one row, run to its end by the simplifier. The congruences below let it evaluate by
  value: a function is entered only when its argument has been computed.
\<close>

lemma replicate_numeral: "replicate (numeral k) x = x # replicate (pred_numeral k) x"
  by (simp add: numeral_eq_Suc)

lemma by_value:
  "m = m' \<Longrightarrow> ebind m f = ebind m' f" "x = x' \<Longrightarrow> Let x g = Let x' g"
  "s = s' \<Longrightarrow> i = i' \<Longrightarrow> with_controller s i h = with_controller s' i' h"
  "s = s' \<Longrightarrow> i = i' \<Longrightarrow> do_controller s i k = do_controller s' i' k"
  by simp_all

lemmas weak_cases = option.case_cong_weak sum.case_cong_weak list.case_cong_weak prod.case_cong_weak

lemmas evaluation = Let_def
  default_metadata_def initial_resource_stats_def initial_queue_stats_def initial_channel_stats_def
  initial_latency_def initial_stats_def initial_bank_def bandwidth_validate_def transfer_time_def
  default_topology_def topology_validate_def channel_count_def zero_address_def make_address_mapper_def
  map_linear_def fields_outside_def flatten_address_def map_address_def bank_count_def
  next_mapping_boundary_def default_timing_spec_def compact_constraints_def constraints_def
  make_timing_engine_def resource_key_def earliest_issue_def all_scopes_def push_bounded_def
  record_scope_def record_issue_def default_organization_def command_bus_of_def refresh_duration_def
  requested_command_def plan_access_def plan_command_def command_rank_def frfcfs_less_def
  scheduler_choose_def empty_queue_def schedule_at_def key_before_def pop_event_def dispatch_one_def
  run_until_def run_next_def has_outstanding_def is_data_command_def has_capacity_def make_controller_def
  can_reserve_def available_read_slots_def available_write_slots_def reserve_def admit_reserved_def
  mark_wakeup_def clear_wakeup_def claim_refresh_event_def local_bank_def update_write_drain_def
  newly_starved_def update_starvation_def auto_precharge_def planned_command_def refresh_eligibility_def
  candidate_of_def queue_of_def set_queue_def selected_candidate_def choose_next_def choose_maintenance_def
  command_bus_ready_def earliest_command_def apply_transition_def update_channel_def update_queue_stats_def
  add_busy_def add_issue_def update_bank_stats_def update_pseudo_channel_stats_def when_detailed_def
  bus_time_def occupy_bus_def record_command_def begin_access_def set_access_def count_activation_def
  issue_activate_def issue_precharge_def merge_reads_def remove_at_def close_after_data_def
  cas_latency_of_def stage_item_def account_item_def count_physical_def account_transfer_def
  to_completion_def transfer_def issue_data_def issue_def prepare_refresh_for_arrival_def step_result_def
  stall_on_refresh_def drive_def complete_access_def default_device_def device_organization_def
  device_timing_def default_controller_config_def default_simulation_config_def default_config_def
  sys_now_def device_custom_def config_validate_def channel_counters_def channel_config_def make_system_def
  schedule_event_def with_controller_def do_controller_def submit_reply_def new_parent_def
  try_submit_now_def same_resource_def max_group_bytes_def new_access_def piece_bytes_def split_round_def
  next_access_def admit_round_def pump_admissions_def schedule_controller_wake_def schedule_refresh_due_def
  notify_of_def drive_controller_def note_finished_def finish_access_def completion_of_def
  count_completion_def call_client_def complete_parent_def handle_event_def execute_def default_options_def
  run_config_def start_driver_def note_capacity_def trace_client_def record_completion_def
  system_run_until_def system_run_next_def system_run_def replay_transaction_def replay_line_def list_at_def
  element_def throw_if_def outcome_def size_of_def run.simps run_until_loop.simps split_loop.simps
  admit_loop.simps await_capacity.simps submit_loop.simps earliest_loop.simps(2) tc_def max_def min_def
  hbm_system.defs logical_access.defs logical_completion.defs driver.defs replicate_numeral

text \<open>The events of a run, one after the other.\<close>

fun run_events :: "'z client \<Rightarrow> nat \<Rightarrow> 'z system \<Rightarrow> 'z system result" where
  "run_events cl 0 s = Inr s"
| "run_events cl (Suc j) s = ebind (system_run_next cl s) (\<lambda>(b, s'). if b then run_events cl j s' else Inl Diverges)"

lemma run_events_operations:
  "run_events cl j s = Inr s' \<Longrightarrow> operations cl s0 rows k n s \<Longrightarrow> operations cl s0 rows k (n + j) s'"
proof (induction j arbitrary: s n)
  case (Suc j)
  then obtain s1 where s1: "system_run_next cl s = Inr (True, s1)" "run_events cl j s1 = Inr s'"
    by (auto elim!: ebind_cases split: if_split_asm)
  from Suc.IH [OF s1(2) op_event [OF Suc.prems(2) s1(1)]] show ?case by simp
qed simp

lemma sample_run:
  "case make_system default_config empty_queue of Inl e \<Rightarrow> False | Inr s \<Rightarrow>
     (case try_submit_now (start_driver s) small_transaction of Inl e \<Rightarrow> False | Inr (r, s1) \<Rightarrow>
       (case run_events (trace_client True) (Suc (Suc (Suc (Suc (Suc (Suc 0)))))) s1 of Inl e \<Rightarrow> False | Inr s2 \<Rightarrow>
         sr_status r = Accepted \<and> events (sys_queue s2) = [] \<and> sys_now s2 = 28625 \<and>
         refresh_interval (controller (sys_config s2)) = 0))"
  by (simp add: evaluation small_transaction_def sample_transaction_def cong: by_value weak_cases)

declare run_events.simps [simp del]

lemma sample_states:
  obtains s0 r s1 s where "make_system default_config empty_queue = Inr s0"
    "try_submit_now (start_driver s0) small_transaction = Inr (r, s1)" "sr_status r = Accepted"
    "run_events (trace_client True) (Suc (Suc (Suc (Suc (Suc (Suc 0)))))) s1 = Inr s"
    "events (sys_queue s) = []" "sys_now s = 28625" "refresh_interval (controller (sys_config s)) = 0"
proof -
  obtain s0 where s0: "make_system default_config empty_queue = Inr s0"
    using sample_run by (cases "make_system default_config empty_queue") simp_all
  obtain r s1 where s1: "try_submit_now (start_driver s0) small_transaction = Inr (r, s1)"
    using sample_run s0 by (cases "try_submit_now (start_driver s0) small_transaction") auto
  obtain s where s: "run_events (trace_client True) (Suc (Suc (Suc (Suc (Suc (Suc 0)))))) s1 = Inr s"
    using sample_run s0 s1 by (cases "run_events (trace_client True) (Suc (Suc (Suc (Suc (Suc (Suc 0)))))) s1") simp_all
  show thesis by (rule that [OF s0 s1 _ s]) (use sample_run s0 s1 s in simp_all)
qed

text \<open>The same row in a file, replayed by the program.\<close>

definition sample_file :: "string \<Rightarrow> string option" where
  "sample_file path = (if path = ''t'' then Some ''0,READ,4112,20'' else None)"

lemma sample_row: "getlines (CHR 0x0A) ''0,READ,4112,20'' = [''0,READ,4112,20'']"
  "parse_row 1 ''0,READ,4112,20'' = Inr small_transaction"
  by (simp_all add: parse_row_def split_csv_def parse_defs small_transaction_def sample_transaction_def default_metadata_def Let_def)

lemma sample_options: "parse_options [] default_options = Inr (Inr default_options)"
  "run_config default_options = default_config" "opt_completions default_options = []"
  by (simp_all add: default_options_def run_config_def)

lemma sample_main: "\<exists>out. main sample_file (\<lambda>p. True) [''t''] =
    Inr \<lparr>exit_code = 0, std_out = out, std_err = [], completion_file = None\<rparr>"
  unfolding main_def sample_options list.case ebind_Inr sum.case
  by (simp add: sample_file_def sample_options sample_row replay_trace_def replay_line_def accepted_def
      evaluation small_transaction_def sample_transaction_def cong: by_value weak_cases)

end
