(* ===== verification/Trace_Properties.thy ===== *)
theory Trace_Properties
  imports Trace_Samples System_Properties
begin

text \<open>Properties of the trace driver, with their witnesses.\<close>

section \<open>Texts\<close>

text \<open>
  C39. A transaction written as a row of a trace is read back: every field returns, the
  identifier is the one the driver assigns and the metadata is the default.
\<close>

theorem trace_row_roundtrip:
  "parse_row tid (trace_row tx) = Inr (tx\<lparr>tx_id := tid, tx_metadata := default_metadata\<rparr>)"
proof -
  have "ucast (ucast c :: u64) = c" for c :: u32 by (rule bit_word_eqI) (simp add: bit_simps)
  then show ?thesis
    by (cases tx; cases "tx_op tx") (simp_all add: parse_row_def split_trace_row Let_def)
qed

text \<open>
  C40. The file of completions is read back: after the header each line has its completion's
  numbers in their columns, with the operation and the access class between them.
\<close>

theorem completion_file_roundtrip:
  "map (\<lambda>line. (map (\<lambda>i. parse_u64 (split_csv line ! i)) numeric_columns, split_csv line ! 1, split_csv line ! 8))
     (tl (getlines (CHR 0x0A) (print_lines (completion_header # map completion_line cos)))) =
   map (\<lambda>co. (map Inr (completion_numbers co), if co_op co = hbm_op.Read then ''READ'' else ''WRITE'',
     class_name (co_access_class co))) cos"
proof -
  have "getlines (CHR 0x0A) (print_lines (completion_header # map completion_line cos)) =
      completion_header # map completion_line cos"
    by (rule lines_printed) (auto simp: completion_header_plain completion_line_plain)
  then show ?thesis
    by (simp add: completion_columns) (simp add: split_completion_line Let_def)
qed

text \<open>
  The number of a field ends at the first character that is no digit and the rest is not looked
  at; a minus sign is accepted and wraps.
\<close>

lemma takeWhile_decimal: "\<not> is_digit 10 c \<Longrightarrow> takeWhile (is_digit 10) (decimal n @ c # rest) = decimal n"
  by (simp add: takeWhile_append decimal_digits)

lemma trailing_text_ignored:
  assumes "\<not> is_digit 10 c" and "0 < n"
  shows "parse_u64 (decimal n @ c # rest) = parse_u64 (decimal n)"
proof -
  have "is_digit 10 (hd (decimal n))" by (rule decimal_digits [of _ n]) simp
  then have hd: "\<not> is_space (hd (decimal n))" "hd (decimal n) \<noteq> CHR ''-''" "hd (decimal n) \<noteq> CHR ''+''"
    by (auto simp: digit_char is_space_def)
  have blanks: "dropWhile is_space (decimal n @ c # rest) = decimal n @ c # rest"
    "dropWhile is_space (decimal n) = decimal n"
    using hd(1) by (cases "decimal n"; simp)+
  have base: "number_base (decimal n @ c # rest) = (10, decimal n @ c # rest)" "number_base (decimal n) = (10, decimal n)"
    using hd_decimal [OF assms(2)] by (simp_all add: number_base_def hd_append)
  have all: "takeWhile (is_digit 10) (decimal n) = decimal n" by (simp add: takeWhile_eq_all_conv decimal_digits)
  show ?thesis
    using hd(2,3) unfolding parse_u64_def by (simp add: blanks base all takeWhile_decimal [OF assms(1)] hd_append Let_def)
qed

lemma lenient_numbers:
  "parse_u64 ''64KB'' = Inr 64" "parse_u64 ''-1'' = Inr u64_max" "parse_u64 ''010'' = Inr 8" "parse_u64 ''08'' = Inr 0"
  by (simp_all add: parse_defs)

section \<open>The replay\<close>

text \<open>
  C4. A run of the program either fails, with exit code 2, a message and no report, or it replays
  the trace: it performs operations on a fresh system of the chosen profile in which every row of the
  file is accepted in order, until no event is left, and reports the counters and completions of the
  final state.
\<close>

theorem main_replays_trace:
  assumes "main files writable args = Inr pe"
  shows "exit_code pe = 2 \<and> std_out pe = [] \<and> std_err pe \<noteq> [] \<and> completion_file pe = None \<or>
    exit_code pe = 0 \<and> std_err pe = [] \<and> (\<exists>path rest opts trace s0 n s. args = path # rest \<and>
      parse_options rest default_options = Inr (Inr opts) \<and> files path = Some trace \<and>
      make_system (run_config opts) empty_queue = Inr s0 \<and> layout_ok (sys_mapper s0) \<and>
      operations (trace_client (opt_completions opts \<noteq> [])) (start_driver s0)
        (trace_rows 1 (getlines (CHR 0x0A) trace)) (length (trace_rows 1 (getlines (CHR 0x0A) trace))) n s \<and>
      events (sys_queue s) = [] \<and> std_out pe = print_lines (report_lines (sys_stats s)) \<and>
      completion_file pe = (if opt_completions opts \<noteq> []
        then Some (print_lines (completion_header # completion_output s)) else None))"
  using assms
proof (cases rule: main_cases)
  case 1
  then show ?thesis by blast
next
  case (2 path rest opts trace s0)
  have "layout_ok (sys_mapper s0)"
    by (rule driver_layout [OF 2(5) run_config_layout [OF 2(3)]]) (simp add: default_options_def)
  with 2 show ?thesis
    by (intro disjI2) (rule replay_trace_operations [OF 2(6,1) start_driver_fresh(1,2) [OF 2(5)]], blast)
qed

theorem main_replays_trace_witness:
  "\<exists>out s0 n s. main sample_file (\<lambda>p. True) [''t''] =
       Inr \<lparr>exit_code = 0, std_out = out, std_err = [], completion_file = None\<rparr> \<and>
     make_system default_config empty_queue = Inr s0 \<and>
     operations (trace_client False) (start_driver s0) [small_transaction] 1 n s \<and> events (sys_queue s) = [] \<and>
     out = print_lines (report_lines (sys_stats s))"
proof -
  obtain out where out: "main sample_file (\<lambda>p. True) [''t''] =
      Inr \<lparr>exit_code = 0, std_out = out, std_err = [], completion_file = None\<rparr>"
    using sample_main by blast
  have rows: "trace_rows 1 [''0,READ,4112,20''] = [small_transaction]" by (simp add: sample_row is_row_def)
  from main_replays_trace [OF out] out show ?thesis
    by (auto simp: sample_options sample_file_def sample_row(1) rows simp del: trace_rows.simps)
qed

text \<open>
  C5. Nothing is lost: when a replay has submitted its rows and no event is left, the
  completed transactions are the rows of the trace, each with all its fields, and the counters
  are their number and their bytes. The file of completions has one line for each of them.
\<close>

theorem trace_runs_to_completion:
  assumes "make_system cfg empty_queue = Inr s0" and "layout_ok (sys_mapper s0)"
    and "operations (trace_client reporting) (start_driver s0) rows (length rows) n s"
    and "n < 2 ^ 29" and "time_left s" and "total_bytes rows < 2 ^ 64" and "events (sys_queue s) = []"
  shows "parents s = [] \<and> completed_transactions (sys_stats s) = word_of_nat (length rows) \<and>
    read_bytes (sys_stats s) = bytes_of_op hbm_op.Read (mset rows) \<and>
    write_bytes (sys_stats s) = bytes_of_op hbm_op.Write (mset rows) \<and>
    (\<exists>cos. image_mset transaction_of (mset cos) = mset rows \<and>
      completion_output s = (if reporting then map completion_line cos else []))"
  by (rule operations_complete [OF assms]) (auto simp: totals_def)

theorem trace_runs_to_completion_witness:
  "\<exists>s0 s co. make_system default_config empty_queue = Inr s0 \<and>
     operations (trace_client True) (start_driver s0) [small_transaction] 1 7 s \<and>
     completed_transactions (sys_stats s) = 1 \<and> read_bytes (sys_stats s) = 20 \<and>
     transaction_of co = small_transaction \<and> completion_output s = [completion_line co]"
proof -
  obtain s0 r s1 s where s0: "make_system default_config empty_queue = Inr s0"
    and s1: "try_submit_now (start_driver s0) small_transaction = Inr (r, s1)" "sr_status r = Accepted"
    and s: "run_events (trace_client True) (Suc (Suc (Suc (Suc (Suc (Suc 0)))))) s1 = Inr s"
    and final: "events (sys_queue s) = []" "sys_now s = 28625" "refresh_interval (controller (sys_config s)) = 0"
    by (rule sample_states)
  have "operations (trace_client True) (start_driver s0) [small_transaction] 1 (Suc 0) s1"
    using op_submit [OF op_start, of "[small_transaction]" "start_driver s0" r s1] s1 by (simp add: accepted_def)
  from run_events_operations [OF s this] have ops:
    "operations (trace_client True) (start_driver s0) [small_transaction] (length [small_transaction]) 7 s"
    by (simp add: numeral_eq_Suc)
  have lay: "layout_ok (sys_mapper s0)" using profile_systems [of default_config] s0 by auto
  have "time_left s" by (simp add: time_left_def final)
  from trace_runs_to_completion [OF s0 lay ops _ this _ final(1)] obtain cos where
    cos: "image_mset transaction_of (mset cos) = {#small_transaction#}" "completion_output s = map completion_line cos"
    and st: "completed_transactions (sys_stats s) = 1" "read_bytes (sys_stats s) = bytes_of_op hbm_op.Read {#small_transaction#}"
    by (auto simp: small_transaction_def sample_transaction_def)
  obtain co where "cos = [co]" using cos(1) by (cases cos; cases "tl cos") auto
  with s0 ops cos st show ?thesis
    by (auto simp: bytes_of_op_def small_transaction_def sample_transaction_def)
qed

text \<open>
  C8. When a submission meets backpressure a transaction is active, and as long as no capacity
  notification has come the event queue has a next event: the loop never ends with "backpressure
  without a future capacity event".
\<close>

theorem waiting_never_starves:
  assumes "make_system cfg q = Inr s0" and "layout_ok (sys_mapper s0)" and "events q = []"
    and "progresses (trace_client reporting) (start_driver s0) s"
    and "time_left s" and "sequence_left s" and "active_bytes (parents s) + unat (tx_size_bytes tx) < 2 ^ 64"
    and "try_submit_now s tx = Inr (r, s1)" and "sr_status r = Backpressure"
    and "awaits (trace_client reporting) s1 s'" and "\<not> capacity_changed s'"
  shows "events (sys_queue s') \<noteq> [] \<and> system_run_next (trace_client reporting) s' \<noteq> Inr (False, t)"
proof -
  have s: "alive 0 {#} s"
    by (rule trace.progresses_alive [OF assms(4) start_driver_ok(2) [OF assms(1-3)]])
  have "alive 0 {#} s1"
    using yieldsD [OF try_submit_now_alive [of s 0 "{#}" tx] assms(8)] alive_sequence [OF s assms(6)] assms(5,7) by simp
  moreover have "parents s1 \<noteq> []" using backpressure_active [OF s assms(8,9)] by simp
  ultimately have "events (sys_queue s') \<noteq> []" using assms(10,11) by (intro waiting_has_event)
  then show ?thesis by (cases "events (sys_queue s')") (auto simp: system_run_next_popped ebind_eq_Inr)
qed

text \<open>A system that takes one transaction at a time: the second submission is refused.\<close>

definition single_config :: hbm_config where
  "single_config = hbm4_8000\<lparr>controller := (controller hbm4_8000)\<lparr>max_active_transactions := 1\<rparr>\<rparr>"

definition second_transaction :: hbm_transaction where
  "second_transaction = small_transaction\<lparr>tx_id := 2\<rparr>"

lemma single_refuses:
  "case make_system single_config empty_queue of Inl e \<Rightarrow> False | Inr s \<Rightarrow>
     (case try_submit_now (start_driver s) small_transaction of Inl e \<Rightarrow> False | Inr (r1, s1) \<Rightarrow>
       (case try_submit_now s1 second_transaction of Inl e \<Rightarrow> False | Inr (r2, s2) \<Rightarrow>
         sr_status r2 = Backpressure \<and> \<not> capacity_changed s2 \<and> next_sequence (sys_queue s1) < 100 \<and>
         sys_now s1 = 0 \<and> map (\<lambda>x. tx_size_bytes (pr_transaction (snd x))) (parents s1) = [20]))"
  by code_simp

lemma single_system:
  assumes "make_system single_config empty_queue = Inr s"
  shows "layout_ok (sys_mapper s)" "sys_queue s = empty_queue"
proof -
  have "organized_mapper single_config = organized_mapper hbm4_8000"
    by (simp add: organized_mapper_def single_config_def)
  moreover have "organized_mapper single_config = Inr (sys_mapper s)" "sys_queue s = empty_queue"
    using assms by (auto simp: make_system_def organized_mapper_def Let_def ebind_eq_Inr split: if_splits)
  ultimately show "layout_ok (sys_mapper s)" "sys_queue s = empty_queue" using profile_layouts by auto
qed

lemma single_run:
  obtains s0 r1 s1 r2 s2 where "make_system single_config empty_queue = Inr s0"
    "try_submit_now (start_driver s0) small_transaction = Inr (r1, s1)"
    "try_submit_now s1 second_transaction = Inr (r2, s2)" "sr_status r2 = Backpressure" "\<not> capacity_changed s2"
    "next_sequence (sys_queue s1) < 100" "sys_now s1 = 0"
    "map (\<lambda>x. tx_size_bytes (pr_transaction (snd x))) (parents s1) = [20]"
proof -
  obtain s0 where s0: "make_system single_config empty_queue = Inr s0"
    using single_refuses by (cases "make_system single_config empty_queue") simp_all
  obtain r1 s1 where s1: "try_submit_now (start_driver s0) small_transaction = Inr (r1, s1)"
    using single_refuses s0 by (cases "try_submit_now (start_driver s0) small_transaction") auto
  obtain r2 s2 where s2: "try_submit_now s1 second_transaction = Inr (r2, s2)"
    using single_refuses s0 s1 by (cases "try_submit_now s1 second_transaction") auto
  show thesis by (rule that [OF s0 s1 s2]) (use single_refuses s0 s1 s2 in simp_all)
qed

theorem waiting_never_starves_witness:
  "\<exists>s0 r1 s1 r2 s2. make_system single_config empty_queue = Inr s0 \<and>
     try_submit_now (start_driver s0) small_transaction = Inr (r1, s1) \<and>
     try_submit_now s1 second_transaction = Inr (r2, s2) \<and> sr_status r2 = Backpressure \<and>
     events (sys_queue s2) \<noteq> [] \<and> system_run_next (trace_client True) s2 \<noteq> Inr (False, s2)"
proof -
  obtain s0 r1 s1 r2 s2 where s0: "make_system single_config empty_queue = Inr s0"
    and s1: "try_submit_now (start_driver s0) small_transaction = Inr (r1, s1)"
    and s2: "try_submit_now s1 second_transaction = Inr (r2, s2)" "sr_status r2 = Backpressure" "\<not> capacity_changed s2"
    and small: "next_sequence (sys_queue s1) < 100" "sys_now s1 = 0"
      "map (\<lambda>x. tx_size_bytes (pr_transaction (snd x))) (parents s1) = [20]"
    by (rule single_run)
  have new: "time_left (start_driver s0)" "sequence_left (start_driver s0)" "parents (start_driver s0) = []"
    using single_system(2) [OF s0] s0 unat_u64_lt
    by (auto simp: time_left_def sys_now_def sequence_left_def room_def empty_queue_def start_driver_def
        hbm_system.defs make_system_def Let_def ebind_eq_Inr split: if_splits)
  have "time_left s1" using unat_u64_lt by (simp add: time_left_def small(2))
  moreover have "sequence_left s1" using small(1) by (simp add: sequence_left_def room_def word_less_nat_alt)
  moreover have "active_bytes (parents s1) = 20" using small(3) by (auto simp: active_bytes_def)
  moreover have "progresses (trace_client True) (start_driver s0) s1"
    using new by (intro progress_submit [OF progress_start _ _ _ s1])
      (simp_all add: active_bytes_def small_transaction_def sample_transaction_def)
  ultimately have "events (sys_queue s2) \<noteq> [] \<and> system_run_next (trace_client True) s2 \<noteq> Inr (False, s2)"
    by (intro waiting_never_starves [OF s0 single_system(1) [OF s0] events_empty _ _ _ _ s2(1,2) awaits_start s2(3)])
      (simp_all add: second_transaction_def small_transaction_def)
  with s0 s1 s2 show ?thesis by blast
qed

end
