(* ===== verification/Spec2Isabelle.thy ===== *)
theory Spec2Isabelle
  imports Device_Properties Controller_Properties Trace_Properties
begin

text \<open>
  Verification library of \<^verbatim>\<open>hbmsim\<close>, a discrete-event simulator of High Bandwidth Memory
  written in C++. It models the implementation files under \<^verbatim>\<open>src/\<close> and
  \<^verbatim>\<open>include/hbmsim/\<close> as HOL definitions that can be executed, and proves what makes each
  part correct.

  \<^bold>\<open>The program.\<close> A client submits transactions to an \<^verbatim>\<open>HbmSystem\<close>. The system splits a
  transaction into accesses, each within one row of one bank, and admits them to the controller of
  their channel as far as its queues have room. A controller chooses, step by step, the next DRAM
  command for one of its queued accesses or for pending maintenance; when the data command of an
  access is issued, the access leaves its queue and its completion is scheduled. All activity is
  driven by events of an \<^verbatim>\<open>ISimScheduler\<close>: wakes of the controllers, refreshes, ends of
  transfers and capacity notifications. When the last access of a transaction has completed, the
  client is told through a callback, from which it may submit again. The program \<^verbatim>\<open>main.cpp\<close> is
  such a client: it replays a trace of transactions and reports the counters.

  \<^bold>\<open>Theories and sources.\<close>
  \<^item> \<open>Prelude\<close>: fixed-width integers, exceptions as values of a sum type, sequencing
    (\<open>ebind\<close>), and \<open>delivers\<close>: a step returns a value with a property or simulated time
    overflows.
  \<^item> \<open>Hbm_Types\<close>: \<^verbatim>\<open>transaction.h\<close>, \<^verbatim>\<open>stats.h\<close>, \<^verbatim>\<open>media/bank_state.h\<close>,
    \<^verbatim>\<open>dram/command.h\<close>, \<^verbatim>\<open>dram/spec.h\<close>, \<^verbatim>\<open>dram/address.h\<close>: every struct is a
    record with the source's fields, every enumeration a datatype.
  \<^item> \<open>Bandwidth\<close>: \<^verbatim>\<open>resource/bandwidth_rate.cpp\<close>; \<open>Address_Mapper\<close>:
    \<^verbatim>\<open>topology.h\<close> and \<^verbatim>\<open>mapping/address_mapper.cpp\<close>; \<open>Timing_Spec\<close> and
    \<open>Timing_Engine\<close>: \<^verbatim>\<open>timing/\<close>; \<open>Hbm_Standard\<close>: \<^verbatim>\<open>dram/hbm_standard.cpp\<close>,
    with virtual dispatch as a case distinction over the three standards; \<open>Command_Planner\<close>:
    \<^verbatim>\<open>controller/command_planner.cpp\<close>, \<^verbatim>\<open>row_policy.cpp\<close> and
    \<^verbatim>\<open>refresh_manager.cpp\<close>; \<open>Scheduler\<close>: \<^verbatim>\<open>controller/scheduler.cpp\<close>;
    \<open>Event_Queue\<close>: \<^verbatim>\<open>kernel/event_queue.cpp\<close> and the interface
    \<^verbatim>\<open>kernel/sim_scheduler.h\<close>, which is the locale \<open>sim_scheduler\<close>.
  \<^item> \<open>Controller\<close> (state, counters, capacity, buses), \<open>Controller_Select\<close> (choice of the next
    command), \<open>Controller_Issue\<close> (issuing, merging of reads, transfers) and
    \<open>Controller_Step\<close> (maintenance, refresh, admission, \<open>drive\<close>, completions):
    \<^verbatim>\<open>controller/hbm_controller.cpp\<close>, every method.
  \<^item> \<open>System_Config\<close> (\<^verbatim>\<open>DeviceSpec\<close>, \<^verbatim>\<open>HbmConfig\<close> and its validation) and
    \<open>System\<close> (\<^verbatim>\<open>HbmSystem\<close>): \<^verbatim>\<open>hbm_system.cpp\<close>. The closures handed to the
    scheduler are the datatype \<open>system_event\<close>, run by \<open>handle_event\<close>; the two callbacks of
    the client are parameters, and a client may extend the record of the system by a state of its
    own.
  \<^item> \<open>Trace_Driver\<close>: \<^verbatim>\<open>src/main.cpp\<close>: the command line, the parser of trace rows, the
    client of the replay (the system extended by the variables its callbacks capture), the reports
    and the whole program as the function \<open>main\<close>. Evaluated on the seven micro traces of
    \<^verbatim>\<open>validation/\<close> with the profile \<^verbatim>\<open>hbm2_2000\<close>, the model yields the
    counters of the recorded baseline.

  \<^bold>\<open>What the lemmas show.\<close>
  \<^item> \<open>Controller_Invariant\<close>: the invariant \<open>controller_ok\<close> and that counting and recording
    keep it; \<open>Controller_Choice\<close>: the candidate chosen is least and allowed;
    \<open>Controller_Safety\<close>: what issuing a command does; \<open>Controller_Refresh\<close>: maintenance is
    chosen while it is pending, each command decreases the measure \<open>maintenance_work\<close>, the loops
    of refresh end, and the commands stay legal over the whole log; \<open>Controller_Drive\<close>: the step
    relation \<open>operates\<close> of a controller and all its runs.
  \<^item> \<open>System_Split\<close>: the splitting loop ends and partitions a transaction. \<open>System_Work\<close>: the
    accounting of accesses queued and in flight. \<open>System_Invariant\<close>, \<open>System_Admission\<close>,
    \<open>System_Run\<close>: the invariant \<open>system_ok\<close>, kept by every operation of the system under
    the contract \<open>hbm_client\<close> of its client. \<open>System_Reach\<close>: the constructor establishes it,
    and it holds in all reachable states (\<open>reaches\<close>); the contract is met by a client without
    callbacks and by one that answers each completion with a new transaction.
  \<^item> \<open>System_Progress\<close> and \<open>System_Liveness\<close>: work is not forgotten. Every marked wake-up of a
    controller, every transfer under way and every blocked transaction is backed by an event
    (\<open>alive\<close>), in every state a client without submissions of its own can get to
    (\<open>progresses\<close>).
  \<^item> \<open>Controller_Totals\<close> and \<open>System_Frame\<close>: what steps leave alone without any assumption on the
    state: the totals of the system, the active transactions, the clock and the order of events.
  \<^item> \<open>Trace_Text\<close>: what is printed is parsed back. \<open>Trace_Replay\<close>: the client of the replay
    keeps the contract, each step accounts for the transactions it completes (\<open>settled\<close>), and
    errors are located. \<open>Trace_Operations\<close>: a replay as a step relation \<open>operations\<close>; when it
    ends, the rows of the trace are the transactions completed. \<open>Trace_Program\<close>: the loops of the
    program carry out such operations, so that a successful run of \<open>main\<close> is one.
  \<^item> \<open>Device_Properties\<close>, \<open>Controller_Properties\<close>, \<open>System_Properties\<close>,
    \<open>Trace_Properties\<close>: the claims, each applied at a concrete input; \<open>Samples\<close> and
    \<open>Trace_Samples\<close>: the inputs, among them a whole run of \<open>main\<close> evaluated by the simplifier.

  \<^bold>\<open>Interfaces.\<close> \<open>sim_scheduler\<close> states the contract of a scheduler as an agenda of pending
  events and is interpreted on the event queue; \<open>hbm_client\<close> states what the system relies on in
  the callbacks and is interpreted on two clients. \<open>passive_client\<close> is the stronger contract of
  a client that never submits from a callback; it gives \<open>hbm_client\<close> as a sublocale and is
  interpreted on the client of the replay and on the one without callbacks.

  \<^bold>\<open>Loops and bounds.\<close> Loops over containers are recursive functions. Loops that need an argument
  to end are \<^theory_text>\<open>partial_function (option)\<close>, where not ending is the value \<open>None\<close>,
  which \<open>outcome\<close> turns into the error \<open>Diverges\<close>: \<open>catch_up\<close>, \<open>idle_refresh_loop\<close>,
  \<open>split_loop\<close> and \<open>admit_loop\<close> are proved to end; \<open>run\<close> and \<open>run_until_loop\<close> of the
  event queue need not, since callbacks schedule further events, nor need \<open>await_capacity\<close> and
  \<open>submit_loop\<close> of the replay, which run them. There is no fuel. Simulated time
  is a 64-bit word and wraps as in C++; theorems about admission assume that a refresh interval is
  left before the end of its range (\<open>time_left\<close>, \<open>next_in_time\<close>), and otherwise the
  exceptions that report it are part of the statement (\<open>delivers\<close>, \<open>timely\<close>). Submission
  assumes that the active transactions together are below \<open>2 ^ 64\<close> bytes, so that no count of
  accesses wraps. The theorems on liveness assume that the sequence numbers of the event queue do
  not wrap within a step (\<open>sequence_left\<close>): no step schedules \<open>2 ^ 34\<close> events. For a whole replay
  it is enough that it takes fewer than \<open>2 ^ 29\<close> steps and that a refresh interval is left at its end
  (\<open>trace_runs_to_completion\<close>).

  \<^bold>\<open>Assumptions on configurations.\<close> \<open>layout_ok\<close>: the dimensions multiply to less than
  \<open>2 ^ 32\<close>, and the bit-field layout has at least the dimensions its fields address. The four
  built-in configurations satisfy it (\<open>profile_systems\<close>). What happens without the first is
  \<open>wrapped_channel_count_divides_by_zero\<close>.

  \<^bold>\<open>Not modelled.\<close> Opening files (which paths can be read and written is a parameter of \<open>main\<close>),
  the part of the file of completions that a failed replay leaves behind, how the run time ends on an
  exception that \<^verbatim>\<open>main\<close> does not catch (the model returns it); the tests, the build files; \<^verbatim>\<open>set_completion_callback\<close> and \<^verbatim>\<open>set_capacity_callback\<close>, which store the
  callbacks that are parameters here; \<^verbatim>\<open>EventCompare\<close>, which nothing uses, and
  \<^verbatim>\<open>speed_bin()\<close>, which no other part reads.
\<close>

end
